(* ===== verification/Cornus_Prelude.thy ===== *)
theory Cornus_Prelude
  imports
    Main
    "HOL-Library.Word"
    "HOL-Library.Char_ord"
    "HOL-Library.List_Lexorder"
begin

text \<open>
  Shared ground of the development: the error values that stand for the exceptions, failed
  assertions and undefined behaviours of the C++ code, the pieces of the standard library that
  the sources use on strings (word extraction with \<open>>>\<close>, \<open>std::getline\<close>, \<open>std::to_string\<close>,
  \<open>std::stoul\<close>, \<open>std::stoi\<close>), and the list lemmas the component theories share.
\<close>

section \<open>Errors and results\<close>

datatype cxx_error =
    Invalid_argument            \<comment> \<open>\<open>std::invalid_argument\<close>\<close>
  | Out_of_range                \<comment> \<open>\<open>std::out_of_range\<close>\<close>
  | Length_error                \<comment> \<open>\<open>std::length_error\<close>\<close>
  | Runtime_error string        \<comment> \<open>\<open>std::runtime_error\<close> with its message\<close>
  | Json_type_error             \<comment> \<open>\<open>nlohmann::json::type_error\<close>\<close>
  | Json_parse_error nat string \<comment> \<open>\<open>nlohmann::json::parse_error\<close>: the byte and the text\<close>
  | Json_out_of_range string    \<comment> \<open>\<open>nlohmann::json::out_of_range\<close> with its text\<close>
  | Assertion_failed            \<comment> \<open>\<open>assert(false)\<close>: the build sets no \<open>NDEBUG\<close>\<close>
  | Undefined_behaviour         \<comment> \<open>an access the C++ standard leaves undefined\<close>

type_synonym 'a result = "cxx_error + 'a"

definition bind_result :: "'a result \<Rightarrow> ('a \<Rightarrow> 'b result) \<Rightarrow> 'b result" where
  "bind_result r f = (case r of Inl e \<Rightarrow> Inl e | Inr x \<Rightarrow> f x)"

named_theorems cxx_simps "evaluation rules of the C++ standard-library operations"

lemma bind_result_simps [simp, cxx_simps]:
  "bind_result (Inl e) f = Inl e"
  "bind_result (Inr x) f = f x"
  by (simp_all add: bind_result_def)

lemma bind_result_Inr_iff:
  "bind_result r f = Inr y \<longleftrightarrow> (\<exists>x. r = Inr x \<and> f x = Inr y)"
  by (cases r) simp_all

type_synonym host = string                   \<comment> \<open>\<open>HostID\<close>, "hostname:port"\<close>
type_synonym transaction_id = "64 word"      \<comment> \<open>\<open>TransactionId = uint64_t\<close>\<close>
type_synonym decision = string               \<comment> \<open>\<open>Decision = std::string\<close>\<close>

section \<open>Lists\<close>

lemma takeWhile_append_stop [simp]:
  "list_all P xs \<Longrightarrow> \<not> P y \<Longrightarrow> takeWhile P (xs @ y # ys) = xs"
  by (induction xs) auto

lemma dropWhile_append_stop [simp]:
  "list_all P xs \<Longrightarrow> \<not> P y \<Longrightarrow> dropWhile P (xs @ y # ys) = y # ys"
  by (induction xs) auto

lemma takeWhile_all [simp]: "list_all P xs \<Longrightarrow> takeWhile P xs = xs"
  by (induction xs) auto

lemma dropWhile_all [simp]: "list_all P xs \<Longrightarrow> dropWhile P xs = []"
  by (induction xs) auto

lemma list_all_neq_iff [simp]: "list_all (\<lambda>x. x \<noteq> d) xs \<longleftrightarrow> d \<notin> set xs"
  by (induction xs) auto

section \<open>Word extraction: \<open>ss >> word\<close>\<close>

definition is_space :: "char \<Rightarrow> bool" where
  "is_space c \<longleftrightarrow> c \<in> {CHR 0x20, CHR 0x09, CHR 0x0A, CHR 0x0B, CHR 0x0C, CHR 0x0D}"

abbreviation not_space :: "char \<Rightarrow> bool" where
  "not_space c \<equiv> \<not> is_space c"

definition is_word :: "string \<Rightarrow> bool" where
  "is_word w \<longleftrightarrow> w \<noteq> [] \<and> list_all not_space w"

definition extract_word :: "string \<Rightarrow> (string \<times> string) option" where
  "extract_word s =
     (let s' = dropWhile is_space s
      in if s' = [] then None else Some (takeWhile not_space s', dropWhile not_space s'))"

lemma extract_word_shorter:
  assumes "extract_word s = Some (w, s')"
  shows "length s' < length s"
proof -
  let ?d = "dropWhile is_space s"
  have ne: "?d \<noteq> []" and s': "s' = dropWhile not_space ?d"
    using assms by (auto simp: extract_word_def Let_def split: if_splits)
  have "not_space (hd ?d)" using hd_dropWhile [OF ne] by simp
  then have "dropWhile not_space ?d = dropWhile not_space (tl ?d)"
    using ne by (cases ?d) auto
  then have "length s' \<le> length (tl ?d)"
    using s' length_dropWhile_le by metis
  moreover have "length (tl ?d) < length ?d" using ne by (cases ?d) auto
  moreover have "length ?d \<le> length s" by (rule length_dropWhile_le)
  ultimately show ?thesis by linarith
qed

function extract_words :: "string \<Rightarrow> string list" where
  "extract_words s =
     (case extract_word s of None \<Rightarrow> [] | Some (w, s') \<Rightarrow> w # extract_words s')"
  by pat_completeness auto

termination
  by (relation "measure length") (auto dest: extract_word_shorter)

declare extract_words.simps [simp del]

lemma extract_word_is_word: "extract_word s = Some (w, s') \<Longrightarrow> is_word w"
proof -
  assume a: "extract_word s = Some (w, s')"
  let ?d = "dropWhile is_space s"
  have ne: "?d \<noteq> []" and w: "w = takeWhile not_space ?d"
    using a by (auto simp: extract_word_def Let_def split: if_splits)
  have "not_space (hd ?d)" using hd_dropWhile [OF ne] by simp
  then have "w \<noteq> []" using w ne by (cases ?d) auto
  moreover have "list_all not_space w"
    using w by (auto simp: list_all_iff dest: set_takeWhileD)
  ultimately show ?thesis by (simp add: is_word_def)
qed

lemma extract_words_are_words: "w \<in> set (extract_words s) \<Longrightarrow> is_word w"
proof (induction s rule: extract_words.induct)
  case (1 s)
  show ?case
  proof (cases "extract_word s")
    case None
    with "1.prems" show ?thesis by (simp add: extract_words.simps [of s])
  next
    case (Some p)
    obtain v s' where p: "p = (v, s')" by (cases p)
    with Some "1.prems" have "w = v \<or> w \<in> set (extract_words s')"
      by (simp add: extract_words.simps [of s])
    with Some p "1.IH" [OF Some p [symmetric]] show ?thesis by (auto dest: extract_word_is_word)
  qed
qed

lemma extract_word_delimited:
  assumes "is_word w" and "is_space c"
  shows "extract_word (w @ c # s) = Some (w, c # s)"
proof -
  obtain a w' where w: "w = a # w'" using assms(1) by (cases w) (auto simp: is_word_def)
  then have "dropWhile is_space (w @ c # s) = w @ c # s"
    using assms(1) by (simp add: is_word_def)
  then show ?thesis
    using assms by (simp add: extract_word_def is_word_def)
qed

lemma extract_words_blank: "list_all is_space s \<Longrightarrow> extract_words s = []"
  by (subst extract_words.simps) (simp add: extract_word_def)

lemma extract_words_skip: "is_space c \<Longrightarrow> extract_words (c # s) = extract_words s"
  by (subst (1 2) extract_words.simps) (simp add: extract_word_def)

lemma extract_words_step:
  assumes "is_word w" and "is_space c"
  shows "extract_words (w @ c # s) = w # extract_words s"
  using assms by (subst extract_words.simps) (simp add: extract_word_delimited extract_words_skip)

lemma is_space_blank [simp]: "is_space (CHR '' '')"
  by (simp add: is_space_def)

lemma extract_words_joined:
  assumes "list_all is_word ws"
  shows "extract_words (concat (map (\<lambda>w. w @ '' '') ws)) = ws"
  using assms
proof (induction ws)
  case Nil
  then show ?case by (simp add: extract_words_blank)
next
  case (Cons w ws)
  then show ?case
    using extract_words_step [of w "CHR '' ''" "concat (map (\<lambda>w. w @ '' '') ws)"] by simp
qed

section \<open>\<open>std::getline\<close> on a string stream\<close>

text \<open>
  \<open>getline d s\<close> is the line up to the delimiter \<open>d\<close> and the rest of the stream behind it;
  \<open>None\<close> when nothing is left to extract (the stream turns false).
\<close>

definition getline :: "char \<Rightarrow> string \<Rightarrow> (string \<times> string) option" where
  "getline d s =
     (if s = [] then None
      else Some (takeWhile (\<lambda>c. c \<noteq> d) s, drop 1 (dropWhile (\<lambda>c. c \<noteq> d) s)))"

lemma getline_Nil [simp]: "getline d [] = None"
  by (simp add: getline_def)

lemma getline_delimited [simp]:
  "d \<notin> set w \<Longrightarrow> getline d (w @ d # s) = Some (w, s)"
  by (simp add: getline_def)

lemma getline_last [simp]:
  "d \<notin> set w \<Longrightarrow> w \<noteq> [] \<Longrightarrow> getline d w = Some (w, [])"
  by (simp add: getline_def)

lemma getline_shorter: "getline d s = Some (w, s') \<Longrightarrow> length s' < length s"
  using length_dropWhile_le [of "\<lambda>c. c \<noteq> d" s]
  by (cases s) (auto simp: getline_def split: if_splits intro: le_imp_less_Suc)

section \<open>Numbers and strings\<close>

definition is_digit :: "char \<Rightarrow> bool" where
  "is_digit c \<longleftrightarrow> 48 \<le> (of_char c :: nat) \<and> (of_char c :: nat) \<le> 57"

fun nat_digits :: "nat \<Rightarrow> nat list" where
  "nat_digits n = (if n < 10 then [n] else nat_digits (n div 10) @ [n mod 10])"

declare nat_digits.simps [simp del]

definition digit_char :: "nat \<Rightarrow> char" where
  "digit_char d = char_of (48 + d)"

definition to_string_nat :: "nat \<Rightarrow> string" where
  "to_string_nat n = map digit_char (nat_digits n)"

text \<open>\<open>std::to_string\<close> of a \<open>uint64_t\<close> and of a (signed) \<open>int\<close>.\<close>

definition to_string_u64 :: "64 word \<Rightarrow> string" where
  "to_string_u64 w = to_string_nat (unat w)"

definition to_string_int :: "int \<Rightarrow> string" where
  "to_string_int i = (if i < 0 then ''-'' @ to_string_nat (nat (- i)) else to_string_nat (nat i))"

definition digits_value :: "string \<Rightarrow> nat" where
  "digits_value = foldl (\<lambda>v c. 10 * v + (of_char c - 48)) 0"

text \<open>The optional sign that \<open>strtoul\<close> and \<open>strtol\<close> accept before the digits.\<close>

fun take_sign :: "string \<Rightarrow> bool \<times> string" where
  "take_sign [] = (False, [])"
| "take_sign (c # s) =
     (if c = CHR ''-'' then (True, s) else if c = CHR ''+'' then (False, s) else (False, c # s))"

definition scan_number :: "string \<Rightarrow> (bool \<times> nat) option" where
  "scan_number s =
     (let (neg, s') = take_sign (dropWhile is_space s); ds = takeWhile is_digit s'
      in if ds = [] then None else Some (neg, digits_value ds))"

definition stoul :: "string \<Rightarrow> 64 word result" where
  "stoul s = (case scan_number s of
       None \<Rightarrow> Inl Invalid_argument
     | Some (neg, v) \<Rightarrow>
         if 2 ^ 64 \<le> v then Inl Out_of_range
         else Inr (if neg then - word_of_nat v else word_of_nat v))"

definition stoi :: "string \<Rightarrow> int result" where
  "stoi s = (case scan_number s of
       None \<Rightarrow> Inl Invalid_argument
     | Some (neg, v) \<Rightarrow>
         let i = (if neg then - int v else int v)
         in if i < - (2 ^ 31) \<or> 2 ^ 31 \<le> i then Inl Out_of_range else Inr i)"

lemma digit_char_code: "d < 10 \<Longrightarrow> (of_char (digit_char d) :: nat) = 48 + d"
  by (simp add: digit_char_def)

lemma is_digit_digit_char: "d < 10 \<Longrightarrow> is_digit (digit_char d)"
  by (simp add: is_digit_def digit_char_code)

lemma nat_digits_small: "d \<in> set (nat_digits n) \<Longrightarrow> d < 10"
proof (induction n rule: nat_digits.induct)
  case (1 n)
  then show ?case by (auto simp: nat_digits.simps [of n] split: if_splits)
qed

lemma nat_digits_nonempty [simp]: "nat_digits n \<noteq> []"
  by (subst nat_digits.simps) simp

lemma digits_value_snoc:
  "digits_value (s @ [c]) = 10 * digits_value s + (of_char c - 48)"
  by (simp add: digits_value_def)

lemma digits_value_to_string_nat [simp]: "digits_value (to_string_nat n) = n"
proof (induction n rule: nat_digits.induct)
  case (1 n)
  show ?case
  proof (cases "n < 10")
    case True
    then show ?thesis
      by (simp add: to_string_nat_def nat_digits.simps [of n] digits_value_def digit_char_code)
  next
    case False
    then have "to_string_nat n = to_string_nat (n div 10) @ [digit_char (n mod 10)]"
      by (simp add: to_string_nat_def nat_digits.simps [of n])
    with False 1 show ?thesis by (simp add: digits_value_snoc digit_char_code)
  qed
qed

lemma to_string_nat_digits: "list_all is_digit (to_string_nat n)"
  by (auto simp: to_string_nat_def list_all_iff is_digit_digit_char dest: nat_digits_small)

lemma to_string_nat_nonempty [simp]: "to_string_nat n \<noteq> []"
  by (simp add: to_string_nat_def)

lemma is_digit_facts:
  assumes "is_digit c"
  shows "not_space c" "c \<noteq> CHR ''-''" "c \<noteq> CHR ''+''" "c \<noteq> CHR '':''" "c \<noteq> CHR ''/''"
    "c \<noteq> CHR 0x09" "c \<noteq> CHR 0x0A" "c \<noteq> CHR 0x1E" "c \<noteq> CHR 0x1F"
  using assms by (auto simp: is_digit_def is_space_def)

lemma take_sign_digits: "s \<noteq> [] \<Longrightarrow> list_all is_digit s \<Longrightarrow> take_sign s = (False, s)"
  by (cases s) (auto dest: is_digit_facts)

lemma dropWhile_space_digits: "list_all is_digit s \<Longrightarrow> dropWhile is_space s = s"
  by (cases s) (auto dest: is_digit_facts)

lemma scan_number_to_string_nat [simp]: "scan_number (to_string_nat n) = Some (False, n)"
  using to_string_nat_digits [of n]
  by (simp add: scan_number_def dropWhile_space_digits take_sign_digits)

lemma scan_number_minus: "scan_number (CHR ''-'' # to_string_nat n) = Some (True, n)"
  using to_string_nat_digits [of n] by (simp add: scan_number_def is_space_def)

lemma stoul_to_string [simp, cxx_simps]: "stoul (to_string_u64 w) = Inr w"
proof -
  have "unat w < 2 ^ 64" using unsigned_less [of w, where 'a = nat] by simp
  then show ?thesis by (simp add: stoul_def to_string_u64_def)
qed

lemma stoi_to_string [simp, cxx_simps]:
  "- (2 ^ 31) \<le> i \<Longrightarrow> i < 2 ^ 31 \<Longrightarrow> stoi (to_string_int i) = Inr i"
  by (auto simp: stoi_def to_string_int_def scan_number_minus Let_def)

lemma set_to_string_u64:
  "c \<in> set (to_string_u64 w) \<Longrightarrow> is_digit c"
  using to_string_nat_digits [of "unat w"] by (simp add: to_string_u64_def list_all_iff)

end
