(* ===== verification/Tcp_Codec.thy ===== *)
theory Tcp_Codec
  imports Cornus_Prelude
begin

text \<open>
  The wire format of \<open>Cornus/include/messaging/tcp.hpp\<close>: requests with their parameters, the
  encoders of both sides and the decoders that look for a complete message in a receive buffer.
  Bytes are \<open>char\<close>s. The parameters are an \<open>std::unordered_map\<close>; the model keeps them as a list
  of pairs with distinct keys, in the container's iteration order, which is unspecified: the
  theorems hold for every order.
\<close>

section \<open>Requests and responses\<close>

abbreviation MAX_MESSAGE_SIZE :: nat where "MAX_MESSAGE_SIZE \<equiv> 512"
abbreviation HEADER_DELIM :: char where "HEADER_DELIM \<equiv> CHR 0x09"
abbreviation MESSAGE_END :: char where "MESSAGE_END \<equiv> CHR 0x0A"
abbreviation KEY_VALUE_DELIM :: char where "KEY_VALUE_DELIM \<equiv> CHR 0x1E"
abbreviation PAIR_DELIM :: char where "PAIR_DELIM \<equiv> CHR 0x1F"

type_synonym params = "(string \<times> string) list"

record tcp_request =
  endpoint :: string
  request :: string
  req_params :: params

record tcp_response =
  response :: string

definition TCP_OK :: tcp_response where
  "TCP_OK = \<lparr>response = ''OK''\<rparr>"

text \<open>\<open>params[key] = val\<close> and \<open>params.emplace(key, val)\<close>.\<close>

fun param_assign :: "string \<Rightarrow> string \<Rightarrow> params \<Rightarrow> params" where
  "param_assign k v [] = [(k, v)]"
| "param_assign k v ((k', v') # ps) =
     (if k = k' then (k, v) # ps else (k', v') # param_assign k v ps)"

definition param_emplace :: "string \<Rightarrow> string \<Rightarrow> params \<Rightarrow> params" where
  "param_emplace k v ps = (if k \<in> fst ` set ps then ps else ps @ [(k, v)])"

fun writeParams_from :: "string \<Rightarrow> params \<Rightarrow> string" where
  "writeParams_from req [] = req"
| "writeParams_from req ((param, val) # ps) =
     writeParams_from (req @ param @ [KEY_VALUE_DELIM] @ val @ [PAIR_DELIM]) ps"

definition writeParams :: "params \<Rightarrow> string" where
  "writeParams ps = writeParams_from '''' ps"

text \<open>One turn of the decoding loop: the key and the value of a pair.\<close>

definition split_pair :: "string \<Rightarrow> string \<times> string" where
  "split_pair pair =
     (case getline KEY_VALUE_DELIM pair of
        None \<Rightarrow> ('''', '''')
      | Some (key, rest) \<Rightarrow>
          (key, case getline KEY_VALUE_DELIM rest of None \<Rightarrow> '''' | Some (val, _) \<Rightarrow> val))"

function parse_params :: "string \<Rightarrow> params \<Rightarrow> params" where
  "parse_params s ps =
     (case getline PAIR_DELIM s of
        None \<Rightarrow> ps
      | Some (pair, rest) \<Rightarrow>
          if KEY_VALUE_DELIM \<notin> set pair then ps
          else parse_params rest (case split_pair pair of (key, val) \<Rightarrow> param_assign key val ps))"
  by pat_completeness auto
termination
  by (relation "measure (\<lambda>(s, ps). length s)") (auto dest: getline_shorter)

declare parse_params.simps [simp del]

text \<open>The constructors: from the text of a received request, and from parameters.\<close>

definition TCPRequest :: "string \<Rightarrow> string \<Rightarrow> tcp_request" where
  "TCPRequest ep req = \<lparr>endpoint = ep, request = req, req_params = parse_params req []\<rparr>"

definition TCPRequest_of_params :: "string \<Rightarrow> params \<Rightarrow> tcp_request" where
  "TCPRequest_of_params ep ps = \<lparr>endpoint = ep, request = writeParams ps, req_params = ps\<rparr>"

definition setParam :: "string \<Rightarrow> string \<Rightarrow> tcp_request \<Rightarrow> tcp_request" where
  "setParam param val req =
     (let ps = param_assign param val (req_params req)
      in req\<lparr>req_params := ps, request := writeParams ps\<rparr>)"

definition getParam :: "string \<Rightarrow> tcp_request \<Rightarrow> string result" where
  "getParam param req =
     (case map_of (req_params req) param of Some v \<Rightarrow> Inr v | None \<Rightarrow> Inl Assertion_failed)"

section \<open>Encoding and decoding of messages\<close>

definition encode_request :: "tcp_request \<Rightarrow> string option" where
  "encode_request req =
     (if length (endpoint req) + length (request req) + 2 \<ge> MAX_MESSAGE_SIZE then None
      else Some (endpoint req @ [HEADER_DELIM] @ request req @ [MESSAGE_END]))"

definition encode_response :: "tcp_response \<Rightarrow> string option" where
  "encode_response resp =
     (if length (response resp) + 1 \<ge> MAX_MESSAGE_SIZE then None
      else Some (response resp @ [MESSAGE_END]))"

text \<open>
  The server's scan records the last position of either delimiter. The length of the request text
  is computed in \<open>size_t\<close>, so it wraps when the header delimiter lies behind the message end; the
  \<open>std::string\<close> constructor throws \<open>length_error\<close> for a length above \<open>max_size()\<close>.
\<close>

fun scan_delims :: "string \<Rightarrow> nat \<Rightarrow> nat option \<Rightarrow> nat option \<Rightarrow> nat option \<times> nat option" where
  "scan_delims [] i header_delim message_end = (header_delim, message_end)"
| "scan_delims (c # cs) i header_delim message_end =
     scan_delims cs (Suc i)
       (if c = HEADER_DELIM then Some i else header_delim)
       (if c = MESSAGE_END then Some i else message_end)"

definition string_max_size :: nat where
  "string_max_size = 2 ^ 62 - 1"

definition size_t_diff :: "nat \<Rightarrow> nat \<Rightarrow> nat" where
  "size_t_diff a b = unat (word_of_nat a - word_of_nat b :: 64 word)"

definition getRequest :: "string \<Rightarrow> tcp_request option result" where
  "getRequest msg =
     (case scan_delims msg 0 None None of
        (Some h, Some e) \<Rightarrow>
          (let n = size_t_diff e (h + 1)
           in if string_max_size < n then Inl Length_error
              else Inr (Some (TCPRequest (take h msg) (take n (drop (h + 1) msg)))))
      | _ \<Rightarrow> Inr None)"

text \<open>The client's scan stops at the first message end.\<close>

fun decode_response_from :: "string \<Rightarrow> string \<Rightarrow> tcp_response option" where
  "decode_response_from seen [] = None"
| "decode_response_from seen (c # cs) =
     (if c = MESSAGE_END then Some \<lparr>response = seen\<rparr> else decode_response_from (seen @ [c]) cs)"

definition tryDecodeResponse :: "string \<Rightarrow> tcp_response option" where
  "tryDecodeResponse buf = decode_response_from '''' buf"

text \<open>\<open>TCPClient(hostnamecolonport)\<close>: the address in front of and behind the first colon.\<close>

definition client_address :: "string \<Rightarrow> (string \<times> int) result" where
  "client_address s =
     (let hostname = takeWhile (\<lambda>c. c \<noteq> CHR '':'') s;
          port_text = (if CHR '':'' \<in> set s then drop 1 (dropWhile (\<lambda>c. c \<noteq> CHR '':'') s) else s)
      in bind_result (stoi port_text) (\<lambda>port. Inr (hostname, port)))"

section \<open>Parameters survive the trip through the request text\<close>

definition clean_param :: "string \<times> string \<Rightarrow> bool" where
  "clean_param kv \<longleftrightarrow>
     KEY_VALUE_DELIM \<notin> set (fst kv) \<and> PAIR_DELIM \<notin> set (fst kv) \<and>
     KEY_VALUE_DELIM \<notin> set (snd kv) \<and> PAIR_DELIM \<notin> set (snd kv)"

lemma writeParams_from_eq:
  "writeParams_from req ps =
   req @ concat (map (\<lambda>(k, v). k @ [KEY_VALUE_DELIM] @ v @ [PAIR_DELIM]) ps)"
  by (induction req ps rule: writeParams_from.induct) simp_all

lemma writeParams_Nil [simp]: "writeParams [] = ''''"
  by (simp add: writeParams_def)

lemma writeParams_Cons:
  "writeParams ((k, v) # ps) = (k @ KEY_VALUE_DELIM # v) @ PAIR_DELIM # writeParams ps"
  by (simp add: writeParams_def writeParams_from_eq)

lemma split_pair_clean:
  "clean_param (k, v) \<Longrightarrow> split_pair (k @ KEY_VALUE_DELIM # v) = (k, v)"
  by (cases "v = []") (simp_all add: split_pair_def clean_param_def)

lemma param_assign_new: "k \<notin> fst ` set ps \<Longrightarrow> param_assign k v ps = ps @ [(k, v)]"
  by (induction k v ps rule: param_assign.induct) auto

lemma map_of_param_assign [simp]: "map_of (param_assign k v ps) = (map_of ps)(k \<mapsto> v)"
  by (induction k v ps rule: param_assign.induct) auto

lemma parse_params_writeParams:
  assumes "list_all clean_param ps" and "distinct (map fst acc @ map fst ps)"
  shows "parse_params (writeParams ps) acc = acc @ ps"
  using assms
proof (induction ps arbitrary: acc)
  case Nil
  then show ?case by (simp add: parse_params.simps)
next
  case (Cons kv ps)
  obtain k v where kv: "kv = (k, v)" by (cases kv)
  have clean: "clean_param (k, v)" and new: "k \<notin> fst ` set acc"
    using Cons.prems kv by auto
  have "getline PAIR_DELIM (writeParams (kv # ps)) = Some (k @ KEY_VALUE_DELIM # v, writeParams ps)"
    unfolding kv writeParams_Cons by (rule getline_delimited) (use clean in \<open>auto simp: clean_param_def\<close>)
  then have "parse_params (writeParams (kv # ps)) acc = parse_params (writeParams ps) (acc @ [(k, v)])"
    by (simp add: parse_params.simps [of "writeParams (kv # ps)"] split_pair_clean [OF clean]
        param_assign_new [OF new])
  also have "\<dots> = acc @ kv # ps"
    using Cons.IH [of "acc @ [(k, v)]"] Cons.prems kv by auto
  finally show ?case .
qed

lemma TCPRequest_of_params_reparse:
  assumes "list_all clean_param ps" and "distinct (map fst ps)"
  shows "TCPRequest ep (request (TCPRequest_of_params ep ps)) = TCPRequest_of_params ep ps"
  using parse_params_writeParams [OF assms(1), of "[]"] assms(2)
  by (simp add: TCPRequest_def TCPRequest_of_params_def)

lemma getParam_of_params [simp]:
  "getParam k (TCPRequest_of_params ep ps) =
   (case map_of ps k of Some v \<Rightarrow> Inr v | None \<Rightarrow> Inl Assertion_failed)"
  by (simp add: getParam_def TCPRequest_of_params_def)

text \<open>
  \<open>setParam\<close> behaves as a map update on what a receiver will read: the parameter set last is
  the one found, the others keep their values, and the text is rewritten to match.
\<close>

lemma setParam_getParam:
  "getParam k (setParam param val req) = (if k = param then Inr val else getParam k req) \<and>
   request (setParam param val req) = writeParams (req_params (setParam param val req))"
  by (simp add: setParam_def getParam_def Let_def)

section \<open>Finding a message in the receive buffer\<close>

definition clean_text :: "string \<Rightarrow> bool" where
  "clean_text s \<longleftrightarrow> HEADER_DELIM \<notin> set s \<and> MESSAGE_END \<notin> set s"

definition clean_request :: "tcp_request \<Rightarrow> bool" where
  "clean_request req \<longleftrightarrow> clean_text (endpoint req) \<and> clean_text (request req)"

lemma clean_text_simps [simp]:
  "clean_text []"
  "clean_text (c # s) \<longleftrightarrow> c \<noteq> HEADER_DELIM \<and> c \<noteq> MESSAGE_END \<and> clean_text s"
  "clean_text (s @ t) \<longleftrightarrow> clean_text s \<and> clean_text t"
  by (auto simp: clean_text_def)

lemma scan_delims_append:
  "scan_delims (xs @ ys) i h e =
   (case scan_delims xs i h e of (h', e') \<Rightarrow> scan_delims ys (i + length xs) h' e')"
  by (induction xs i h e rule: scan_delims.induct) simp_all

lemma scan_delims_clean [simp]: "clean_text xs \<Longrightarrow> scan_delims xs i h e = (h, e)"
  by (induction xs i h e rule: scan_delims.induct) simp_all

lemma scan_header:
  "fst (scan_delims xs i h e) = Some k \<Longrightarrow>
   h = Some k \<or> i \<le> k \<and> k < i + length xs \<and> xs ! (k - i) = HEADER_DELIM"
  by (induction xs i h e rule: scan_delims.induct) (auto simp: nth_Cons' split: if_splits)

lemma scan_end:
  "snd (scan_delims xs i h e) = Some k \<Longrightarrow>
   e = Some k \<or> i \<le> k \<and> k < i + length xs \<and> xs ! (k - i) = MESSAGE_END"
  by (induction xs i h e rule: scan_delims.induct) (auto simp: nth_Cons' split: if_splits)

lemma unat_word_of_nat_64: "n < 2 ^ 64 \<Longrightarrow> unat (word_of_nat n :: 64 word) = n"
  by (simp add: unsigned_of_nat take_bit_nat_eq_self)

lemma size_t_diff_eq:
  assumes "a < 2 ^ 64" and "b < 2 ^ 64"
  shows "size_t_diff a b = (if b \<le> a then a - b else a + 2 ^ 64 - b)"
  unfolding size_t_diff_def unat_sub_if' unat_word_of_nat_64 [OF assms(1)]
    unat_word_of_nat_64 [OF assms(2)]
  by simp

lemma size_t_diff_le: "b \<le> a \<Longrightarrow> a < 2 ^ 64 \<Longrightarrow> size_t_diff a b = a - b"
  by (simp add: size_t_diff_eq)

lemma size_t_diff_wraps: "a < b \<Longrightarrow> b < 2 ^ 62 \<Longrightarrow> string_max_size < size_t_diff a b"
  by (simp add: size_t_diff_eq string_max_size_def)

text \<open>The text of a frame, as both encoders write it.\<close>

definition frame :: "string \<Rightarrow> string \<Rightarrow> string" where
  "frame ep req = ep @ [HEADER_DELIM] @ req @ [MESSAGE_END]"

lemma encode_request_frame:
  "encode_request req = Some bytes \<longleftrightarrow>
   bytes = frame (endpoint req) (request req) \<and> length bytes < MAX_MESSAGE_SIZE"
  by (auto simp: encode_request_def frame_def)

lemma getRequest_scan:
  assumes "scan_delims msg 0 None None = (Some h, Some e)" and "h < e" and "length msg < 2 ^ 62"
  shows "getRequest msg = Inr (Some (TCPRequest (take h msg) (take (e - h - 1) (drop (h + 1) msg))))"
proof -
  have "e < length msg" using scan_end [of msg 0 None None e] assms(1) by simp
  then have "size_t_diff e (h + 1) = e - (h + 1)" using assms by (intro size_t_diff_le) simp_all
  moreover have "\<not> string_max_size < e - (h + 1)"
    using \<open>e < length msg\<close> assms(3) by (simp add: string_max_size_def)
  ultimately show ?thesis using assms(1) by (simp add: getRequest_def)
qed

lemma getRequest_overrun:
  assumes "scan_delims msg 0 None None = (Some h, Some e)" and "e < h" and "length msg < 2 ^ 62"
  shows "getRequest msg = Inl Length_error"
proof -
  have "h < length msg" using scan_header [of msg 0 None None h] assms(1) by simp
  then have "string_max_size < size_t_diff e (h + 1)"
    using assms by (intro size_t_diff_wraps) simp_all
  then show ?thesis using assms(1) by (simp add: getRequest_def)
qed

lemma getRequest_framed:
  assumes "clean_text req" and "length (pre @ frame ep req) < 2 ^ 62" and "clean_text ep"
  shows "getRequest (pre @ frame ep req) = Inr (Some (TCPRequest (pre @ ep) req))"
proof -
  obtain h e where "scan_delims pre 0 None None = (h, e)" by (cases "scan_delims pre 0 None None")
  then have "scan_delims (pre @ frame ep req) 0 None None =
      (Some (length (pre @ ep)), Some (length (pre @ ep) + 1 + length req))"
    using assms by (simp add: scan_delims_append frame_def)
  from getRequest_scan [OF this _ assms(2)] show ?thesis by (simp add: frame_def)
qed

lemma getRequest_no_end: "MESSAGE_END \<notin> set msg \<Longrightarrow> getRequest msg = Inr None"
proof -
  assume "MESSAGE_END \<notin> set msg"
  then have "snd (scan_delims msg 0 None None) = None"
    using scan_end [of msg 0 None None] by (metis minus_nat.diff_0 not_None_eq nth_mem add_0)
  then show ?thesis by (auto simp: getRequest_def split: prod.splits option.splits)
qed

lemma frame_prefix_no_end:
  assumes "frame ep req = p @ r" and "r \<noteq> []" and "clean_text ep" and "clean_text req"
  shows "MESSAGE_END \<notin> set p"
proof -
  have "p @ butlast r = butlast (frame ep req)" using assms(1,2) by (metis butlast_append)
  also have "\<dots> = ep @ [HEADER_DELIM] @ req" by (simp add: frame_def butlast_append)
  finally have "set p \<subseteq> set (ep @ [HEADER_DELIM] @ req)" by (metis Un_upper1 set_append)
  then show ?thesis using assms(3,4) by (auto simp: clean_text_def)
qed

lemma decode_response_from_end:
  "MESSAGE_END \<notin> set s \<Longrightarrow>
   decode_response_from seen (s @ MESSAGE_END # t) = Some \<lparr>response = seen @ s\<rparr>"
  by (induction s arbitrary: seen) auto

lemma decode_response_from_none: "MESSAGE_END \<notin> set s \<Longrightarrow> decode_response_from seen s = None"
  by (induction s arbitrary: seen) auto

section \<open>The contract of a framed stream\<close>

text \<open>
  Both directions of a connection rely on the same contract: the decoder finds a message exactly
  when the buffer holds all of it. It is stated once, for an encoder \<open>enc\<close>, a decoder \<open>dec\<close> and the
  value \<open>rd x\<close> that the peer reads when \<open>x\<close> was sent.
\<close>

locale framing =
  fixes enc :: "'a \<Rightarrow> string"
    and dec :: "string \<Rightarrow> 'b option result"
    and rd :: "'a \<Rightarrow> 'b"
    and good :: "'a \<Rightarrow> bool"
  assumes dec_complete: "good x \<Longrightarrow> dec (enc x) = Inr (Some (rd x))"
    and dec_incomplete: "good x \<Longrightarrow> enc x = p @ r \<Longrightarrow> r \<noteq> [] \<Longrightarrow> dec p = Inr None"
begin

lemma feed:
  "good x \<Longrightarrow> enc x = acc @ c @ rest \<Longrightarrow>
   dec (acc @ c) = Inr (if rest = [] then Some (rd x) else None)"
  using dec_complete [of x] dec_incomplete [of x "acc @ c" rest] by auto

lemma prefix_free: "good x \<Longrightarrow> good y \<Longrightarrow> enc x = enc y @ r \<Longrightarrow> r = []"
  using dec_complete [of y] dec_incomplete [of x "enc y" r] by auto

lemma enc_determines: "good x \<Longrightarrow> good y \<Longrightarrow> enc x = enc y \<Longrightarrow> rd x = rd y"
  using dec_complete [of x] dec_complete [of y] by simp

end

definition request_frame :: "tcp_request \<Rightarrow> string" where
  "request_frame req = frame (endpoint req) (request req)"

definition fits :: "tcp_request \<Rightarrow> bool" where
  "fits req \<longleftrightarrow> clean_request req \<and> length (request_frame req) < MAX_MESSAGE_SIZE"

definition received_request :: "tcp_request \<Rightarrow> tcp_request" where
  "received_request req = TCPRequest (endpoint req) (request req)"

definition response_frame :: "tcp_response \<Rightarrow> string" where
  "response_frame resp = response resp @ [MESSAGE_END]"

definition clean_response :: "tcp_response \<Rightarrow> bool" where
  "clean_response resp \<longleftrightarrow> MESSAGE_END \<notin> set (response resp)"

interpretation request_framing: framing request_frame getRequest received_request fits
proof unfold_locales
  fix req :: tcp_request assume "fits req"
  then show "getRequest (request_frame req) = Inr (Some (received_request req))"
    using getRequest_framed [of "request req" "[]" "endpoint req"]
    by (simp add: fits_def clean_request_def request_frame_def received_request_def)
next
  fix req p r assume "fits req" and "request_frame req = p @ r" and "r \<noteq> []"
  then show "getRequest p = Inr None"
    using frame_prefix_no_end [of "endpoint req" "request req" p r]
    by (simp add: fits_def clean_request_def request_frame_def getRequest_no_end)
qed

interpretation response_framing:
  framing response_frame "\<lambda>buf. Inr (tryDecodeResponse buf)" "\<lambda>resp. resp" clean_response
proof unfold_locales
  fix resp :: tcp_response assume "clean_response resp"
  then show "Inr (tryDecodeResponse (response_frame resp)) = (Inr (Some resp) :: _ result)"
    by (simp add: tryDecodeResponse_def response_frame_def clean_response_def
        decode_response_from_end)
next
  fix resp :: tcp_response and p r
  assume c: "clean_response resp" and e: "response_frame resp = p @ r" and "r \<noteq> []"
  have "p @ butlast r = response resp" using e \<open>r \<noteq> []\<close>
    by (metis butlast_append butlast_snoc response_frame_def)
  then have "set p \<subseteq> set (response resp)" by (metis Un_upper1 set_append)
  then show "Inr (tryDecodeResponse p) = (Inr None :: _ result)"
    using c by (auto simp: tryDecodeResponse_def clean_response_def intro: decode_response_from_none)
qed

lemma encode_request_fits: "fits req \<Longrightarrow> encode_request req = Some (request_frame req)"
  by (simp add: fits_def encode_request_frame request_frame_def)

lemma encode_response_frame:
  "encode_response resp = Some bytes \<Longrightarrow> bytes = response_frame resp"
  by (simp add: encode_response_def response_frame_def split: if_splits)

section \<open>Properties of the wire format\<close>

definition wire_params :: "params \<Rightarrow> bool" where
  "wire_params ps \<longleftrightarrow> distinct (map fst ps) \<and> list_all clean_param ps \<and>
     list_all (\<lambda>(k, v). clean_text k \<and> clean_text v) ps"

lemma clean_text_writeParams: "wire_params ps \<Longrightarrow> clean_text (writeParams ps)"
  by (induction ps) (auto simp: wire_params_def writeParams_Cons)

lemma wire_roundtrip:
  assumes "wire_params ps" and "clean_text ep"
    and "encode_request (TCPRequest_of_params ep ps) = Some bytes"
  shows "getRequest bytes = Inr (Some (TCPRequest_of_params ep ps))"
proof -
  let ?req = "TCPRequest_of_params ep ps"
  have fits: "fits ?req"
    using assms clean_text_writeParams [OF assms(1)]
    by (auto simp: fits_def clean_request_def encode_request_frame request_frame_def
        TCPRequest_of_params_def)
  then have "bytes = request_frame ?req" using assms(3) encode_request_fits by simp
  moreover have "received_request ?req = ?req"
    using assms(1) TCPRequest_of_params_reparse [of ps ep]
    by (simp add: received_request_def wire_params_def TCPRequest_of_params_def)
  ultimately show ?thesis using request_framing.dec_complete [OF fits] by simp
qed

text \<open>
  C30: what a node sends is what the other node reads. A request built from parameters without
  delimiter bytes, encoded by the client, is decoded by the server to the same request, with the
  same endpoint, text and parameters, whatever order the parameter map iterates in.
\<close>

theorem request_wire_roundtrip:
  assumes "wire_params ps" and "clean_text ep"
    and "encode_request (TCPRequest_of_params ep ps) = Some bytes"
  shows "getRequest bytes = Inr (Some (TCPRequest_of_params ep ps))"
  using assms by (rule wire_roundtrip)

theorem request_wire_roundtrip_witness:
  "\<exists>bytes. encode_request (TCPRequest_of_params ''ABORT'' [(''txid'', ''7''), (''sender'', ''b:2'')]) = Some bytes \<and>
     getRequest bytes = Inr (Some (TCPRequest_of_params ''ABORT'' [(''txid'', ''7''), (''sender'', ''b:2'')]))"
proof -
  let ?ps = "[(''txid'', ''7''), (''sender'', ''b:2'')]"
  have "encode_request (TCPRequest_of_params ''ABORT'' ?ps) =
      Some (request_frame (TCPRequest_of_params ''ABORT'' ?ps))"
    by (simp add: encode_request_def TCPRequest_of_params_def request_frame_def frame_def writeParams_def)
  moreover from this have "getRequest (request_frame (TCPRequest_of_params ''ABORT'' ?ps)) =
      Inr (Some (TCPRequest_of_params ''ABORT'' ?ps))"
    by (intro request_wire_roundtrip) (simp_all add: wire_params_def clean_param_def)
  ultimately show ?thesis by blast
qed

text \<open>
  C38: the server's scan remembers the last delimiters of the whole buffer, so it handles one
  request per receive only. When two complete requests are in the buffer at once they are merged:
  the decoded request has the first request's bytes inside its endpoint, so no callback matches and
  both requests are lost.
\<close>

theorem getRequest_merges_pipelined:
  assumes "fits r1" and "fits r2"
  shows "getRequest (request_frame r1 @ request_frame r2) =
    Inr (Some (TCPRequest (request_frame r1 @ endpoint r2) (request r2)))"
  using assms getRequest_framed [of "request r2" "request_frame r1" "endpoint r2"]
  by (simp add: fits_def clean_request_def request_frame_def)

text \<open>
  When the buffer holds a complete request followed by the beginning of the next one, up to
  and including its header delimiter, the computed text length underflows and the decoder throws
  \<open>length_error\<close>, which nothing on the connection thread catches.
\<close>

lemma getRequest_partial_second_throws:
  assumes "fits r1" and "clean_text ep" and "clean_text part"
    and "length (request_frame r1 @ ep @ [HEADER_DELIM] @ part) \<le> MAX_MESSAGE_SIZE"
  shows "getRequest (request_frame r1 @ ep @ [HEADER_DELIM] @ part) = Inl Length_error"
proof -
  let ?h = "length (request_frame r1) + length ep" and ?e = "length (request_frame r1) - 1"
  have "scan_delims (request_frame r1 @ ep @ [HEADER_DELIM] @ part) 0 None None = (Some ?h, Some ?e)"
    using assms by (simp add: scan_delims_append fits_def clean_request_def request_frame_def frame_def)
  moreover have "?e < ?h" by (simp add: request_frame_def frame_def)
  ultimately show ?thesis using assms(4) by (intro getRequest_overrun) simp_all
qed

definition sample_vote :: tcp_request where
  "sample_vote = \<lparr>endpoint = ''VOTEYES'', request = ''x'', req_params = []\<rparr>"

lemma sample_vote_fits [simp]: "fits sample_vote"
  by (simp add: sample_vote_def fits_def clean_request_def request_frame_def frame_def)

theorem getRequest_merges_pipelined_witness:
  "getRequest (request_frame sample_vote @ request_frame sample_vote) =
   Inr (Some (TCPRequest (request_frame sample_vote @ ''VOTEYES'') ''x''))"
  using getRequest_merges_pipelined [OF sample_vote_fits sample_vote_fits]
  by (simp add: sample_vote_def)


text \<open>
  Whatever bytes are in the buffer, a request that is found lies inside it: the number of bytes
  that the server then removes (endpoint, text and the two delimiters) never exceeds the fill level.
\<close>

lemma getRequest_consumes:
  assumes "getRequest msg = Inr (Some req)" and "length msg < 2 ^ 62"
  shows "length (endpoint req) + length (request req) + 2 \<le> length msg"
proof -
  obtain h e where scan: "scan_delims msg 0 None None = (Some h, Some e)"
    using assms(1) by (auto simp: getRequest_def split: prod.splits option.splits)
  have h: "h < length msg" "msg ! h = HEADER_DELIM" and e: "e < length msg" "msg ! e = MESSAGE_END"
    using scan_header [of msg 0 None None h] scan_end [of msg 0 None None e] scan by auto
  have "h < e"
  proof (rule ccontr)
    assume "\<not> h < e"
    moreover have "h \<noteq> e" using h e by auto
    ultimately show False using getRequest_overrun [OF scan _ assms(2)] assms(1) by simp
  qed
  from getRequest_scan [OF scan this assms(2)] assms(1) e(1) \<open>h < e\<close> show ?thesis
    by (auto simp: TCPRequest_def min_def)
qed

end
