(* ===== verification/Json_Value.thy ===== *)
theory Json_Value
  imports Cornus_Prelude
begin

text \<open>
  The values of the bundled JSON library (\<open>Cornus/include/lib/json.hpp\<close>): the document tree, the
  lookups and conversions that the configuration of a node makes, and the binary floating-point
  numbers with \<open>std::strtod\<close>, which the lexer of the library calls.
\<close>

section \<open>Floating-point numbers\<close>

text \<open>
  A \<open>double\<close> by its sign, its integral significand below \<open>2 ^ 53 + 1\<close> and its exponent: the value of
  \<open>Finite neg m e\<close> is \<open>m * 2 ^ e\<close>, negated when \<open>neg\<close>. \<open>NaN\<close> does not occur.
\<close>

datatype double = Finite bool nat int | Infinite bool

fun isfinite :: "double \<Rightarrow> bool" where
  "isfinite (Finite neg m e) = True"
| "isfinite (Infinite neg) = False"

text \<open>Conversion to an integer truncates towards zero; it is undefined for infinite values.\<close>

fun trunc_double :: "double \<Rightarrow> int option" where
  "trunc_double (Finite neg m e) =
     (let t = (if 0 \<le> e then m * 2 ^ nat e else m div 2 ^ nat (- e)) in Some (if neg then - int t else int t))"
| "trunc_double (Infinite neg) = None"

fun bit_length :: "nat \<Rightarrow> nat" where
  "bit_length n = (if n = 0 then 0 else Suc (bit_length (n div 2)))"

declare bit_length.simps [simp del]

definition round_half_even :: "nat \<Rightarrow> nat \<Rightarrow> nat" where
  "round_half_even n d =
     (if 2 * (n mod d) < d \<or> 2 * (n mod d) = d \<and> even (n div d) then n div d else n div d + 1)"

text \<open>The fraction \<open>n / (d * 2 ^ e)\<close> as a numerator and a denominator.\<close>

definition scale_numerator :: "nat \<Rightarrow> int \<Rightarrow> nat" where
  "scale_numerator n e = n * 2 ^ nat (- e)"

definition scale_denominator :: "nat \<Rightarrow> int \<Rightarrow> nat" where
  "scale_denominator d e = d * 2 ^ nat e"

text \<open>
  The exponent of the last place of the double nearest to \<open>n / d\<close>: the significand gets 53 bits unless
  that takes it below the smallest exponent.
\<close>

definition last_place :: "nat \<Rightarrow> nat \<Rightarrow> int" where
  "last_place n d =
     (let e = max (int (bit_length n) - int (bit_length d) - 53) (- 1074)
      in if scale_numerator n e < scale_denominator d e * 2 ^ 53 then e else e + 1)"

definition nearest_double :: "bool \<Rightarrow> nat \<Rightarrow> nat \<Rightarrow> double" where
  "nearest_double neg n d =
     (let e = last_place n d; m = round_half_even (scale_numerator n e) (scale_denominator d e)
      in if 0 \<le> e \<and> 2 ^ 1024 \<le> m * 2 ^ nat e then Infinite neg else Finite neg m e)"

text \<open>
  The C library's \<open>std::strtod\<close>, which the lexer calls on the text of a number (\<open>lexer::strtof\<close> is one line),
  as the standard has it: an optional sign, digits, a fraction and an exponent. The result is the nearest \<open>double\<close>, and infinite when that is out of range.
\<close>

definition decimal_fraction :: "string \<Rightarrow> string" where
  "decimal_fraction s = (if s \<noteq> [] \<and> hd s = CHR ''.'' then takeWhile is_digit (tl s) else [])"

definition decimal_exponent :: "string \<Rightarrow> int" where
  "decimal_exponent s =
     (if s \<noteq> [] \<and> hd s \<in> {CHR ''e'', CHR ''E''}
      then (case take_sign (tl s) of (neg, ds) \<Rightarrow>
              let v = int (digits_value (takeWhile is_digit ds)) in if neg then - v else v)
      else 0)"

definition strtod :: "string \<Rightarrow> double" where
  "strtod s =
     (let (neg, s1) = take_sign s;
          whole = takeWhile is_digit s1;
          s2 = dropWhile is_digit s1;
          frac = decimal_fraction s2;
          s3 = (if s2 \<noteq> [] \<and> hd s2 = CHR ''.'' then dropWhile is_digit (tl s2) else s2);
          e = decimal_exponent s3 - int (length frac)
      in nearest_double neg (digits_value (whole @ frac) * 10 ^ nat e) (10 ^ nat (- e)))"

section \<open>The document\<close>

datatype json =
    JNull
  | JBool bool
  | JInteger int          \<comment> \<open>\<open>number_integer\<close>: a negative literal\<close>
  | JUnsigned nat         \<comment> \<open>\<open>number_unsigned\<close>\<close>
  | JFloat double         \<comment> \<open>\<open>number_float\<close>\<close>
  | JString string
  | JArray "json list"
  | JObject "(string \<times> json) list"      \<comment> \<open>a \<open>std::map\<close>: in ascending order of the keys\<close>

text \<open>\<open>operator[]\<close> with a key: a missing key (and a null document) gives null.\<close>

definition json_at :: "json \<Rightarrow> string \<Rightarrow> json result" where
  "json_at j k = (case j of
       JNull \<Rightarrow> Inr JNull
     | JObject kvs \<Rightarrow> Inr (case map_of kvs k of None \<Rightarrow> JNull | Some v \<Rightarrow> v)
     | _ \<Rightarrow> Inl Json_type_error)"

text \<open>Range-based iteration: arrays and objects by element, null not at all, a scalar once.\<close>

definition json_elements :: "json \<Rightarrow> json list" where
  "json_elements j = (case j of
       JNull \<Rightarrow> []
     | JArray js \<Rightarrow> js
     | JObject kvs \<Rightarrow> map snd kvs
     | _ \<Rightarrow> [j])"

definition get_string :: "json \<Rightarrow> string result" where
  "get_string j = (case j of JString s \<Rightarrow> Inr s | _ \<Rightarrow> Inl Json_type_error)"

definition get_u64 :: "json \<Rightarrow> 64 word result" where
  "get_u64 j = (case j of
       JUnsigned n \<Rightarrow> Inr (word_of_nat n)
     | JInteger i \<Rightarrow> Inr (word_of_int i)
     | JFloat x \<Rightarrow>
         (case trunc_double x of
            Some i \<Rightarrow> if 0 \<le> i \<and> i < 2 ^ 64 then Inr (word_of_int i) else Inl Undefined_behaviour
          | None \<Rightarrow> Inl Undefined_behaviour)
     | _ \<Rightarrow> Inl Json_type_error)"

definition get_int :: "json \<Rightarrow> int result" where
  "get_int j = (case j of
       JUnsigned n \<Rightarrow> Inr (sint (word_of_nat n :: 32 word))
     | JInteger i \<Rightarrow> Inr (sint (word_of_int i :: 32 word))
     | JFloat x \<Rightarrow>
         (case trunc_double x of
            Some i \<Rightarrow> if - (2 ^ 31) \<le> i \<and> i < 2 ^ 31 then Inr i else Inl Undefined_behaviour
          | None \<Rightarrow> Inl Undefined_behaviour)
     | JBool b \<Rightarrow> Inr (if b then 1 else 0)
     | _ \<Rightarrow> Inl Json_type_error)"

section \<open>How exact the conversion of decimals is\<close>

lemma round_half_even_near:
  assumes "0 < d"
  shows "2 * (round_half_even n d * d) \<le> 2 * n + d" and "2 * n \<le> 2 * (round_half_even n d * d) + d"
proof -
  define q r where "q = n div d" and "r = n mod d"
  have n: "n = q * d + r" and r: "r < d" using assms by (simp_all add: q_def r_def)
  have m: "round_half_even n d = q \<and> 2 * r \<le> d \<or> round_half_even n d = q + 1 \<and> d \<le> 2 * r"
    by (auto simp: round_half_even_def q_def r_def)
  then show "2 * (round_half_even n d * d) \<le> 2 * n + d" and "2 * n \<le> 2 * (round_half_even n d * d) + d"
    using n r by (auto simp: distrib_right)
qed

lemma round_half_even_le:
  assumes "0 < d" and "n \<le> k * d"
  shows "round_half_even n d \<le> k"
proof -
  have "n div d \<le> k" using div_le_mono [OF assms(2), of d] assms(1) by simp
  moreover have "n mod d = 0" if "n div d = k"
    using that assms div_mult_mod_eq [of n d] by (metis add_le_same_cancel1 le_zero_eq)
  ultimately show ?thesis
    using assms(1) by (cases "n div d = k") (simp_all add: round_half_even_def)
qed

lemma round_half_even_exact: "0 < d \<Longrightarrow> round_half_even (k * d) d = k"
  by (simp add: round_half_even_def)

lemma bit_length_upper: "n < 2 ^ bit_length n"
proof (induction n rule: bit_length.induct)
  case (1 n)
  then show ?case by (cases "n = 0") (auto simp: bit_length.simps [of n])
qed

lemma bit_length_lower: "0 < n \<Longrightarrow> 2 ^ bit_length n \<le> 2 * n"
proof (induction n rule: bit_length.induct)
  case (1 n)
  show ?case
  proof (cases "n div 2 = 0")
    case True
    with "1.prems" have "n = 1" by auto
    then show ?thesis by (simp add: bit_length.simps)
  next
    case False
    with 1 have "2 ^ bit_length (n div 2) \<le> 2 * (n div 2)" by simp
    also have "\<dots> \<le> n" by simp
    finally show ?thesis using "1.prems" by (simp add: bit_length.simps [of n])
  qed
qed

text \<open>The position of the last place leaves at most 53 bits.\<close>

lemma scaled_below:
  assumes "0 < d" and "int (bit_length n) - int (bit_length d) \<le> e + int k - 1" and "1 \<le> k"
  shows "scale_numerator n e < scale_denominator d e * 2 ^ k"
proof -
  let ?a = "nat (- e)" and ?b = "nat e"
  have "n * 2 ^ ?a * 2 < 2 ^ (bit_length n + ?a + 1)"
    using bit_length_upper [of n] by (simp add: power_add)
  also have "\<dots> \<le> 2 ^ (bit_length d + ?b + k)"
    by (rule power_increasing) (use assms(2) in auto)
  also have "\<dots> \<le> 2 * d * 2 ^ ?b * 2 ^ k"
    using bit_length_lower [OF assms(1)] by (simp add: power_add)
  finally show ?thesis by (simp add: scale_numerator_def scale_denominator_def mult_ac)
qed

lemma last_place_fits:
  assumes "0 < d"
  shows "scale_numerator n (last_place n d) < scale_denominator d (last_place n d) * 2 ^ 53"
    and "- 1074 \<le> last_place n d"
proof -
  let ?l = "int (bit_length n) - int (bit_length d)"
  let ?e = "max (?l - 53) (- 1074)"
  have "scale_numerator n (?e + 1) < scale_denominator d (?e + 1) * 2 ^ 53"
    by (rule scaled_below [OF assms]) auto
  then show "scale_numerator n (last_place n d) < scale_denominator d (last_place n d) * 2 ^ 53"
    by (simp add: last_place_def Let_def)
  show "- 1074 \<le> last_place n d" by (auto simp: last_place_def Let_def)
qed

text \<open>A finite \<open>double\<close> of the representation that the conversion gives.\<close>

fun wf_double :: "double \<Rightarrow> bool" where
  "wf_double (Finite neg m e) \<longleftrightarrow> m \<le> 2 ^ 53 \<and> - 1074 \<le> e \<and> m * 2 ^ nat e < 2 ^ 1024"
| "wf_double (Infinite neg) \<longleftrightarrow> False"

lemma nearest_double_wf:
  assumes "0 < d" and "isfinite (nearest_double neg n d)"
  shows "wf_double (nearest_double neg n d)"
proof -
  let ?e = "last_place n d"
  let ?m = "round_half_even (scale_numerator n ?e) (scale_denominator d ?e)"
  have "0 < scale_denominator d ?e" using assms(1) by (simp add: scale_denominator_def)
  then have m: "?m \<le> 2 ^ 53"
    by (rule round_half_even_le) (use last_place_fits(1) [OF assms(1), of n] in \<open>simp add: mult.commute\<close>)
  have "?m * 2 ^ nat ?e < 2 ^ 1024" if "?e < 0"
    using that m order_le_less_trans [of ?m "2 ^ 53" "2 ^ 1024"] by simp
  with assms(2) m last_place_fits(2) [OF assms(1), of n] show ?thesis
    by (auto simp: nearest_double_def Let_def split: if_splits)
qed

lemma strtod_wf: "isfinite (strtod s) \<Longrightarrow> wf_double (strtod s)"
  unfolding strtod_def Let_def by (cases "take_sign s") (simp only: prod.case, rule nearest_double_wf, simp_all)

text \<open>
  A finite result keeps the sign and differs from the fraction by at most half a unit in its last
  place, its significand has at most 53 bits (up to the carry to \<open>2 ^ 53\<close>) and its exponent is not
  below that of the smallest \<open>double\<close>.
\<close>

lemma nearest_double_bounds:
  assumes "nearest_double neg n d = Finite s m e" and "0 < d"
  shows "s = neg \<and> m \<le> 2 ^ 53 \<and> - 1074 \<le> e \<and>
    2 * (m * scale_denominator d e) \<le> 2 * scale_numerator n e + scale_denominator d e \<and>
    2 * scale_numerator n e \<le> 2 * (m * scale_denominator d e) + scale_denominator d e"
proof -
  have e: "e = last_place n d" "s = neg"
    and m: "m = round_half_even (scale_numerator n e) (scale_denominator d e)"
    using assms(1) by (auto simp: nearest_double_def Let_def split: if_splits)
  have d: "0 < scale_denominator d e" using assms(2) by (simp add: scale_denominator_def)
  have "m \<le> 2 ^ 53"
    unfolding m by (rule round_half_even_le [OF d])
      (use last_place_fits(1) [OF assms(2), of n] e in \<open>simp add: mult.commute\<close>)
  with round_half_even_near [OF d, of "scale_numerator n e"] last_place_fits(2) [OF assms(2), of n] e m
  show ?thesis by simp
qed

end
