(* ===== verification/Node_Config.thy ===== *)
theory Node_Config
  imports Json_Value
begin

text \<open>
  The configuration of transactions and of nodes (\<open>Cornus/include/config\<close>):
  \<open>TransactionConfig\<close> with its text form, which travels inside requests, and \<open>HostConfig\<close>,
  read from a parsed JSON document, with the choice of the \<open>f\<close> replicators of a node. The
  document tree and its lookups are those of \<open>Json_Value\<close>; \<open>Json_Lexer\<close> and \<open>Json_Parser\<close> read it
  from the text of the file.
\<close>

section \<open>\<open>TransactionConfig\<close>\<close>

record transaction_config =
  coordinator :: host
  participants :: "host list"
  txid :: transaction_id

text \<open>
  The constructor reads the coordinator and then every further word as a participant. When the
  first extraction fails the stream stays failed, so no participant is read either.
\<close>

definition TransactionConfig :: "string \<Rightarrow> transaction_id \<Rightarrow> transaction_config" where
  "TransactionConfig input i =
     (case extract_word input of
        None \<Rightarrow> \<lparr>coordinator = '''', participants = [], txid = i\<rparr>
      | Some (c, rest) \<Rightarrow> \<lparr>coordinator = c, participants = extract_words rest, txid = i\<rparr>)"

fun append_participants :: "string \<Rightarrow> host list \<Rightarrow> string" where
  "append_participants tmp [] = tmp"
| "append_participants tmp (p # ps) = append_participants (tmp @ p @ '' '') ps"

definition config_to_string :: "transaction_config \<Rightarrow> string" where
  "config_to_string cfg = append_participants (coordinator cfg @ '' '') (participants cfg)"

definition wf_config :: "transaction_config \<Rightarrow> bool" where
  "wf_config cfg \<longleftrightarrow>
     (coordinator cfg = '''' \<and> participants cfg = [] \<or> is_word (coordinator cfg)) \<and>
     list_all is_word (participants cfg)"

lemma append_participants_eq:
  "append_participants tmp ps = tmp @ concat (map (\<lambda>p. p @ '' '') ps)"
  by (induction ps arbitrary: tmp) simp_all

lemma extract_word_blank [simp]: "extract_word '' '' = None"
  by (simp add: extract_word_def)

lemma wf_config_TransactionConfig: "wf_config (TransactionConfig input i)"
  by (auto simp: wf_config_def TransactionConfig_def list_all_iff split: option.split
      dest: extract_word_is_word extract_words_are_words)

lemma TransactionConfig_to_string:
  assumes "wf_config cfg"
  shows "TransactionConfig (config_to_string cfg) (txid cfg) = cfg"
proof (cases "is_word (coordinator cfg)")
  case True
  have ps: "list_all is_word (participants cfg)" using assms by (simp add: wf_config_def)
  let ?rest = "concat (map (\<lambda>p. p @ '' '') (participants cfg))"
  have "extract_word (coordinator cfg @ CHR '' '' # ?rest) = Some (coordinator cfg, CHR '' '' # ?rest)"
    by (rule extract_word_delimited) (use True in simp_all)
  then show ?thesis
    using extract_words_joined [OF ps]
    by (simp add: TransactionConfig_def config_to_string_def append_participants_eq
        extract_words_skip)
next
  case False
  then have "coordinator cfg = ''''" and "participants cfg = []"
    using assms by (auto simp: wf_config_def)
  then show ?thesis
    by (simp add: TransactionConfig_def config_to_string_def)
qed

text \<open>
  C34: the text form is lossless on every configuration a node can hold. A node only ever gets a
  configuration by parsing text, and sending it on (\<open>to_string\<close>) and parsing it again gives
  the same coordinator and the same participants in the same order, whatever the input text was.
\<close>

theorem config_reparse:
  "TransactionConfig (config_to_string (TransactionConfig input i)) i = TransactionConfig input i"
proof -
  have "txid (TransactionConfig input i) = i"
    by (simp add: TransactionConfig_def split: option.split)
  then show ?thesis
    using TransactionConfig_to_string [OF wf_config_TransactionConfig [of input i]] by simp
qed

section \<open>\<open>HostConfig\<close>\<close>

record host_config =
  hc_id :: host
  hc_allOthers :: "host list"
  hc_dbmsAddress :: host
  hc_hostNum :: "64 word"
  hc_port :: int
  hc_host :: string
  hc_timeout :: nat          \<comment> \<open>milliseconds, 0 for a negative number of them\<close>
  hc_f :: "64 word"
  hc_replicators :: "host list"

text \<open>
  The three loops that choose the replicators, over the sorted list of the other nodes: skip the
  nodes below this node's own id, take the next ones up to the end, then wrap around to the
  start. Hosts are compared as \<open>std::string\<close>, byte by byte. The last loop reads the vector without
  a bounds check.
\<close>

function skip_smaller :: "host list \<Rightarrow> host \<Rightarrow> nat \<Rightarrow> nat" where
  "skip_smaller others own i =
     (if i < length others \<and> others ! i < own then skip_smaller others own (Suc i) else i)"
  by pat_completeness auto
termination
  by (relation "measure (\<lambda>(others, own, i). length others - i)") auto

function push_upto_end ::
  "host list \<Rightarrow> nat \<Rightarrow> int \<Rightarrow> host list \<Rightarrow> int \<times> host list" where
  "push_upto_end others i count reps =
     (if i < length others \<and> 0 < count
      then push_upto_end others (Suc i) (count - 1) (reps @ [others ! i])
      else (count, reps))"
  by pat_completeness auto
termination
  by (relation "measure (\<lambda>(others, i, count, reps). length others - i)") auto

function push_wrapped ::
  "host list \<Rightarrow> nat \<Rightarrow> int \<Rightarrow> host list \<Rightarrow> host list result" where
  "push_wrapped others i count reps =
     (if 0 < count
      then if i < length others
           then push_wrapped others (Suc i) (count - 1) (reps @ [others ! i])
           else Inl Undefined_behaviour
      else Inr reps)"
  by pat_completeness auto
termination
  by (relation "measure (\<lambda>(others, i, count, reps). nat count)") auto

declare skip_smaller.simps [simp del] push_upto_end.simps [simp del] push_wrapped.simps [simp del]

text \<open>\<open>int count = f\<close> narrows the \<open>size_t\<close> to 32 bits.\<close>

definition choose_replicators :: "host list \<Rightarrow> host \<Rightarrow> 64 word \<Rightarrow> host list result" where
  "choose_replicators allOthers own f =
     (if length allOthers < unat f then Inl Assertion_failed
      else
        (let others = sort allOthers;
             i = skip_smaller others own 0;
             (count, reps) = push_upto_end others i (sint (ucast f :: 32 word)) []
         in push_wrapped others 0 count reps))"

fun read_others :: "json list \<Rightarrow> host list result" where
  "read_others [] = Inr []"
| "read_others (j # js) =
     bind_result (json_at j ''host_id'') (\<lambda>v. bind_result (get_string v) (\<lambda>h.
     bind_result (read_others js) (\<lambda>hs. Inr (h # hs))))"

text \<open>
  The constructor. The time-out is read as an unsigned number and converted to the signed count of
  \<open>std::chrono::milliseconds\<close>; a negative one puts the deadline of every wait into the past, as 0 does
  by the time a handler waits.
\<close>

definition HostConfig :: "json \<Rightarrow> host_config result" where
  "HostConfig data =
     bind_result (bind_result (json_at data ''host'') get_string) (\<lambda>host.
     bind_result (bind_result (json_at data ''others'') (\<lambda>j. read_others (json_elements j))) (\<lambda>allOthers.
     bind_result (bind_result (json_at data ''dbms_address'') get_string) (\<lambda>dbmsAddress.
     bind_result (bind_result (json_at data ''host_num'') get_u64) (\<lambda>hostNum.
     bind_result (bind_result (json_at data ''port'') get_int) (\<lambda>port.
     bind_result (bind_result (json_at data ''timeout_millis'') get_u64) (\<lambda>timeout.
     bind_result (bind_result (json_at data ''f'') get_u64) (\<lambda>f.
       let own = host @ '':'' @ to_string_int port in
       bind_result (choose_replicators allOthers own f) (\<lambda>reps.
         Inr \<lparr>hc_id = own, hc_allOthers = sort allOthers, hc_dbmsAddress = dbmsAddress,
              hc_hostNum = hostNum, hc_port = port, hc_host = host, hc_timeout = nat (sint timeout),
              hc_f = f, hc_replicators = reps\<rparr>))))))))"

subsection \<open>The replicators are the next \<open>f\<close> nodes around the ring\<close>

lemma skip_smaller_eq:
  "i \<le> length others \<Longrightarrow>
   skip_smaller others own i = i + length (takeWhile (\<lambda>h. h < own) (drop i others))"
proof (induction others own i rule: skip_smaller.induct)
  case (1 others own i)
  show ?case
  proof (cases "i < length others \<and> others ! i < own")
    case True
    then show ?thesis
      using 1 by (simp add: skip_smaller.simps [of others own i] Cons_nth_drop_Suc [symmetric])
  next
    case False
    show ?thesis
    proof (cases "i < length others")
      case True
      with False have "\<not> others ! i < own" by simp
      with True show ?thesis
        by (simp add: skip_smaller.simps [of others own i] Cons_nth_drop_Suc [symmetric])
    next
      case False
      then show ?thesis by (simp add: skip_smaller.simps [of others own i])
    qed
  qed
qed

lemma push_upto_end_eq:
  "0 \<le> count \<Longrightarrow>
   push_upto_end others i count reps =
     (int (nat count - (length others - i)), reps @ take (nat count) (drop i others))"
proof (induction others i count reps rule: push_upto_end.induct)
  case (1 others i count reps)
  show ?case
  proof (cases "i < length others \<and> 0 < count")
    case True
    then have "nat count = Suc (nat (count - 1))"
      and "length others - i = Suc (length others - Suc i)" by arith+
    with True show ?thesis
      using 1 by (simp add: push_upto_end.simps [of others i count reps]
          Cons_nth_drop_Suc [symmetric])
  next
    case False
    then show ?thesis
      using "1.prems" by (auto simp: push_upto_end.simps [of others i count reps])
  qed
qed

lemma push_wrapped_eq:
  "i + nat count \<le> length others \<Longrightarrow>
   push_wrapped others i count reps = Inr (reps @ take (nat count) (drop i others))"
proof (induction others i count reps rule: push_wrapped.induct)
  case (1 others i count reps)
  show ?case
  proof (cases "0 < count")
    case True
    then have n: "nat count = Suc (nat (count - 1))" by arith
    with "1.prems" have "i < length others" by simp
    with True n show ?thesis
      using 1 by (simp add: push_wrapped.simps [of others i count reps]
          Cons_nth_drop_Suc [symmetric])
  next
    case False
    then show ?thesis by (simp add: push_wrapped.simps [of others i count reps])
  qed
qed

lemma count_of_f:
  assumes "unat (f :: 64 word) < 2 ^ 31"
  shows "sint (ucast f :: 32 word) = int (unat f)"
proof -
  have "int (unat f) < int (2 ^ 31)" using assms by (simp only: of_nat_less_iff)
  then have lt: "uint f < 2 ^ 31" by simp
  have u: "uint (ucast f :: 32 word) = uint f"
    unfolding unsigned_ucast_eq by (rule take_bit_int_eq_self) (use lt in auto)
  have "sint (ucast f :: 32 word) = signed_take_bit 31 (uint (ucast f :: 32 word))"
    by (simp add: sint_uint)
  also have "\<dots> = uint f"
    unfolding u by (rule signed_take_bit_int_eq_self) (use lt in \<open>auto intro: order_trans [of _ 0]\<close>)
  finally show ?thesis by simp
qed

lemma takeWhile_sorted_less:
  fixes a :: "'a :: linorder"
  shows "sorted xs \<Longrightarrow> takeWhile (\<lambda>x. x < a) xs = filter (\<lambda>x. x < a) xs"
proof (induction xs)
  case (Cons x xs)
  show ?case
  proof (cases "x < a")
    case True
    with Cons show ?thesis by simp
  next
    case False
    with Cons.prems have "\<forall>y \<in> set xs. \<not> y < a" by (auto dest: order.strict_trans1)
    with False show ?thesis by (simp add: filter_empty_conv)
  qed
qed simp

lemma dropWhile_sorted_less:
  fixes a :: "'a :: linorder"
  shows "sorted xs \<Longrightarrow> dropWhile (\<lambda>x. x < a) xs = filter (\<lambda>x. \<not> x < a) xs"
proof (induction xs)
  case (Cons x xs)
  show ?case
  proof (cases "x < a")
    case False
    with Cons.prems have "\<forall>y \<in> set xs. \<not> y < a" by (auto dest: order.strict_trans1)
    then have "filter (\<lambda>x. \<not> x < a) xs = xs" by (simp add: filter_id_conv)
    with False show ?thesis by simp
  qed (use Cons in simp)
qed simp

text \<open>
  The nodes in the order of the ring, starting behind the node \<open>own\<close>.
\<close>

definition ring_after :: "host \<Rightarrow> host list \<Rightarrow> host list" where
  "ring_after own others = filter (\<lambda>h. \<not> h < own) (sort others) @ filter (\<lambda>h. h < own) (sort others)"

lemma ring_after_split:
  "filter (\<lambda>h. \<not> h < own) (sort others) = drop (skip_smaller (sort others) own 0) (sort others)"
  "filter (\<lambda>h. h < own) (sort others) = take (skip_smaller (sort others) own 0) (sort others)"
proof -
  let ?s = "sort others"
  have tw: "takeWhile (\<lambda>h. h < own) ?s = filter (\<lambda>h. h < own) ?s"
    by (rule takeWhile_sorted_less) simp
  have k: "skip_smaller ?s own 0 = length (takeWhile (\<lambda>h. h < own) ?s)"
    by (simp add: skip_smaller_eq)
  show "filter (\<lambda>h. h < own) ?s = take (skip_smaller ?s own 0) ?s"
    by (simp add: k tw [symmetric] takeWhile_eq_take [symmetric])
  have "dropWhile (\<lambda>h. h < own) ?s = filter (\<lambda>h. \<not> h < own) ?s"
    by (rule dropWhile_sorted_less) simp
  then show "filter (\<lambda>h. \<not> h < own) ?s = drop (skip_smaller ?s own 0) ?s"
    by (simp add: k dropWhile_eq_drop)
qed

lemma length_ring_after [simp]: "length (ring_after own others) = length others"
  using sum_length_filter_compl [of "\<lambda>h. h < own" "sort others"]
  by (simp add: ring_after_def)

lemma set_ring_after [simp]: "set (ring_after own others) = set others"
  by (auto simp: ring_after_def)

lemma distinct_ring_after: "distinct others \<Longrightarrow> distinct (ring_after own others)"
  by (auto simp: ring_after_def)

lemma choose_replicators_eq:
  assumes "unat f \<le> length others" and "unat f < 2 ^ 31"
  shows "choose_replicators others own f = Inr (take (unat f) (ring_after own others))"
proof -
  let ?s = "sort others" and ?i = "skip_smaller (sort others) own 0"
  have i: "?i \<le> length others"
    using length_takeWhile_le [of "\<lambda>h. h < own" ?s] by (simp add: skip_smaller_eq)
  have "choose_replicators others own f =
      push_wrapped ?s 0 (int (unat f - (length others - ?i))) (take (unat f) (drop ?i ?s))"
    using assms by (simp add: choose_replicators_def count_of_f push_upto_end_eq Let_def)
  also have "\<dots> = Inr (take (unat f) (drop ?i ?s) @ take (unat f - (length others - ?i)) ?s)"
    using assms(1) by (subst push_wrapped_eq) simp_all
  also have "take (unat f - (length others - ?i)) ?s =
      take (unat f - (length others - ?i)) (take ?i ?s)"
    using assms(1) i by (auto simp: min_def)
  finally show ?thesis
    unfolding ring_after_def ring_after_split by simp
qed

text \<open>
  C35: the index loops of \<open>HostConfig\<close> compute the ring successors. With a valid configuration
  (\<open>f\<close> at most the number of other nodes) no read is out of bounds and the replicators are
  exactly the first \<open>f\<close> nodes behind the node's own id in the sorted ring, wrapping around.
\<close>

theorem choose_replicators_ring:
  assumes "unat f \<le> length others" and "unat f < 2 ^ 31"
  shows "choose_replicators others own f = Inr (take (unat f) (ring_after own others))"
  using assms by (rule choose_replicators_eq)

theorem choose_replicators_ring_witness:
  "choose_replicators [''b:2'', ''a:1'', ''d:4''] ''c:3'' 2 = Inr [''d:4'', ''a:1'']"
proof -
  have "choose_replicators [''b:2'', ''a:1'', ''d:4''] ''c:3'' 2 =
      Inr (take (unat (2 :: 64 word)) (ring_after ''c:3'' [''b:2'', ''a:1'', ''d:4'']))"
    by (rule choose_replicators_ring) simp_all
  moreover have "ring_after ''c:3'' [''b:2'', ''a:1'', ''d:4''] = [''d:4'', ''a:1'', ''b:2'']"
    by code_simp
  ultimately show ?thesis by simp
qed

lemma bind_result_InrE:
  assumes "bind_result r f = Inr y"
  obtains x where "r = Inr x" and "f x = Inr y"
  using assms by (cases r) auto

lemma HostConfig_Inr:
  assumes "HostConfig data = Inr hc"
  obtains allOthers where "choose_replicators allOthers (hc_id hc) (hc_f hc) = Inr (hc_replicators hc)"
    and "hc_allOthers hc = sort allOthers"
    and "hc_id hc = hc_host hc @ '':'' @ to_string_int (hc_port hc)"
  using assms unfolding HostConfig_def Let_def by (elim bind_result_InrE) auto

text \<open>
  C36: what the rest of the system relies on from a loaded configuration: there are exactly \<open>f\<close>
  replicators, they are other nodes of the configuration, no node is chosen twice when the
  configuration lists each node once, and a node is not its own replicator unless the
  configuration lists it among the others.
\<close>

theorem HostConfig_replicators:
  assumes "HostConfig data = Inr hc" and "unat (hc_f hc) < 2 ^ 31"
  shows "length (hc_replicators hc) = unat (hc_f hc) \<and>
    set (hc_replicators hc) \<subseteq> set (hc_allOthers hc) \<and>
    (distinct (hc_allOthers hc) \<longrightarrow> distinct (hc_replicators hc)) \<and>
    (hc_id hc \<notin> set (hc_allOthers hc) \<longrightarrow> hc_id hc \<notin> set (hc_replicators hc))"
proof -
  obtain others where c: "choose_replicators others (hc_id hc) (hc_f hc) = Inr (hc_replicators hc)"
    and o: "hc_allOthers hc = sort others"
    using HostConfig_Inr [OF assms(1)] by blast
  have f: "unat (hc_f hc) \<le> length others"
    using c by (auto simp: choose_replicators_def split: if_splits)
  have r: "hc_replicators hc = take (unat (hc_f hc)) (ring_after (hc_id hc) others)"
    using c choose_replicators_eq [OF f assms(2)] by simp
  have "length (hc_replicators hc) = unat (hc_f hc)" using r f by simp
  moreover have "set (hc_replicators hc) \<subseteq> set (hc_allOthers hc)"
    using r o set_take_subset [of "unat (hc_f hc)" "ring_after (hc_id hc) others"] by auto
  moreover have "distinct (hc_allOthers hc) \<longrightarrow> distinct (hc_replicators hc)"
    using r o distinct_ring_after [of others "hc_id hc"] by simp
  ultimately show ?thesis by blast
qed

definition sample_host_config :: json where
  "sample_host_config = JObject
     [(''host'', JString ''localhost''),
      (''others'', JArray [JObject [(''host_id'', JString ''localhost:8002'')],
                           JObject [(''host_id'', JString ''localhost:8004'')]]),
      (''dbms_address'', JString ''localhost:9000''), (''host_num'', JUnsigned 0),
      (''port'', JUnsigned 8000), (''timeout_millis'', JUnsigned 500), (''f'', JUnsigned 1)]"

definition sample_loaded :: host_config where
  "sample_loaded =
     \<lparr>hc_id = ''localhost:8000'', hc_allOthers = [''localhost:8002'', ''localhost:8004''],
      hc_dbmsAddress = ''localhost:9000'', hc_hostNum = 0, hc_port = 8000,
      hc_host = ''localhost'', hc_timeout = 500, hc_f = 1, hc_replicators = [''localhost:8002'']\<rparr>"

lemma sample_sorted:
  "sort [''localhost:8002'', ''localhost:8004''] = [''localhost:8002'', ''localhost:8004'']"
  by (simp add: less_char_def Cons_less_Cons)

lemma sample_replicators:
  "choose_replicators [''localhost:8002'', ''localhost:8004''] ''localhost:8000'' 1 =
   Inr [''localhost:8002'']"
  by (subst choose_replicators_eq) (simp_all only: ring_after_def sample_sorted, simp_all)

lemma sample_port: "to_string_int 8000 = ''8000''"
  by (simp add: to_string_int_def to_string_nat_def nat_digits.simps digit_char_def char_of_def bit_0)

lemma sample_loads: "HostConfig sample_host_config = Inr sample_loaded"
  by (simp add: sample_host_config_def HostConfig_def json_at_def get_string_def get_u64_def
      get_int_def json_elements_def sample_port sample_replicators sample_sorted sample_loaded_def)

theorem HostConfig_replicators_witness:
  "HostConfig sample_host_config = Inr sample_loaded \<and>
   length (hc_replicators sample_loaded) = 1 \<and> hc_id sample_loaded \<notin> set (hc_replicators sample_loaded)"
  using HostConfig_replicators [OF sample_loads] sample_loads by (simp add: sample_loaded_def)

text \<open>
  A configuration that asks for more replicators than there are other nodes is rejected (the
  assertion in the constructor), whatever the rest of the document says.
\<close>

lemma choose_replicators_too_many:
  "length others < unat f \<longleftrightarrow> choose_replicators others own f = Inl Assertion_failed"
proof
  assume "choose_replicators others own f = Inl Assertion_failed"
  moreover have "push_wrapped xs i cnt reps \<noteq> Inl Assertion_failed" for xs i cnt reps
    by (induction xs i cnt reps rule: push_wrapped.induct) (subst push_wrapped.simps, simp)
  ultimately show "length others < unat f"
    by (auto simp: choose_replicators_def Let_def split: if_splits prod.splits)
qed (simp add: choose_replicators_def)

end
