(* ===== verification/Tcp_Conn.thy ===== *)
theory Tcp_Conn
  imports Tcp_Codec Node_Config "HOL-Library.Sublist"
begin

text \<open>
  The two ends of a TCP connection (\<open>TCPServer\<close> and \<open>TCPClient\<close> of
  \<open>Cornus/include/messaging/tcp.hpp\<close>). The operating system is the environment: what \<open>recv\<close> and
  \<open>send\<close> return is an explicit list of events, consumed from the front. The loops of the code are
  recursive functions over these events; callbacks are functions from requests to responses, and
  their calls are recorded in a trace.
\<close>

section \<open>Sending: \<open>trySendData\<close>\<close>

text \<open>
  The list holds what the successive calls of \<open>send\<close> return: \<open>-1\<close>, or the number of bytes taken.
  The result is \<open>None\<close> while the call is still blocked (the list is exhausted); the second component
  is what the peer has been sent.
\<close>

fun trySendData :: "int list \<Rightarrow> string \<Rightarrow> nat \<Rightarrow> bool option \<times> string" where
  "trySendData [] buf sent = (None, '''')"
| "trySendData (n # ns) buf sent =
     (if n = - 1 then (Some False, '''')
      else
        (let sent' = sent + nat n; out = take (nat n) (drop sent buf)
         in if sent' < length buf
            then (case trySendData ns buf sent' of (r, out') \<Rightarrow> (r, out @ out'))
            else (Some True, out)))"

lemma trySendData_prefix:
  assumes "trySendData ns buf sent = (r, out)" and "sent \<le> length buf"
  shows "\<exists>rest. drop sent buf = out @ rest \<and> (r = Some True \<longrightarrow> rest = [])"
  using assms
proof (induction ns buf sent arbitrary: r out rule: trySendData.induct)
  case (2 n ns buf sent)
  show ?case
  proof (cases "n = - 1")
    case True
    with 2 show ?thesis by auto
  next
    case neg: False
    show ?thesis
    proof (cases "sent + nat n < length buf")
      case True
      obtain r' out' where rec: "trySendData ns buf (sent + nat n) = (r', out')"
        by (cases "trySendData ns buf (sent + nat n)")
      then obtain rest where "drop (sent + nat n) buf = out' @ rest" "r' = Some True \<longrightarrow> rest = []"
        using "2.IH" [OF neg refl refl True] True by fastforce
      moreover have "out = take (nat n) (drop sent buf) @ out'" "r = r'"
        using "2.prems" neg True rec by simp_all
      ultimately show ?thesis
        by (metis add.commute append.assoc append_take_drop_id drop_drop)
    next
      case False
      then have "length (drop sent buf) \<le> nat n" by simp
      with False neg "2.prems" show ?thesis by (intro exI [of _ "[]"]) auto
    qed
  qed
qed simp

lemma trySendData_progress:
  assumes "\<forall>n \<in> set ns. 1 \<le> n" and "length buf \<le> sent + length ns" and "ns \<noteq> []"
  shows "fst (trySendData ns buf sent) = Some True"
  using assms
proof (induction ns buf sent rule: trySendData.induct)
  case (2 n ns buf sent)
  show ?case
  proof (cases "sent + nat n < length buf")
    case True
    then have "ns \<noteq> []" using "2.prems" by auto
    moreover have "length buf \<le> sent + nat n + length ns" using "2.prems" by auto
    ultimately have "fst (trySendData ns buf (sent + nat n)) = Some True"
      using "2.IH" [of "sent + nat n"] "2.prems" True by auto
    with True "2.prems" show ?thesis by (auto split: prod.splits)
  next
    case False
    with "2.prems" show ?thesis by auto
  qed
qed simp

text \<open>
  \<open>trySendData\<close> is a complete send. It never repeats or skips bytes: what the peer gets is a
  prefix of the message, all of it when the function returns true; and when every call of \<open>send\<close>
  makes progress it returns true after at most as many calls as there are bytes.
\<close>

lemma trySendData_complete:
  "(trySendData ns buf 0 = (r, out) \<longrightarrow>
     (\<exists>rest. buf = out @ rest \<and> (r = Some True \<longrightarrow> rest = []))) \<and>
   ((\<forall>n \<in> set ns. 1 \<le> n) \<and> buf \<noteq> [] \<and> length buf \<le> length ns \<longrightarrow>
     fst (trySendData ns buf 0) = Some True)"
  using trySendData_prefix [of ns buf 0 r out] trySendData_progress [of ns buf 0]
  by (cases "ns = []") auto


section \<open>The receive loop of the server: \<open>handle_connection\<close>\<close>

text \<open>
  What a socket delivers: a segment of bytes, or an error. When the list is exhausted the peer has
  closed the connection and \<open>recv\<close> returns 0. \<open>recv\<close> hands over at most as many bytes as the caller
  has room for and keeps the rest.
\<close>

datatype sock_event = Arrive string | Fail

fun recv_call :: "nat \<Rightarrow> sock_event list \<Rightarrow> string option \<times> sock_event list" where
  "recv_call cap [] = (Some [], [])"
| "recv_call cap (Fail # es) = (None, es)"
| "recv_call cap (Arrive s # es) =
     (Some (take cap s), if length s \<le> cap then es else Arrive (drop cap s) # es)"

datatype conn_event = Called tcp_request | Replied string | No_callback tcp_request

type_synonym callbacks = "string \<Rightarrow> (tcp_request \<Rightarrow> tcp_response result) option"

definition registerCallback ::
  "string \<Rightarrow> (tcp_request \<Rightarrow> tcp_response result) \<Rightarrow> callbacks \<Rightarrow> callbacks" where
  "registerCallback ep f cbs = cbs(ep \<mapsto> f)"

datatype turn =
    Next string "conn_event list"                  \<comment> \<open>go on with this buffer and trace\<close>
  | Leave "int result" "conn_event list"           \<comment> \<open>the function returned or threw\<close>

text \<open>
  The body of the loop behind \<open>recv\<close>. \<open>send_ok k\<close> tells whether the reply that is written as the
  \<open>k\<close>-th entry of the trace goes out. The bytes behind the request are moved to the front of the buffer
  by \<open>memcpy\<close>, which is undefined in two cases: when the consumed length is above the fill level, the
  unsigned \<open>extraInfoLen\<close> wraps; when there are more bytes behind the request than it has itself, the
  source and the destination overlap.
\<close>

definition message_size :: "tcp_request \<Rightarrow> nat" where
  "message_size req = length (endpoint req) + length (request req) + 2"

definition consume :: "string \<Rightarrow> tcp_request \<Rightarrow> conn_event list \<Rightarrow> turn" where
  "consume buf req tr =
     (let messageSize = message_size req; extraInfoLen = length buf - messageSize
      in if length buf < messageSize \<or> messageSize < extraInfoLen then Leave (Inl Undefined_behaviour) tr
         else Next (drop messageSize buf) tr)"

definition serve_buffer ::
  "callbacks \<Rightarrow> (nat \<Rightarrow> bool) \<Rightarrow> string \<Rightarrow> conn_event list \<Rightarrow> turn" where
  "serve_buffer cbs send_ok buf tr =
     (case getRequest buf of
        Inl err \<Rightarrow> Leave (Inl err) tr
      | Inr None \<Rightarrow> Next buf tr
      | Inr (Some req) \<Rightarrow>
          (case cbs (endpoint req) of
             None \<Rightarrow> consume buf req (tr @ [No_callback req])
           | Some f \<Rightarrow>
               (case f req of
                  Inl err \<Rightarrow> Leave (Inl err) (tr @ [Called req])
                | Inr resp \<Rightarrow>
                    (case encode_response resp of
                       None \<Rightarrow> Leave (Inr (- 1)) (tr @ [Called req])
                     | Some bytes \<Rightarrow>
                         if send_ok (length tr)
                         then consume buf req (tr @ [Called req, Replied bytes])
                         else Leave (Inr (- 1)) (tr @ [Called req])))))"

fun pending :: "sock_event list \<Rightarrow> nat" where
  "pending [] = 0"
| "pending (Fail # es) = Suc (pending es)"
| "pending (Arrive s # es) = Suc (length s + pending es)"

lemma recv_call_pending:
  "(Some s, es') = recv_call cap es \<Longrightarrow> s \<noteq> [] \<Longrightarrow> pending es' < pending es"
  by (cases "(cap, es)" rule: recv_call.cases) (auto split: if_splits)

function handle_connection ::
  "callbacks \<Rightarrow> (nat \<Rightarrow> bool) \<Rightarrow> sock_event list \<Rightarrow> string \<Rightarrow> conn_event list \<Rightarrow>
   int result \<times> conn_event list" where
  "handle_connection cbs send_ok es buf tr =
     (case recv_call (MAX_MESSAGE_SIZE - length buf) es of
        (None, es') \<Rightarrow> (Inr (- 1), tr)
      | (Some s, es') \<Rightarrow>
          (case serve_buffer cbs send_ok (buf @ s) tr of
             Leave r tr' \<Rightarrow> (r, tr')
           | Next buf' tr' \<Rightarrow>
               if s = [] then (Inr 0, tr') else handle_connection cbs send_ok es' buf' tr'))"
  by pat_completeness auto
termination
  by (relation "measure (\<lambda>(cbs, ok, es, buf, tr). pending es)") (auto dest: recv_call_pending)

declare handle_connection.simps [simp del]

subsection \<open>One exchange, in any segmentation\<close>

definition segments :: "string list \<Rightarrow> string \<Rightarrow> bool" where
  "segments cs bytes \<longleftrightarrow> [] \<notin> set cs \<and> concat cs = bytes"

lemma frame_shorter: "fits r \<Longrightarrow> length (request_frame r) < MAX_MESSAGE_SIZE"
  by (simp add: fits_def)

lemma serve_buffer_feed:
  assumes "fits r" and "request_frame r = buf @ s @ rest"
    and "cbs (endpoint r) = Some f" and "f (received_request r) = Inr resp"
    and "encode_response resp = Some bytes" and "send_ok (length tr)"
  shows "serve_buffer cbs send_ok (buf @ s) tr =
    (if rest = [] then Next [] (tr @ [Called (received_request r), Replied bytes])
     else Next (buf @ s) tr)"
proof (cases "rest = []")
  case True
  then have "getRequest (buf @ s) = Inr (Some (received_request r))"
    using request_framing.feed [OF assms(1,2)] by simp
  moreover have "length (buf @ s) = length (endpoint r) + length (request r) + 2"
    using arg_cong [OF assms(2), of length] True by (simp add: request_frame_def frame_def)
  ultimately show ?thesis
    using assms(3-) True
    by (simp add: serve_buffer_def consume_def message_size_def received_request_def TCPRequest_def)
next
  case False
  then have "getRequest (buf @ s) = Inr None"
    using request_framing.feed [OF assms(1,2)] by simp
  with False show ?thesis by (simp add: serve_buffer_def)
qed

lemma handle_connection_exchange:
  assumes "fits r" and "cbs (endpoint r) = Some f" and "f (received_request r) = Inr resp"
    and "encode_response resp = Some bytes" and "send_ok (length tr)"
    and "request_frame r = buf @ concat cs" and "[] \<notin> set cs" and "cs \<noteq> []"
  shows "handle_connection cbs send_ok (map Arrive cs @ es) buf tr =
    handle_connection cbs send_ok es [] (tr @ [Called (received_request r), Replied bytes])"
  using assms(6-)
proof (induction cs arbitrary: buf)
  case (Cons c cs)
  have split: "request_frame r = buf @ c @ concat cs" using Cons.prems by simp
  have len: "length c \<le> MAX_MESSAGE_SIZE - length buf" and "c \<noteq> []"
    using frame_shorter [OF assms(1)] split Cons.prems by auto
  then have unfold: "handle_connection cbs send_ok (map Arrive (c # cs) @ es) buf tr =
      (case serve_buffer cbs send_ok (buf @ c) tr of
         Leave res tr' \<Rightarrow> (res, tr')
       | Next buf' tr' \<Rightarrow> handle_connection cbs send_ok (map Arrive cs @ es) buf' tr')"
    by (subst handle_connection.simps) (simp split: turn.split)
  have served: "serve_buffer cbs send_ok (buf @ c) tr =
    (if concat cs = [] then Next [] (tr @ [Called (received_request r), Replied bytes])
     else Next (buf @ c) tr)"
    by (rule serve_buffer_feed [where cbs = cbs and f = f and send_ok = send_ok and tr = tr,
          OF assms(1) split assms(2-5)])
  show ?case
  proof (cases "cs = []")
    case True
    then show ?thesis unfolding unfold served by simp
  next
    case False
    then have "concat cs \<noteq> []" using Cons.prems by (cases cs) auto
    moreover have "handle_connection cbs send_ok (map Arrive cs @ es) (buf @ c) tr =
      handle_connection cbs send_ok es [] (tr @ [Called (received_request r), Replied bytes])"
      using Cons.IH [of "buf @ c"] Cons.prems False by simp
    ultimately show ?thesis unfolding unfold served by (simp only: if_False turn.case)
  qed
qed simp

lemma handle_connection_closed: "handle_connection cbs send_ok [] [] tr = (Inr 0, tr)"
  by (subst handle_connection.simps) (simp add: serve_buffer_def getRequest_no_end)

text \<open>
  An exchange: a request, the segments it arrives in, and the bytes of the reply its callback gives.
\<close>

type_synonym exchange = "tcp_request \<times> string list \<times> string"

definition served_by :: "callbacks \<Rightarrow> exchange \<Rightarrow> bool" where
  "served_by cbs x \<longleftrightarrow> (case x of (r, cs, bytes) \<Rightarrow>
     fits r \<and> segments cs (request_frame r) \<and>
     (\<exists>f resp. cbs (endpoint r) = Some f \<and> f (received_request r) = Inr resp \<and>
        encode_response resp = Some bytes))"

definition exchange_events :: "exchange \<Rightarrow> sock_event list" where
  "exchange_events x = (case x of (r, cs, bytes) \<Rightarrow> map Arrive cs)"

definition exchange_trace :: "exchange \<Rightarrow> conn_event list" where
  "exchange_trace x = (case x of (r, cs, bytes) \<Rightarrow> [Called (received_request r), Replied bytes])"

lemma handle_connection_exchanges:
  assumes "list_all (served_by cbs) xs" and "\<forall>k. send_ok k"
  shows "handle_connection cbs send_ok (concat (map exchange_events xs)) [] tr =
    (Inr 0, tr @ concat (map exchange_trace xs))"
  using assms(1)
proof (induction xs arbitrary: tr)
  case Nil
  then show ?case by (simp add: handle_connection_closed)
next
  case (Cons x xs)
  obtain r cs bytes where x: "x = (r, cs, bytes)" by (cases x)
  obtain f resp where s: "fits r" "segments cs (request_frame r)" "cbs (endpoint r) = Some f"
    "f (received_request r) = Inr resp" "encode_response resp = Some bytes"
    using Cons.prems x by (auto simp: served_by_def)
  have "cs \<noteq> []" using s(2) by (auto simp: segments_def request_frame_def frame_def)
  then have "handle_connection cbs send_ok (map Arrive cs @ concat (map exchange_events xs)) [] tr =
      handle_connection cbs send_ok (concat (map exchange_events xs)) []
        (tr @ [Called (received_request r), Replied bytes])"
    using s assms(2) by (intro handle_connection_exchange [where cbs = cbs and f = f and resp = resp,
          OF s(1,3,4,5)]) (auto simp: segments_def)
  moreover have "exchange_events x = map Arrive cs"
    and "exchange_trace x = [Called (received_request r), Replied bytes]"
    using x by (simp_all add: exchange_events_def exchange_trace_def)
  ultimately show ?case using Cons by simp
qed

text \<open>
  C27: the server is correct for a client that waits for its reply. Over the life of a connection,
  for any number of requests and any segmentation of each by the network, the server calls the
  callback of every request once, in order, with the request that was sent, replies to each, and
  ends with 0 when the peer closes.
\<close>

theorem server_serves_all:
  assumes "list_all (served_by cbs) xs" and "\<forall>k. send_ok k"
  shows "handle_connection cbs send_ok (concat (map exchange_events xs)) [] [] =
    (Inr 0, concat (map exchange_trace xs))"
  using handle_connection_exchanges [OF assms, of "[]"] by simp

definition ok_callbacks :: callbacks where
  "ok_callbacks = registerCallback ''VOTEYES'' (\<lambda>req. Inr TCP_OK) Map.empty"

theorem server_serves_all_witness:
  "handle_connection ok_callbacks (\<lambda>k. True)
     [Arrive (''VOTE''), Arrive (''YES'' @ [HEADER_DELIM] @ ''x''), Arrive [MESSAGE_END]] [] [] =
   (Inr 0, [Called (received_request sample_vote), Replied (''OK'' @ [MESSAGE_END])])"
proof -
  let ?x = "(sample_vote, [''VOTE'', ''YES'' @ [HEADER_DELIM] @ ''x'', [MESSAGE_END]], ''OK'' @ [MESSAGE_END])"
  have "list_all (served_by ok_callbacks) [?x]"
    using sample_vote_fits
    by (simp add: served_by_def segments_def ok_callbacks_def registerCallback_def TCP_OK_def
        encode_response_def request_frame_def frame_def sample_vote_def)
  from server_serves_all [OF this, of "\<lambda>k. True"] show ?thesis
    by (simp add: exchange_events_def exchange_trace_def)
qed

subsection \<open>Memory safety of the loop on arbitrary input\<close>

definition safe_callbacks :: "callbacks \<Rightarrow> bool" where
  "safe_callbacks cbs \<longleftrightarrow> (\<forall>ep f req. cbs ep = Some f \<longrightarrow> f req \<noteq> Inl Undefined_behaviour)"

lemma getRequest_errors: "getRequest msg = Inl err \<Longrightarrow> err = Length_error"
  by (auto simp: getRequest_def Let_def split: prod.splits option.splits if_splits)

text \<open>
  A buffer is crowded when more bytes follow the request in it than the request has itself. What the
  buffer holds at any time is a piece of the bytes that the peer has sent, in the order they were sent.
\<close>

definition crowded :: "string \<Rightarrow> bool" where
  "crowded buf \<longleftrightarrow>
     (case getRequest buf of Inr (Some req) \<Rightarrow> 2 * message_size req < length buf | _ \<Rightarrow> False)"

fun received_bytes :: "sock_event list \<Rightarrow> string" where
  "received_bytes [] = []"
| "received_bytes (Fail # es) = []"
| "received_bytes (Arrive s # es) = s @ received_bytes es"

definition uncrowded :: "string \<Rightarrow> bool" where
  "uncrowded bytes \<longleftrightarrow> (\<forall>buf. sublist buf bytes \<longrightarrow> length buf \<le> MAX_MESSAGE_SIZE \<longrightarrow> \<not> crowded buf)"

lemma uncrowdedD: "uncrowded bytes \<Longrightarrow> sublist buf bytes \<Longrightarrow> length buf \<le> MAX_MESSAGE_SIZE \<Longrightarrow> \<not> crowded buf"
  by (simp add: uncrowded_def)

lemma uncrowded_sublist: "uncrowded bytes \<Longrightarrow> sublist bytes' bytes \<Longrightarrow> uncrowded bytes'"
  unfolding uncrowded_def by (meson sublist_order.order.trans)

lemma consume_in_bounds:
  assumes "getRequest buf = Inr (Some req)" and "length buf < 2 ^ 62" and "\<not> crowded buf"
  shows "consume buf req tr = Next (drop (message_size req) buf) tr"
  using getRequest_consumes [OF assms(1,2)] assms(1,3) by (auto simp: consume_def crowded_def message_size_def)

lemma serve_buffer_safe:
  assumes "safe_callbacks cbs" and "length buf \<le> MAX_MESSAGE_SIZE" and "\<not> crowded buf"
  shows "case serve_buffer cbs send_ok buf tr of
      Next buf' tr' \<Rightarrow> suffix buf' buf
    | Leave r tr' \<Rightarrow> r \<noteq> Inl Undefined_behaviour"
proof (cases "getRequest buf")
  case (Inl err)
  then show ?thesis using getRequest_errors [OF Inl] by (simp add: serve_buffer_def)
next
  case (Inr found)
  show ?thesis
  proof (cases found)
    case None
    with Inr assms show ?thesis by (simp add: serve_buffer_def)
  next
    case (Some req)
    with Inr have found: "getRequest buf = Inr (Some req)" by simp
    have next_ok: "consume buf req tr' = Next (drop (message_size req) buf) tr'" for tr'
      by (rule consume_in_bounds [OF found _ assms(3)]) (use assms(2) in simp)
    show ?thesis
    proof (cases "cbs (endpoint req)")
      case None
      with found show ?thesis by (simp add: serve_buffer_def next_ok suffix_drop)
    next
      case (Some f)
      have "f req \<noteq> Inl Undefined_behaviour" using assms(1) Some by (simp add: safe_callbacks_def)
      with found Some show ?thesis
        by (auto simp: serve_buffer_def next_ok suffix_drop split: sum.split option.split)
    qed
  qed
qed

lemma recv_call_cap: "(Some s, es') = recv_call cap es \<Longrightarrow> length s \<le> cap"
  by (cases "(cap, es)" rule: recv_call.cases) auto

lemma recv_call_bytes: "(Some s, es') = recv_call cap es \<Longrightarrow> s = [] \<or> received_bytes es = s @ received_bytes es'"
  by (cases "(cap, es)" rule: recv_call.cases) auto

lemma handle_connection_safe_from:
  assumes "safe_callbacks cbs" and "length buf \<le> MAX_MESSAGE_SIZE" and "uncrowded (buf @ received_bytes es)"
  shows "fst (handle_connection cbs send_ok es buf tr) \<noteq> Inl Undefined_behaviour"
  using assms
proof (induction cbs send_ok es buf tr rule: handle_connection.induct)
  case (1 cbs send_ok es buf tr)
  obtain got es' where rc: "recv_call (MAX_MESSAGE_SIZE - length buf) es = (got, es')"
    by (cases "recv_call (MAX_MESSAGE_SIZE - length buf) es")
  show ?case
  proof (cases got)
    case None
    with rc show ?thesis by (subst handle_connection.simps) simp
  next
    case (Some s)
    have len: "length (buf @ s) \<le> MAX_MESSAGE_SIZE"
      using recv_call_cap [of s es' "MAX_MESSAGE_SIZE - length buf" es] rc Some "1.prems" by simp
    have bytes: "s = [] \<or> buf @ received_bytes es = (buf @ s) @ received_bytes es'"
      using recv_call_bytes [of s es' "MAX_MESSAGE_SIZE - length buf" es] rc Some by auto
    then have "sublist (buf @ s) (buf @ received_bytes es)" by auto
    then have "\<not> crowded (buf @ s)" using uncrowdedD [OF "1.prems"(3) _ len] by simp
    note safe = serve_buffer_safe [OF "1.prems"(1) len this, of send_ok tr]
    show ?thesis
    proof (cases "serve_buffer cbs send_ok (buf @ s) tr")
      case (Leave r tr')
      with safe rc Some show ?thesis by (subst handle_connection.simps) simp
    next
      case (Next buf' tr')
      with safe have sub: "suffix buf' (buf @ s)" by simp
      have "fst (handle_connection cbs send_ok es' buf' tr') \<noteq> Inl Undefined_behaviour" if "s \<noteq> []"
      proof (rule "1.IH" [OF rc [symmetric] Some Next that "1.prems"(1)])
        show "length buf' \<le> MAX_MESSAGE_SIZE" using suffix_length_le [OF sub] len by simp
        have "sublist (buf' @ received_bytes es') (buf @ received_bytes es)"
          using sub bytes that by (auto simp: suffix_def)
        then show "uncrowded (buf' @ received_bytes es')" by (rule uncrowded_sublist [OF "1.prems"(3)])
      qed
      with rc Some Next show ?thesis by (subst handle_connection.simps) simp
    qed
  qed
qed

text \<open>
  C28: memory safety of the receive loop, up to one copy. Whatever bytes a peer sends, in whatever
  segments, and whatever errors the socket reports, the loop has no undefined behaviour as long as the
  callbacks have none and no piece of the stream that fits the buffer has more bytes behind its request
  than the request itself: its only undefined behaviour is the overlapping \<open>memcpy\<close> of such a piece. In
  particular the lengths it computes never run off the buffer.
\<close>

theorem handle_connection_memory_safe:
  assumes "safe_callbacks cbs" and "uncrowded (received_bytes es)"
  shows "fst (handle_connection cbs send_ok es [] []) \<noteq> Inl Undefined_behaviour"
  by (rule handle_connection_safe_from [OF assms(1)]) (simp_all add: assms(2))

lemma uncrowded_short:
  assumes "length bytes \<le> 4"
  shows "uncrowded bytes"
  unfolding uncrowded_def
proof (intro allI impI)
  fix buf assume "sublist buf bytes"
  then have "length buf \<le> 4" using sublist_length_le assms by (metis le_trans)
  then show "\<not> crowded buf" by (auto simp: crowded_def message_size_def split: sum.splits option.splits)
qed

theorem handle_connection_memory_safe_witness:
  "fst (handle_connection ok_callbacks (\<lambda>k. True) [Arrive [CHR ''a'', HEADER_DELIM], Arrive [MESSAGE_END, CHR ''b''], Fail] [] [])
     \<noteq> Inl Undefined_behaviour"
  by (rule handle_connection_memory_safe)
     (auto simp: safe_callbacks_def ok_callbacks_def registerCallback_def uncrowded_short split: if_splits)

text \<open>
  C29: a request with many bytes behind it is undefined behaviour. When a well-formed request and more bytes than
  it has itself, without delimiters, arrive in one segment, the callback is called and its reply is
  written, and then the rest is moved with overlapping \<open>memcpy\<close>, whatever comes after.
\<close>

theorem crowded_request_undefined:
  assumes "fits r" and "cbs (endpoint r) = Some f" and "f (received_request r) = Inr resp"
    and "encode_response resp = Some bytes" and "send_ok 0"
    and "clean_text rest" and "length (request_frame r) < length rest"
    and "length (request_frame r @ rest) \<le> MAX_MESSAGE_SIZE"
  shows "handle_connection cbs send_ok (Arrive (request_frame r @ rest) # es) [] [] =
    (Inl Undefined_behaviour, [Called (received_request r), Replied bytes])"
proof -
  let ?buf = "request_frame r @ rest" and ?r = "received_request r"
  have clean: "clean_text (endpoint r)" "clean_text (request r)" using assms(1) by (simp_all add: fits_def clean_request_def)
  have "scan_delims ?buf 0 None None = (Some (length (endpoint r)), Some (length (endpoint r) + 1 + length (request r)))"
    using clean assms(6) by (simp add: scan_delims_append request_frame_def frame_def)
  from getRequest_scan [OF this] assms(8) have "getRequest ?buf = Inr (Some ?r)"
    by (simp add: request_frame_def frame_def received_request_def)
  moreover have "endpoint ?r = endpoint r" "message_size ?r = length (request_frame r)"
    by (simp_all add: received_request_def TCPRequest_def message_size_def request_frame_def frame_def)
  ultimately have "serve_buffer cbs send_ok ?buf [] = Leave (Inl Undefined_behaviour) [Called ?r, Replied bytes]"
    using assms(2-5,7) by (simp add: serve_buffer_def consume_def)
  then show ?thesis using assms(8) by (subst handle_connection.simps) simp
qed

theorem crowded_request_undefined_witness:
  "handle_connection ok_callbacks (\<lambda>k. True) [Arrive (request_frame sample_vote @ replicate 20 (CHR ''z''))] [] [] =
    (Inl Undefined_behaviour, [Called (received_request sample_vote), Replied (''OK'' @ [MESSAGE_END])])"
proof -
  have cb: "ok_callbacks (endpoint sample_vote) = Some (\<lambda>req. Inr TCP_OK)"
    by (simp add: ok_callbacks_def registerCallback_def sample_vote_def)
  have resp: "encode_response TCP_OK = Some (''OK'' @ [MESSAGE_END])"
    by (simp add: TCP_OK_def encode_response_def)
  have len: "clean_text (replicate 20 (CHR ''z''))" "length (request_frame sample_vote) < length (replicate 20 (CHR ''z''))"
    "length (request_frame sample_vote @ replicate 20 (CHR ''z'')) \<le> MAX_MESSAGE_SIZE"
    by (simp_all add: clean_text_def request_frame_def frame_def sample_vote_def)
  show ?thesis
    using crowded_request_undefined [where cbs = ok_callbacks and send_ok = "\<lambda>k. True" and es = "[]",
        OF sample_vote_fits cb refl resp TrueI len] .
qed

section \<open>The client: \<open>TCPClient\<close>\<close>

text \<open>
  \<open>init\<close>: \<open>resolved\<close> and \<open>connected\<close> are the outcomes of \<open>gethostbyname\<close> and \<open>connect\<close>. When the
  name does not resolve the code still dereferences the empty optional. The result is the \<open>valid\<close>
  flag of the client.
\<close>

definition client_init :: "bool \<Rightarrow> bool \<Rightarrow> bool result" where
  "client_init resolved connected = (if resolved then Inr connected else Inl Undefined_behaviour)"

definition TCPClient ::
  "(string \<Rightarrow> bool) \<Rightarrow> (string \<Rightarrow> int \<Rightarrow> bool) \<Rightarrow> string \<Rightarrow> bool result" where
  "TCPClient resolves connects hostnamecolonport =
     bind_result (client_address hostnamecolonport) (\<lambda>(hostname, port).
       client_init (resolves hostname) (connects hostname port))"

lemma recv_call_fail_pending: "(None, es') = recv_call cap es \<Longrightarrow> pending es' < pending es"
  by (cases "(cap, es)" rule: recv_call.cases) auto

text \<open>
  The receive loop of \<open>sendRequest\<close>. An error of \<open>recv\<close> is added to the unsigned fill level like a
  byte count of \<open>-1\<close>: the last byte is forgotten, or, with an empty buffer, the level wraps to the
  largest value and the decoder scans memory behind the buffer.
\<close>

function recv_response :: "sock_event list \<Rightarrow> string \<Rightarrow> tcp_response option result" where
  "recv_response es buf =
     (case recv_call (MAX_MESSAGE_SIZE - length buf) es of
        (None, es') \<Rightarrow>
          if buf = [] then Inl Undefined_behaviour
          else (case tryDecodeResponse (butlast buf) of
                  Some resp \<Rightarrow> Inr (Some resp)
                | None \<Rightarrow> recv_response es' (butlast buf))
      | (Some s, es') \<Rightarrow>
          if s = [] then Inr None
          else (case tryDecodeResponse (buf @ s) of
                  Some resp \<Rightarrow> Inr (Some resp)
                | None \<Rightarrow> recv_response es' (buf @ s)))"
  by pat_completeness auto

termination
  by (relation "measure (\<lambda>(es, buf). pending es)")
     (auto dest: recv_call_pending recv_call_fail_pending)

declare recv_response.simps [simp del]

text \<open>\<open>sendRequest\<close>; the outer \<open>None\<close> is a call that has not returned.\<close>

definition sendRequest ::
  "bool \<Rightarrow> int list \<Rightarrow> sock_event list \<Rightarrow> tcp_request \<Rightarrow> tcp_response option result option \<times> string" where
  "sendRequest valid sends es req =
     (if \<not> valid then (Some (Inr None), '''')
      else
        (case encode_request req of
           None \<Rightarrow> (Some (Inr None), '''')
         | Some bytes \<Rightarrow>
             (case trySendData sends bytes 0 of
                (None, out) \<Rightarrow> (None, out)
              | (Some False, out) \<Rightarrow> (Some (Inr None), out)
              | (Some True, out) \<Rightarrow> (Some (recv_response es []), out))))"

lemma recv_response_segments:
  assumes "clean_response resp" and "response_frame resp = buf @ concat cs"
    and "length (response_frame resp) < MAX_MESSAGE_SIZE" and "[] \<notin> set cs" and "cs \<noteq> []"
  shows "recv_response (map Arrive cs @ es) buf = Inr (Some resp)"
  using assms(2,4,5)
proof (induction cs arbitrary: buf)
  case (Cons c cs)
  have split: "response_frame resp = buf @ c @ concat cs" using Cons.prems by simp
  have "length c \<le> MAX_MESSAGE_SIZE - length buf" and "c \<noteq> []"
    using assms(3) split Cons.prems by auto
  moreover have "tryDecodeResponse (buf @ c) = (if concat cs = [] then Some resp else None)"
    using response_framing.feed [OF assms(1) split] by simp
  moreover have "concat cs = [] \<longleftrightarrow> cs = []" using Cons.prems by (cases cs) auto
  moreover have "cs \<noteq> [] \<Longrightarrow> recv_response (map Arrive cs @ es) (buf @ c) = Inr (Some resp)"
    using Cons.IH [of "buf @ c"] Cons.prems by simp
  ultimately show ?case
    by (subst recv_response.simps) (simp del: concat_eq_Nil_conv)
qed simp

text \<open>
  C20: request and reply, end to end. When a client with a valid connection sends a request whose
  text fits, and \<open>send\<close> makes progress, the bytes on the wire make the server call the registered
  callback with exactly this request; and the client returns exactly the response the callback gave,
  whatever way the network cuts the request and the reply into segments.
\<close>

theorem exchange_end_to_end:
  assumes "fits req" and "\<forall>n \<in> set sends. 1 \<le> n" and "length (request_frame req) \<le> length sends"
    and "cbs (endpoint req) = Some f" and "f (received_request req) = Inr resp"
    and "clean_response resp" and "encode_response resp = Some bytes"
    and "segments cs bytes" and "segments cs' (snd (sendRequest True sends (map Arrive cs) req))"
  shows "sendRequest True sends (map Arrive cs) req = (Some (Inr (Some resp)), request_frame req) \<and>
    handle_connection cbs (\<lambda>k. True) (map Arrive cs') [] [] =
      (Inr 0, [Called (received_request req), Replied bytes])"
proof -
  have ne: "request_frame req \<noteq> []" by (simp add: request_frame_def frame_def)
  then have "fst (trySendData sends (request_frame req) 0) = Some True"
    using assms(2,3) by (intro trySendData_progress) auto
  then obtain out where send: "trySendData sends (request_frame req) 0 = (Some True, out)"
    by (cases "trySendData sends (request_frame req) 0") simp
  then have out: "out = request_frame req"
    using trySendData_prefix [OF send] by auto
  have bytes: "bytes = response_frame resp" by (rule encode_response_frame [OF assms(7)])
  have "length bytes < MAX_MESSAGE_SIZE"
    using assms(7) by (auto simp: encode_response_def split: if_splits)
  moreover have "cs \<noteq> []" using assms(8) bytes by (auto simp: segments_def response_frame_def)
  ultimately have "recv_response (map Arrive cs @ []) [] = Inr (Some resp)"
    using assms(6,8) bytes by (intro recv_response_segments) (auto simp: segments_def)
  then have sent: "sendRequest True sends (map Arrive cs) req =
      (Some (Inr (Some resp)), request_frame req)"
    using send out encode_request_fits [OF assms(1)] by (simp add: sendRequest_def)
  have "list_all (served_by cbs) [(req, cs', bytes)]"
    using assms sent by (auto simp: served_by_def)
  from handle_connection_exchanges [OF this, of "\<lambda>k. True" "[]"] sent show ?thesis
    by (simp add: exchange_events_def exchange_trace_def)
qed

theorem exchange_end_to_end_witness:
  "sendRequest True (replicate 10 1) [Arrive ''O'', Arrive (''K'' @ [MESSAGE_END])] sample_vote =
     (Some (Inr (Some TCP_OK)), request_frame sample_vote) \<and>
   handle_connection ok_callbacks (\<lambda>k. True) [Arrive (request_frame sample_vote)] [] [] =
     (Inr 0, [Called (received_request sample_vote), Replied (''OK'' @ [MESSAGE_END])])"
proof -
  let ?sent = "snd (sendRequest True (replicate 10 1) (map Arrive [''O'', ''K'' @ [MESSAGE_END]]) sample_vote)"
  have sent: "?sent = request_frame sample_vote"
    by (simp add: sendRequest_def encode_request_def sample_vote_def request_frame_def frame_def
        eval_nat_numeral)
  have seg: "segments [request_frame sample_vote] ?sent"
    unfolding sent by (simp add: segments_def request_frame_def frame_def)
  have len: "length (request_frame sample_vote) \<le> length (replicate 10 (1 :: int))"
    by (simp add: request_frame_def frame_def sample_vote_def)
  have resp: "clean_response TCP_OK" "encode_response TCP_OK = Some (''OK'' @ [MESSAGE_END])"
    "segments [''O'', ''K'' @ [MESSAGE_END]] (''OK'' @ [MESSAGE_END])"
    by (simp_all add: clean_response_def TCP_OK_def encode_response_def segments_def)
  have cb: "ok_callbacks (endpoint sample_vote) = Some (\<lambda>req. Inr TCP_OK)"
    by (simp add: ok_callbacks_def registerCallback_def sample_vote_def)
  show ?thesis
    using exchange_end_to_end [where cbs = ok_callbacks and f = "\<lambda>req. Inr TCP_OK" and resp = TCP_OK,
        OF sample_vote_fits _ len cb refl resp seg] by simp
qed

text \<open>
  The client mishandles socket errors. If the first \<open>recv\<close> of a request that was sent in full
  reports an error, \<open>sendRequest\<close> does not return \<open>nullopt\<close>: the fill level wraps and the decoder
  runs over the end of the buffer.
\<close>

lemma sendRequest_recv_error:
  assumes "encode_request req = Some bytes" and "trySendData sends bytes 0 = (Some True, out)"
  shows "fst (sendRequest True sends (Fail # es) req) = Some (Inl Undefined_behaviour)"
  using assms by (simp add: sendRequest_def recv_response.simps)


lemma get_int_range: "get_int j = Inr i \<Longrightarrow> - (2 ^ 31) \<le> i \<and> i < 2 ^ 31"
  using sint_greater_eq [where 'a = 32] sint_less [where 'a = 32]
  by (auto simp: get_int_def split: json.splits option.splits if_splits)

lemma colon_notin_to_string_int: "CHR '':'' \<notin> set (to_string_int i)"
  using to_string_nat_digits [of "nat i"] to_string_nat_digits [of "nat (- i)"]
  by (auto simp: to_string_int_def list_all_iff dest: is_digit_facts)

text \<open>
  Node ids are addresses. For every configuration that loads and whose host name has no colon,
  a client constructed from the node's id connects to the configured host and port.
\<close>

lemma node_id_is_address:
  assumes "HostConfig data = Inr hc" and "CHR '':'' \<notin> set (hc_host hc)"
  shows "client_address (hc_id hc) = Inr (hc_host hc, hc_port hc)"
proof -
  have i: "hc_id hc = hc_host hc @ CHR '':'' # to_string_int (hc_port hc)"
    using HostConfig_Inr [OF assms(1)] by auto
  have "- (2 ^ 31) \<le> hc_port hc \<and> hc_port hc < 2 ^ 31"
    using assms(1) unfolding HostConfig_def Let_def
    by (elim bind_result_InrE) (auto dest!: get_int_range)
  then have "stoi (to_string_int (hc_port hc)) = Inr (hc_port hc)" by simp
  then show ?thesis using assms(2) by (simp add: i client_address_def)
qed


end
