(* ===== verification/Tcp_Server.thy ===== *)
theory Tcp_Server
  imports Tcp_Conn "HOL-Library.Multiset"
begin

text \<open>
  The server around the connections (\<open>TCPServer::run_server\<close> of \<open>Cornus/include/messaging/tcp.hpp\<close>):
  the socket addresses of both sides, the system calls that open the listening socket, and the accept
  loop, which gives every connection a detached thread of its own. The results of the system calls are
  inputs. The threads share nothing that the loop writes, so a thread is run in one step, at any time
  after its connection was accepted; an exception that leaves a thread ends the process.
\<close>

unbundle bit_operations_syntax

section \<open>Socket addresses\<close>

text \<open>A port in an address is in network byte order; the hosts are little-endian.\<close>

record sockaddr_in =
  sin_family :: nat
  sin_addr :: "32 word"
  sin_port :: "16 word"

abbreviation AF_INET :: nat where "AF_INET \<equiv> 2"
abbreviation INADDR_ANY :: "32 word" where "INADDR_ANY \<equiv> 0"

definition htons :: "16 word \<Rightarrow> 16 word" where
  "htons w = push_bit 8 w OR drop_bit 8 w"

definition ntohs :: "16 word \<Rightarrow> 16 word" where
  "ntohs w = push_bit 8 w OR drop_bit 8 w"

definition make_server_sockaddr :: "int \<Rightarrow> sockaddr_in" where
  "make_server_sockaddr port =
     \<lparr>sin_family = AF_INET, sin_addr = INADDR_ANY, sin_port = htons (word_of_int port)\<rparr>"

text \<open>\<open>resolve\<close> is \<open>gethostbyname\<close>.\<close>

definition make_client_sockaddr ::
  "(string \<Rightarrow> 32 word option) \<Rightarrow> string \<Rightarrow> int \<Rightarrow> sockaddr_in option" where
  "make_client_sockaddr resolve hostname port =
     (case resolve hostname of
        None \<Rightarrow> None
      | Some addr \<Rightarrow>
          Some \<lparr>sin_family = AF_INET, sin_addr = addr, sin_port = htons (word_of_int port)\<rparr>)"

text \<open>The argument is what \<open>getsockname\<close> reports; \<open>None\<close> is its error.\<close>

definition get_port_number :: "sockaddr_in option \<Rightarrow> int" where
  "get_port_number name = (case name of None \<Rightarrow> - 1 | Some addr \<Rightarrow> uint (ntohs (sin_port addr)))"

lemma ntohs_htons [simp]: "ntohs (htons w) = w"
  by (rule bit_word_eqI) (auto simp: ntohs_def htons_def bit_simps)

text \<open>Ports outside the range wrap, on both sides alike.\<close>

lemma get_port_number_bound:
  "get_port_number (Some (make_server_sockaddr port)) = port mod 2 ^ 16"
  by (simp add: get_port_number_def make_server_sockaddr_def uint_word_of_int take_bit_eq_mod)

lemma client_reaches_port:
  "make_client_sockaddr resolve hostname port = Some addr \<Longrightarrow>
     sin_port addr = sin_port (make_server_sockaddr port)"
  by (auto simp: make_client_sockaddr_def make_server_sockaddr_def split: option.splits)

section \<open>Opening the listening socket\<close>

record system_calls =
  sys_socket :: int
  sys_setsockopt :: int
  sys_bind :: "sockaddr_in \<Rightarrow> int"
  sys_getsockname :: "sockaddr_in option"
  sys_listen :: "int \<Rightarrow> int"

type_synonym connection = "(nat \<Rightarrow> bool) \<times> sock_event list"

datatype server_status =
    Serving
  | Returned int             \<comment> \<open>\<open>run_server\<close> has returned; its threads go on\<close>
  | Terminated cxx_error     \<comment> \<open>an exception left a thread (\<open>std::terminate\<close>), or undefined behaviour in one\<close>

text \<open>
  \<open>ts_open\<close> counts the descriptors that the server holds: a connection is closed where
  \<open>handle_connection\<close> returns 0, and by none of its error returns.
\<close>

record tcp_server =
  ts_status :: server_status
  ts_port :: int
  ts_open :: nat
  ts_threads :: "connection list"
  ts_served :: "(connection \<times> int \<times> conn_event list) list"

definition open_server :: "system_calls \<Rightarrow> int \<Rightarrow> int \<Rightarrow> tcp_server" where
  "open_server sys port queue_size =
     (let sv = \<lparr>ts_status = Returned (- 1), ts_port = port, ts_open = 1, ts_threads = [], ts_served = []\<rparr>
      in if sys_socket sys = - 1 then sv\<lparr>ts_open := 0\<rparr>
         else if sys_setsockopt sys = - 1 then sv
         else if sys_bind sys (make_server_sockaddr port) = - 1 then sv
         else
           (let sv = sv\<lparr>ts_port := get_port_number (sys_getsockname sys)\<rparr>
            in if sys_listen sys queue_size = - 1 then sv else sv\<lparr>ts_status := Serving\<rparr>))"

section \<open>The accept loop and its threads\<close>

datatype server_action = Accept "connection option" | Run_thread nat

definition end_thread ::
  "connection \<Rightarrow> nat \<Rightarrow> int result \<times> conn_event list \<Rightarrow> tcp_server \<Rightarrow> tcp_server" where
  "end_thread c i res sv =
     (case res of
        (Inl e, tr) \<Rightarrow> sv\<lparr>ts_status := Terminated e\<rparr>
      | (Inr r, tr) \<Rightarrow>
          sv\<lparr>ts_threads := take i (ts_threads sv) @ drop (Suc i) (ts_threads sv),
             ts_served := ts_served sv @ [(c, r, tr)],
             ts_open := if r = 0 then ts_open sv - 1 else ts_open sv\<rparr>)"

fun server_step :: "callbacks \<Rightarrow> server_action \<Rightarrow> tcp_server \<Rightarrow> tcp_server option" where
  "server_step cbs (Accept arrival) sv =
     (if ts_status sv \<noteq> Serving then None
      else
        (case arrival of
           None \<Rightarrow> Some (sv\<lparr>ts_status := Returned (- 1)\<rparr>)
         | Some c \<Rightarrow> Some (sv\<lparr>ts_threads := ts_threads sv @ [c], ts_open := Suc (ts_open sv)\<rparr>)))"
| "server_step cbs (Run_thread i) sv =
     (case ts_status sv of
        Terminated e \<Rightarrow> None
      | _ \<Rightarrow>
          if i < length (ts_threads sv)
          then (let c = ts_threads sv ! i
                in Some (end_thread c i (handle_connection cbs (fst c) (snd c) [] []) sv))
          else None)"

fun server_run :: "callbacks \<Rightarrow> server_action list \<Rightarrow> tcp_server \<Rightarrow> tcp_server option" where
  "server_run cbs [] sv = Some sv"
| "server_run cbs (a # acts) sv =
     (case server_step cbs a sv of None \<Rightarrow> None | Some sv' \<Rightarrow> server_run cbs acts sv')"

text \<open>\<open>runServer\<close>; \<open>None\<close> while the loop runs and when the process has ended.\<close>

definition runServer :: "tcp_server \<Rightarrow> int option" where
  "runServer sv = (case ts_status sv of Returned r \<Rightarrow> Some (if r = - 1 then 1 else 0) | _ \<Rightarrow> None)"

fun accepted_by :: "server_action list \<Rightarrow> connection list" where
  "accepted_by [] = []"
| "accepted_by (Accept (Some c) # acts) = c # accepted_by acts"
| "accepted_by (_ # acts) = accepted_by acts"

lemma server_run_append:
  "server_run cbs (acts @ acts') sv =
     (case server_run cbs acts sv of None \<Rightarrow> None | Some sv' \<Rightarrow> server_run cbs acts' sv')"
  by (induction acts arbitrary: sv) (auto split: option.split)

section \<open>What becomes of the connections\<close>

abbreviation connection_result :: "callbacks \<Rightarrow> connection \<Rightarrow> int result \<times> conn_event list" where
  "connection_result cbs c \<equiv> handle_connection cbs (fst c) (snd c) [] []"

text \<open>
  The invariant of the loop: \<open>cs\<close> are the connections accepted so far and \<open>base\<close> the descriptors of
  the open server. Each connection still has its thread or was served with its own result, a
  descriptor stays open for each thread and for each connection that ended in an error, and the
  process has only ended because of the exception of some connection.
\<close>

definition own_result :: "callbacks \<Rightarrow> connection \<times> int \<times> conn_event list \<Rightarrow> bool" where
  "own_result cbs x = (case x of (c, r, tr) \<Rightarrow> connection_result cbs c = (Inr r, tr))"

definition accounts_for :: "callbacks \<Rightarrow> nat \<Rightarrow> connection list \<Rightarrow> tcp_server \<Rightarrow> bool" where
  "accounts_for cbs base cs sv \<longleftrightarrow>
     mset cs = mset (ts_threads sv) + mset (map fst (ts_served sv)) \<and>
     (\<forall>x \<in> set (ts_served sv). own_result cbs x) \<and>
     ts_open sv = base + length (ts_threads sv) + length (filter (\<lambda>(c, r, tr). r \<noteq> 0) (ts_served sv)) \<and>
     (\<forall>e. ts_status sv = Terminated e \<longrightarrow> (\<exists>c \<in> set cs. fst (connection_result cbs c) = Inl e))"

lemma accounts_for_open: "accounts_for cbs (ts_open (open_server sys port q)) [] (open_server sys port q)"
  by (simp add: accounts_for_def open_server_def Let_def)

lemma mset_nth_removed:
  "i < length xs \<Longrightarrow> mset xs = add_mset (xs ! i) (mset (take i xs @ drop (Suc i) xs))"
  by (subst id_take_nth_drop [of i xs]) simp_all

lemma accounts_for_end_thread:
  assumes "accounts_for cbs base cs sv" and "i < length (ts_threads sv)"
    and "\<And>e. ts_status sv \<noteq> Terminated e"
  shows "accounts_for cbs base cs
    (end_thread (ts_threads sv ! i) i (connection_result cbs (ts_threads sv ! i)) sv)"
proof -
  let ?c = "ts_threads sv ! i"
  obtain res tr where res: "connection_result cbs ?c = (res, tr)" by (cases "connection_result cbs ?c")
  note removed = mset_nth_removed [OF assms(2)]
  from removed have "?c \<in># mset cs" using assms(1) by (auto simp: accounts_for_def)
  then have c: "?c \<in> set cs" by simp
  show ?thesis
  proof (cases res)
    case (Inl e)
    with res c assms(1) show ?thesis by (auto simp: accounts_for_def end_thread_def intro!: bexI [of _ ?c])
  next
    case (Inr r)
    with res assms removed show ?thesis
      by (auto simp: accounts_for_def end_thread_def own_result_def [of cbs "(ts_threads sv ! i, r, tr)"])
  qed
qed

lemma accounts_for_step:
  assumes "accounts_for cbs base cs sv" and "server_step cbs a sv = Some sv'"
  shows "accounts_for cbs base (cs @ accepted_by [a]) sv'"
proof (cases a)
  case (Accept arrival)
  with assms show ?thesis
    by (auto simp: accounts_for_def split: option.splits if_splits)
next
  case (Run_thread i)
  with assms accounts_for_end_thread [OF assms(1), of i] show ?thesis
    by (auto simp: Let_def split: server_status.splits if_splits)
qed

lemma accepted_by_Cons: "accepted_by (a # acts) = accepted_by [a] @ accepted_by acts"
proof (cases a)
  case (Accept arrival)
  then show ?thesis by (cases arrival) simp_all
qed simp

lemma accounts_for_run:
  assumes "accounts_for cbs base cs sv" and "server_run cbs acts sv = Some sv'"
  shows "accounts_for cbs base (cs @ accepted_by acts) sv'"
  using assms
proof (induction acts arbitrary: cs sv)
  case (Cons a acts)
  then obtain sv1 where "server_step cbs a sv = Some sv1" "server_run cbs acts sv1 = Some sv'"
    by (auto split: option.splits)
  with Cons.IH [OF accounts_for_step [OF Cons.prems(1)]] show ?case
    by (simp add: accepted_by_Cons [of a acts])
qed simp

definition sample_calls :: system_calls where
  "sample_calls = \<lparr>sys_socket = 3, sys_setsockopt = 0, sys_bind = (\<lambda>addr. 0),
     sys_getsockname = Some (make_server_sockaddr 8000), sys_listen = (\<lambda>queue_size. 0)\<rparr>"

definition sample_connection :: connection where
  "sample_connection = (\<lambda>k. True, [Arrive (request_frame sample_vote)])"

section \<open>Clients that wait for their replies\<close>

definition client_of :: "callbacks \<Rightarrow> exchange list \<Rightarrow> connection \<Rightarrow> bool" where
  "client_of cbs xs c \<longleftrightarrow>
     list_all (served_by cbs) xs \<and> snd c = concat (map exchange_events xs) \<and> (\<forall>k. fst c k)"

lemma client_of_result:
  "client_of cbs xs c \<Longrightarrow> connection_result cbs c = (Inr 0, concat (map exchange_trace xs))"
  by (simp add: client_of_def handle_connection_exchanges)

lemma clients_not_terminated:
  assumes "accounts_for cbs base cs sv" and "\<forall>c \<in> set cs. \<exists>xs. client_of cbs xs c"
  shows "ts_status sv \<noteq> Terminated e"
  using assms by (fastforce simp: accounts_for_def dest: client_of_result)

lemma clients_served:
  assumes "accounts_for cbs base cs sv" and "\<forall>c \<in> set cs. \<exists>xs. client_of cbs xs c"
    and "(c, r, tr) \<in> set (ts_served sv)"
  shows "r = 0 \<and> (\<exists>xs. client_of cbs xs c \<and> tr = concat (map exchange_trace xs))"
proof -
  have "c \<in># mset (map fst (ts_served sv))" using assms(3) by force
  then have "c \<in># mset cs" using assms(1) by (simp add: accounts_for_def)
  then obtain xs where xs: "client_of cbs xs c" using assms(2) by auto
  moreover have "connection_result cbs c = (Inr r, tr)"
    using assms(1,3) by (auto simp: accounts_for_def own_result_def)
  ultimately show ?thesis using client_of_result [OF xs] by auto
qed

lemma clients_open:
  assumes "accounts_for cbs base cs sv" and "\<forall>c \<in> set cs. \<exists>xs. client_of cbs xs c"
  shows "ts_open sv = base + length (ts_threads sv)"
proof -
  have "filter (\<lambda>(c, r, tr). r \<noteq> 0) (ts_served sv) = []"
    using clients_served [OF assms] by (auto simp: filter_empty_conv)
  then show ?thesis using assms(1) by (simp add: accounts_for_def)
qed

text \<open>The oldest thread first, until no thread is left.\<close>

lemma clients_finish:
  assumes "accounts_for cbs base cs sv" and "\<forall>c \<in> set cs. \<exists>xs. client_of cbs xs c"
    and "n = length (ts_threads sv)"
  shows "\<exists>sv'. server_run cbs (replicate n (Run_thread 0)) sv = Some sv' \<and> ts_threads sv' = []"
  using assms
proof (induction n arbitrary: sv)
  case (Suc n)
  obtain c ts where ts: "ts_threads sv = c # ts" using Suc.prems(3) by (cases "ts_threads sv") auto
  then have "c \<in># mset cs" using Suc.prems(1) by (simp add: accounts_for_def)
  then obtain xs where xs: "client_of cbs xs c" using Suc.prems(2) by auto
  let ?sv = "end_thread c 0 (connection_result cbs c) sv"
  have step: "server_step cbs (Run_thread 0) sv = Some ?sv"
    using ts clients_not_terminated [OF Suc.prems(1,2)] by (auto split: server_status.split)
  moreover have "accounts_for cbs base cs ?sv"
    using accounts_for_step [OF Suc.prems(1) step] by simp
  moreover have "n = length (ts_threads ?sv)"
    using Suc.prems(3) ts by (simp add: end_thread_def client_of_result [OF xs])
  ultimately show ?case using Suc.IH [of ?sv] Suc.prems(2) by simp
qed simp

text \<open>
  C21: clients that wait for their replies are served, all of them. As long as every accepted connection
  comes from such a client, no thread ends the process and no descriptor is lost; every connection that
  was served ended normally, with the callback called and the reply written for each of its requests in
  order; and from every state the remaining threads can be run until every accepted connection has
  been served and only the listening socket is left.
\<close>

theorem server_serves_clients:
  assumes "server_run cbs acts (open_server sys port queue_size) = Some sv"
    and "\<forall>c \<in> set (accepted_by acts). \<exists>xs. client_of cbs xs c"
  shows "(\<forall>e. ts_status sv \<noteq> Terminated e) \<and>
    (\<forall>(c, r, tr) \<in> set (ts_served sv).
      r = 0 \<and> (\<exists>xs. client_of cbs xs c \<and> tr = concat (map exchange_trace xs))) \<and>
    (\<exists>sv'. server_run cbs (replicate (length (ts_threads sv)) (Run_thread 0)) sv = Some sv' \<and>
      mset (map fst (ts_served sv')) = mset (accepted_by acts) \<and>
      (\<forall>(c, r, tr) \<in> set (ts_served sv'). \<exists>xs. client_of cbs xs c \<and> tr = concat (map exchange_trace xs)) \<and>
      ts_open sv' = ts_open (open_server sys port queue_size))"
    (is "?alive \<and> ?served \<and> ?finish")
proof (intro conjI)
  note acc = accounts_for_run [OF accounts_for_open assms(1), simplified]
  show ?alive using clients_not_terminated [OF acc assms(2)] by simp
  show ?served using clients_served [OF acc assms(2)] by auto
  obtain sv' where run: "server_run cbs (replicate (length (ts_threads sv)) (Run_thread 0)) sv = Some sv'"
    and none: "ts_threads sv' = []"
    using clients_finish [OF acc assms(2) refl] by auto
  have "accepted_by (replicate n (Run_thread 0)) = []" for n by (induction n) simp_all
  then have "accounts_for cbs (ts_open (open_server sys port queue_size)) (accepted_by acts) sv'"
    using accounts_for_run [OF acc run] by simp
  with run none clients_open [OF this assms(2)] clients_served [OF this assms(2)] show ?finish
    by (auto simp: accounts_for_def)
qed

theorem server_serves_clients_witness:
  "\<exists>sv sv'. server_run ok_callbacks [Accept (Some sample_connection), Accept None]
       (open_server sample_calls 8000 10) = Some sv \<and> runServer sv = Some 1 \<and>
     server_run ok_callbacks [Run_thread 0] sv = Some sv' \<and> ts_open sv' = 1"
proof -
  obtain sv where sv: "server_run ok_callbacks [Accept (Some sample_connection), Accept None]
      (open_server sample_calls 8000 10) = Some sv" "length (ts_threads sv) = 1" "runServer sv = Some 1"
    by (simp add: open_server_def sample_calls_def runServer_def)
  have "client_of ok_callbacks [(sample_vote, [request_frame sample_vote], ''OK'' @ [MESSAGE_END])]
      sample_connection"
    using sample_vote_fits
    by (simp add: client_of_def sample_connection_def exchange_events_def served_by_def segments_def
        ok_callbacks_def registerCallback_def TCP_OK_def encode_response_def request_frame_def frame_def
        sample_vote_def)
  then have "\<forall>c \<in> set (accepted_by [Accept (Some sample_connection), Accept None]).
      \<exists>xs. client_of ok_callbacks xs c" by auto
  from server_serves_clients [OF sv(1) this] sv show ?thesis
    by (auto simp: open_server_def sample_calls_def)
qed

section \<open>A client that does not wait\<close>

lemma server_step_terminated: "ts_status sv = Terminated e \<Longrightarrow> server_step cbs a sv = None"
  by (cases a) simp_all

text \<open>
  C22: one client can end the server. From every state in which the server listens, whatever the other
  connections are doing, a client that sends a complete request and, in the same segment, the next one
  up to its header delimiter makes its thread throw \<open>length_error\<close>; nothing catches it, so the process
  ends, and the connections that still had threads are not served any more.
\<close>

theorem server_terminated_by_partial_request:
  assumes "server_run cbs acts (open_server sys port queue_size) = Some sv" and "ts_status sv = Serving"
    and "fits r" and "clean_text ep" and "clean_text part"
    and "length (request_frame r @ ep @ [HEADER_DELIM] @ part) \<le> MAX_MESSAGE_SIZE"
  shows "\<exists>sv'. server_run cbs
      (acts @ [Accept (Some (send_ok, [Arrive (request_frame r @ ep @ [HEADER_DELIM] @ part)])),
         Run_thread (length (ts_threads sv))]) (open_server sys port queue_size) = Some sv' \<and>
    ts_status sv' = Terminated Length_error \<and> ts_served sv' = ts_served sv \<and>
    (\<forall>a. server_step cbs a sv' = None)"
proof -
  let ?bytes = "request_frame r @ ep @ [HEADER_DELIM] @ part"
  have "serve_buffer cbs send_ok ?bytes [] = Leave (Inl Length_error) []"
    using getRequest_partial_second_throws [OF assms(3-6)] by (simp add: serve_buffer_def)
  then have "connection_result cbs (send_ok, [Arrive ?bytes]) = (Inl Length_error, [])"
    using assms(6) by (subst handle_connection.simps) simp
  then show ?thesis
    using assms(1,2) by (simp add: server_run_append end_thread_def nth_append server_step_terminated)
qed

theorem server_terminated_by_partial_request_witness:
  "\<exists>sv'. server_run ok_callbacks
      ([] @ [Accept (Some (\<lambda>k. True,
               [Arrive (request_frame sample_vote @ ''ABORT'' @ [HEADER_DELIM] @ ''y'')])),
         Run_thread 0]) (open_server sample_calls 8000 10) = Some sv' \<and>
    ts_status sv' = Terminated Length_error"
proof -
  let ?sv = "open_server sample_calls 8000 10"
  have "ts_status ?sv = Serving" "ts_threads ?sv = []"
    by (simp_all add: open_server_def sample_calls_def)
  moreover have "length (request_frame sample_vote @ ''ABORT'' @ [HEADER_DELIM] @ ''y'') \<le> MAX_MESSAGE_SIZE"
    by (simp add: request_frame_def frame_def sample_vote_def)
  ultimately show ?thesis
    using server_terminated_by_partial_request [of ok_callbacks "[]" sample_calls 8000 10 ?sv sample_vote
        "''ABORT''" "''y''" "\<lambda>k. True"] by auto
qed

end
