(* ===== verification/Event_Timer.thy ===== *)
theory Event_Timer
  imports Json_Value "HOL-Library.Code_Target_Nat" "HOL-Library.Code_Target_Int"
begin

text \<open>
  The event timer of the handlers (\<open>Cornus/include/lib/timer.hpp\<close>): the recorded events with their
  times, and the summary that a handler prints when it is destroyed. Times are ticks of the
  high-resolution clock (nanoseconds); their differences are printed as seconds, computed in \<open>double\<close>
  and written the way a stream writes a \<open>double\<close> by default (six significant digits).
\<close>

section \<open>Writing a \<open>double\<close>\<close>

text \<open>The exponent of the first digit of the positive fraction \<open>n / d\<close> in decimal notation.\<close>

definition first_place :: "nat \<Rightarrow> nat \<Rightarrow> int" where
  "first_place n d =
     (let k = int (length (nat_digits n)) - int (length (nat_digits d))
      in if d * 10 ^ nat k \<le> n * 10 ^ nat (- k) then k else k - 1)"

text \<open>The fraction rounded to six digits: the digits as a number, and the place of the first.\<close>

definition six_digits :: "nat \<Rightarrow> nat \<Rightarrow> nat \<times> int" where
  "six_digits n d =
     (let x = first_place n d; q = round_half_even (n * 10 ^ nat (5 - x)) (d * 10 ^ nat (x - 5))
      in if q = 10 ^ 6 then (10 ^ 5, x + 1) else (q, x))"

definition strip_zeros :: "string \<Rightarrow> string" where
  "strip_zeros s = rev (dropWhile (\<lambda>c. c = CHR ''0'') (rev s))"

definition with_point :: "string \<Rightarrow> string \<Rightarrow> string" where
  "with_point whole frac =
     (let f = strip_zeros frac in if f = [] then whole else whole @ CHR ''.'' # f)"

definition exponent_text :: "int \<Rightarrow> string" where
  "exponent_text x =
     (let ds = to_string_nat (nat \<bar>x\<bar>)
      in CHR ''e'' # (if x < 0 then CHR ''-'' else CHR ''+'') # (if length ds < 2 then CHR ''0'' # ds else ds))"

fun write_double :: "double \<Rightarrow> string" where
  "write_double (Infinite neg) = (if neg then ''-inf'' else ''inf'')"
| "write_double (Finite neg m e) =
     (if neg then ''-'' else []) @
     (if m = 0 then ''0''
      else
        (let (q, x) = six_digits (m * 2 ^ nat e) (2 ^ nat (- e)); ds = to_string_nat q
         in if x < - 4 \<or> 6 \<le> x then with_point (take 1 ds) (drop 1 ds) @ exponent_text x
            else if 0 \<le> x then with_point (take (nat x + 1) ds) (drop (nat x + 1) ds)
            else with_point ''0'' (replicate (nat (- x) - 1) (CHR ''0'') @ ds)))"

section \<open>The timer\<close>

record time_event =
  te_time :: int
  te_event :: string

type_synonym event_timer = "time_event list"

text \<open>\<open>record\<close> at time \<open>now\<close>.\<close>

definition timer_record :: "int \<Rightarrow> string \<Rightarrow> event_timer \<Rightarrow> event_timer" where
  "timer_record now event events = events @ [\<lparr>te_time = now, te_event = event\<rparr>]"

text \<open>\<open>duration_cast\<close> to seconds: both operands of the division are converted to \<open>double\<close> first.\<close>

definition seconds :: "int \<Rightarrow> double" where
  "seconds ticks =
     (case nearest_double (ticks < 0) (nat \<bar>ticks\<bar>) 1 of
        Finite neg m e \<Rightarrow> nearest_double neg (m * 2 ^ nat e) (10 ^ 9 * 2 ^ nat (- e))
      | Infinite neg \<Rightarrow> Infinite neg)"

fun dump_intervals :: "event_timer \<Rightarrow> string" where
  "dump_intervals (s # e # es) =
     ''{'' @ te_event s @ '' to '' @ te_event e @ ''='' @
     write_double (seconds (te_time e - te_time s)) @ ''}'' @ dump_intervals (e # es)"
| "dump_intervals es = []"

definition dump :: "event_timer \<Rightarrow> string" where
  "dump events = ''EventSummary: {'' @ dump_intervals events @ ''}''"

lemma dump_intervals_record:
  assumes "events \<noteq> []"
  shows "dump_intervals (timer_record now event events) =
    dump_intervals events @ ''{'' @ te_event (last events) @ '' to '' @ event @ ''='' @
    write_double (seconds (now - te_time (last events))) @ ''}''"
  using assms by (induction events rule: dump_intervals.induct) (auto simp: timer_record_def)

text \<open>An event adds its own interval to the summary and leaves the intervals before it alone.\<close>

lemma dump_record:
  "dump (timer_record now event events) =
     (if events = [] then dump []
      else butlast (dump events) @ ''{'' @ te_event (last events) @ '' to '' @ event @ ''='' @
        write_double (seconds (now - te_time (last events))) @ ''}}'')"
  using dump_intervals_record [of events now event]
  by (auto simp: dump_def butlast_append) (simp add: timer_record_def)

lemma seconds_sample: "seconds 1234567890 = Finite False 5559999489367579 (- 52)"
proof -
  note nearest = nearest_double_def last_place_def bit_length.simps scale_numerator_def
    scale_denominator_def round_half_even_def Let_def
  have "nearest_double False 1234567890 1 = Finite False 5178153039298560 (- 22)"
    and "nearest_double False 5178153039298560 (10 ^ 9 * 2 ^ 22) = Finite False 5559999489367579 (- 52)"
    by (simp_all add: nearest)
  then show ?thesis by (simp add: seconds_def)
qed

lemma dump_sample:
  "dump [\<lparr>te_time = 5, te_event = ''start-replicator''\<rparr>, \<lparr>te_time = 1234567895, te_event = ''completed''\<rparr>] =
     ''EventSummary: {{start-replicator to completed=1.23457}}''"
proof -
  have "six_digits 5559999489367579 (2 ^ 52) = (123457, 0)"
    by (simp add: six_digits_def first_place_def nat_digits.simps round_half_even_def)
  moreover have "to_string_nat 123457 = ''123457''" by code_simp
  ultimately show ?thesis by (simp add: dump_def seconds_sample with_point_def strip_zeros_def)
qed

end
