(* ===== verification/Dbms_Log.thy ===== *)
theory Dbms_Log
  imports Cornus_Prelude
begin

text \<open>
  The simulated DBMS (\<open>DBMS/include/log.hpp\<close>, \<open>logManager.hpp\<close>, \<open>types.hpp\<close>, \<open>DBMS/main.cpp\<close>):
  the two kinds of logs, the manager with its nested maps, and the HTTP handlers. The operations of
  a log hold the log's mutex, and the lookup of a log holds the manager's, so each request acts on
  the store in one atomic step; the artificial latency is not modelled.
\<close>

section \<open>The logs\<close>

text \<open>
  A transaction log holds one decision. An operation returns the reference to it (here its value)
  together with the new decision.
\<close>

definition checkUndefinedInput :: "string \<Rightarrow> unit result" where
  "checkUndefinedInput data =
     (if data \<noteq> ''ABORT'' \<and> data \<noteq> ''COMMIT'' \<and> data \<noteq> ''VOTEYES''
      then Inl (Runtime_error ''Got decision that wasn't COMMIT, ABORT, or VOTE-YES!'')
      else Inr ())"

definition TransactionLog_LOG_READ :: "string \<Rightarrow> string" where
  "TransactionLog_LOG_READ decision = decision"

definition TransactionLog_LOG_WRITE :: "string \<Rightarrow> string \<Rightarrow> (string \<times> string) result" where
  "TransactionLog_LOG_WRITE data decision =
     bind_result (checkUndefinedInput data) (\<lambda>_. Inr (data, data))"

definition TransactionLog_LOG_ONCE :: "string \<Rightarrow> string \<Rightarrow> (string \<times> string) result" where
  "TransactionLog_LOG_ONCE data decision =
     (if decision \<noteq> ''WORKING'' then Inr (decision, decision)
      else bind_result (checkUndefinedInput data) (\<lambda>_. Inr (data, data)))"

text \<open>A data log accumulates entries separated by semicolons; a write returns its own input.\<close>

definition DataLog_LOG_READ :: "string \<Rightarrow> string" where
  "DataLog_LOG_READ entries = entries"

definition DataLog_LOG_WRITE :: "string \<Rightarrow> string \<Rightarrow> (string \<times> string) result" where
  "DataLog_LOG_WRITE data entries =
     Inr (data, (if entries \<noteq> '''' then entries @ '';'' else entries) @ data)"

definition DataLog_LOG_ONCE :: "string \<Rightarrow> string \<Rightarrow> (string \<times> string) result" where
  "DataLog_LOG_ONCE data entries = Inl (Runtime_error ''LOG ONCE NOT FOR DATA LOGS!'')"

record log_pair =
  dataLog :: string
  transactionLog :: string

definition new_log_pair :: log_pair where
  "new_log_pair = \<lparr>dataLog = '''', transactionLog = ''WORKING''\<rparr>"

section \<open>The log manager\<close>

datatype log_type = DataLog | TransactionLog

record log_address =
  la_txId :: transaction_id
  la_clientId :: string
  la_type :: log_type

type_synonym client_log_store = "string \<rightharpoonup> log_pair"
type_synonym log_store = "transaction_id \<rightharpoonup> client_log_store"

text \<open>\<open>logs[txId][clientId]\<close>: both maps create a missing entry.\<close>

definition getLogPair :: "log_address \<Rightarrow> log_store \<Rightarrow> log_pair \<times> log_store" where
  "getLogPair addr logs =
     (let transactionLogs = (case logs (la_txId addr) of None \<Rightarrow> Map.empty | Some m \<Rightarrow> m);
          logPair = (case transactionLogs (la_clientId addr) of None \<Rightarrow> new_log_pair | Some p \<Rightarrow> p)
      in (logPair, logs(la_txId addr \<mapsto> transactionLogs(la_clientId addr \<mapsto> logPair))))"

text \<open>Writing through the reference that \<open>getLogPair\<close> returned.\<close>

definition setLogPair :: "log_address \<Rightarrow> log_pair \<Rightarrow> log_store \<Rightarrow> log_store" where
  "setLogPair addr pair logs =
     (case logs (la_txId addr) of
        None \<Rightarrow> logs
      | Some m \<Rightarrow> logs(la_txId addr \<mapsto> m(la_clientId addr \<mapsto> pair)))"

definition apply_log ::
  "log_address \<Rightarrow> (log_type \<Rightarrow> log_pair \<Rightarrow> (string \<times> log_pair) result) \<Rightarrow> log_store \<Rightarrow>
   string result \<times> log_store" where
  "apply_log addr f logs =
     (case getLogPair addr logs of
        (pair, logs') \<Rightarrow>
          (case f (la_type addr) pair of
             Inl err \<Rightarrow> (Inl err, logs')
           | Inr (out, pair') \<Rightarrow> (Inr out, setLogPair addr pair' logs')))"

definition LogManager_LOG_ONCE :: "log_address \<Rightarrow> string \<Rightarrow> log_store \<Rightarrow> string result \<times> log_store" where
  "LogManager_LOG_ONCE addr data = apply_log addr (\<lambda>ty pair.
     if ty = DataLog
     then bind_result (DataLog_LOG_ONCE data (dataLog pair)) (\<lambda>(out, d). Inr (out, pair\<lparr>dataLog := d\<rparr>))
     else bind_result (TransactionLog_LOG_ONCE data (transactionLog pair))
            (\<lambda>(out, d). Inr (out, pair\<lparr>transactionLog := d\<rparr>)))"

definition LogManager_LOG_READ :: "log_address \<Rightarrow> string \<Rightarrow> log_store \<Rightarrow> string result \<times> log_store" where
  "LogManager_LOG_READ addr data = apply_log addr (\<lambda>ty pair.
     if ty = DataLog then Inr (DataLog_LOG_READ (dataLog pair), pair)
     else Inr (TransactionLog_LOG_READ (transactionLog pair), pair))"

definition LogManager_LOG_WRITE :: "log_address \<Rightarrow> string \<Rightarrow> log_store \<Rightarrow> string result \<times> log_store" where
  "LogManager_LOG_WRITE addr data = apply_log addr (\<lambda>ty pair.
     if ty = DataLog
     then bind_result (DataLog_LOG_WRITE data (dataLog pair)) (\<lambda>(out, d). Inr (out, pair\<lparr>dataLog := d\<rparr>))
     else bind_result (TransactionLog_LOG_WRITE data (transactionLog pair))
            (\<lambda>(out, d). Inr (out, pair\<lparr>transactionLog := d\<rparr>)))"

section \<open>The HTTP handlers\<close>

text \<open>
  The path parameters of a request are a map; \<open>at\<close> throws for a missing one. An exception in a
  handler becomes status 500 with an empty body (the HTTP library catches it).
\<close>

type_synonym path_params = "string \<rightharpoonup> string"

definition path_param :: "string \<Rightarrow> path_params \<Rightarrow> string result" where
  "path_param k ps = (case ps k of None \<Rightarrow> Inl Out_of_range | Some v \<Rightarrow> Inr v)"

definition getLogAddress :: "path_params \<Rightarrow> log_address result" where
  "getLogAddress ps =
     bind_result (path_param ''txId'' ps) (\<lambda>transactionId.
     bind_result (path_param ''clId'' ps) (\<lambda>clientId.
     bind_result (path_param ''dOrt'' ps) (\<lambda>dataOrTransaction.
     bind_result (stoul transactionId) (\<lambda>tx.
       if dataOrTransaction = ''DATA''
       then Inr \<lparr>la_txId = tx, la_clientId = clientId, la_type = DataLog\<rparr>
       else if dataOrTransaction = ''TRANSACTION''
       then Inr \<lparr>la_txId = tx, la_clientId = clientId, la_type = TransactionLog\<rparr>
       else Inl (Runtime_error ''Unknown log type!'')))))"

record http_response =
  status :: nat
  body :: string

definition http_result :: "string result \<Rightarrow> http_response" where
  "http_result r = (case r of
       Inl err \<Rightarrow> \<lparr>status = 500, body = ''''\<rparr>
     | Inr content \<Rightarrow> \<lparr>status = 200, body = content\<rparr>)"

definition route ::
  "(log_address \<Rightarrow> log_store \<Rightarrow> string result \<times> log_store) \<Rightarrow> path_params \<Rightarrow> log_store \<Rightarrow>
   http_response \<times> log_store" where
  "route f ps logs =
     (case getLogAddress ps of
        Inl err \<Rightarrow> (http_result (Inl err), logs)
      | Inr addr \<Rightarrow> (case f addr logs of (r, logs') \<Rightarrow> (http_result r, logs')))"

definition handle_LOG_READ :: "path_params \<Rightarrow> log_store \<Rightarrow> http_response \<times> log_store" where
  "handle_LOG_READ = route (\<lambda>addr. LogManager_LOG_READ addr '''')"

definition handle_LOG_WRITE :: "path_params \<Rightarrow> string \<Rightarrow> log_store \<Rightarrow> http_response \<times> log_store" where
  "handle_LOG_WRITE ps content = route (\<lambda>addr. LogManager_LOG_WRITE addr content) ps"

definition handle_LOG_ONCE :: "path_params \<Rightarrow> string \<Rightarrow> log_store \<Rightarrow> http_response \<times> log_store" where
  "handle_LOG_ONCE ps content = route (\<lambda>addr. LogManager_LOG_ONCE addr content) ps"

section \<open>The store as a flat map\<close>

text \<open>
  The abstract view of the nested maps: every log exists, with its initial value until it is first
  touched. Looking a log up creates it, which this view does not notice.
\<close>

type_synonym log_key = "transaction_id \<times> string"

definition addr_key :: "log_address \<Rightarrow> log_key" where
  "addr_key addr = (la_txId addr, la_clientId addr)"

definition flat :: "log_store \<Rightarrow> log_key \<Rightarrow> log_pair" where
  "flat logs k =
     (case logs (fst k) of None \<Rightarrow> new_log_pair
      | Some m \<Rightarrow> (case m (snd k) of None \<Rightarrow> new_log_pair | Some p \<Rightarrow> p))"

definition decisions :: "log_store \<Rightarrow> log_key \<Rightarrow> string" where
  "decisions logs k = transactionLog (flat logs k)"

definition data_entries :: "log_store \<Rightarrow> log_key \<Rightarrow> string" where
  "data_entries logs k = dataLog (flat logs k)"

lemma flat_empty [simp]: "flat Map.empty k = new_log_pair"
  by (simp add: flat_def)

lemma getLogPair_flat:
  "fst (getLogPair addr logs) = flat logs (addr_key addr) \<and> flat (snd (getLogPair addr logs)) = flat logs"
  by (auto simp: getLogPair_def flat_def addr_key_def Let_def fun_eq_iff split: option.split)

lemma setLogPair_flat:
  "flat (setLogPair addr p (snd (getLogPair addr logs))) = (flat logs)(addr_key addr := p)"
  by (auto simp: setLogPair_def getLogPair_def flat_def addr_key_def Let_def fun_eq_iff
      split: option.split)

lemma apply_log_flat:
  "apply_log addr f logs =
     (case f (la_type addr) (flat logs (addr_key addr)) of
        Inl err \<Rightarrow> (Inl err, snd (getLogPair addr logs))
      | Inr (out, p) \<Rightarrow> (Inr out, setLogPair addr p (snd (getLogPair addr logs))))"
  using getLogPair_flat [of addr logs]
  by (cases "getLogPair addr logs") (auto simp: apply_log_def split: sum.split)

lemmas log_manager_defs =
  LogManager_LOG_ONCE_def LogManager_LOG_READ_def LogManager_LOG_WRITE_def
  TransactionLog_LOG_ONCE_def TransactionLog_LOG_READ_def TransactionLog_LOG_WRITE_def
  DataLog_LOG_ONCE_def DataLog_LOG_READ_def DataLog_LOG_WRITE_def checkUndefinedInput_def

definition valid_decision :: "string \<Rightarrow> bool" where
  "valid_decision d \<longleftrightarrow> d \<in> {''ABORT'', ''COMMIT'', ''VOTEYES''}"

text \<open>
  What the three operations promise on transaction logs, over a map from keys to decisions. An
  undefined input is rejected and changes nothing, but \<open>LOG_ONCE\<close> only looks at its input when the
  log is still open.
\<close>

definition spec_read :: "log_key \<Rightarrow> (log_key \<Rightarrow> string) \<Rightarrow> string \<times> (log_key \<Rightarrow> string)" where
  "spec_read k D = (D k, D)"

definition spec_write :: "log_key \<Rightarrow> string \<Rightarrow> (log_key \<Rightarrow> string) \<Rightarrow> string option \<times> (log_key \<Rightarrow> string)" where
  "spec_write k d D = (if valid_decision d then (Some d, D(k := d)) else (None, D))"

definition spec_once :: "log_key \<Rightarrow> string \<Rightarrow> (log_key \<Rightarrow> string) \<Rightarrow> string option \<times> (log_key \<Rightarrow> string)" where
  "spec_once k d D = (if D k = ''WORKING'' then spec_write k d D else (Some (D k), D))"

definition ok_value :: "'a result \<Rightarrow> 'a option" where
  "ok_value r = (case r of Inl _ \<Rightarrow> None | Inr x \<Rightarrow> Some x)"

definition tx_address :: "log_key \<Rightarrow> log_address" where
  "tx_address k = \<lparr>la_txId = fst k, la_clientId = snd k, la_type = TransactionLog\<rparr>"

lemma addr_key_tx_address [simp]: "addr_key (tx_address k) = k"
  by (simp add: addr_key_def tx_address_def)

lemma la_type_tx_address [simp]: "la_type (tx_address k) = TransactionLog"
  by (simp add: tx_address_def)

lemma decisions_getLogPair [simp]: "decisions (snd (getLogPair a logs)) = decisions logs"
  by (simp add: decisions_def fun_eq_iff getLogPair_flat)

lemma decisions_setLogPair [simp]:
  "decisions (setLogPair a p (snd (getLogPair a logs))) = (decisions logs)(addr_key a := transactionLog p)"
  by (simp add: decisions_def fun_eq_iff setLogPair_flat)

lemma transactionLog_flat: "transactionLog (flat logs k) = decisions logs k"
  by (simp add: decisions_def)

lemma LOG_ONCE_spec:
  "LogManager_LOG_ONCE (tx_address k) d logs = (r, logs') \<Longrightarrow>
   spec_once k d (decisions logs) = (ok_value r, decisions logs')"
  by (auto simp: log_manager_defs apply_log_flat spec_once_def spec_write_def ok_value_def
      valid_decision_def transactionLog_flat split: if_splits)

lemma LOG_WRITE_spec:
  "LogManager_LOG_WRITE (tx_address k) d logs = (r, logs') \<Longrightarrow>
   spec_write k d (decisions logs) = (ok_value r, decisions logs')"
  by (auto simp: log_manager_defs apply_log_flat spec_write_def ok_value_def valid_decision_def
      split: if_splits)

lemma LOG_READ_spec:
  "LogManager_LOG_READ (tx_address k) d logs = (r, logs') \<Longrightarrow>
   (case spec_read k (decisions logs) of (d', D) \<Rightarrow> (Some d', D)) = (ok_value r, decisions logs')"
  by (auto simp: log_manager_defs apply_log_flat spec_read_def ok_value_def transactionLog_flat)

lemma data_entries_getLogPair [simp]: "data_entries (snd (getLogPair a logs)) = data_entries logs"
  by (simp add: data_entries_def fun_eq_iff getLogPair_flat)

lemma data_entries_setLogPair [simp]:
  "data_entries (setLogPair a p (snd (getLogPair a logs))) = (data_entries logs)(addr_key a := dataLog p)"
  by (simp add: data_entries_def fun_eq_iff setLogPair_flat)

lemma dataLog_flat: "dataLog (flat logs k) = data_entries logs k"
  by (simp add: data_entries_def)

lemma transaction_ops_keep_data:
  "data_entries (snd (LogManager_LOG_ONCE (tx_address k) d logs)) = data_entries logs"
  "data_entries (snd (LogManager_LOG_WRITE (tx_address k) d logs)) = data_entries logs"
  "data_entries (snd (LogManager_LOG_READ (tx_address k) d logs)) = data_entries logs"
  by (auto simp: log_manager_defs apply_log_flat dataLog_flat)

text \<open>
  C13: the nested, lazily filled maps of the log manager implement the flat specification. On every
  store and for every key and input, the three transaction-log operations return what the
  specification says, leave the decisions it says, and touch no other log and no data log.
\<close>

theorem log_manager_refines_spec:
  "spec_once k d (decisions logs) =
     (ok_value (fst (LogManager_LOG_ONCE (tx_address k) d logs)),
      decisions (snd (LogManager_LOG_ONCE (tx_address k) d logs))) \<and>
   spec_write k d (decisions logs) =
     (ok_value (fst (LogManager_LOG_WRITE (tx_address k) d logs)),
      decisions (snd (LogManager_LOG_WRITE (tx_address k) d logs))) \<and>
   (ok_value (fst (LogManager_LOG_READ (tx_address k) d logs)),
    decisions (snd (LogManager_LOG_READ (tx_address k) d logs))) =
     (Some (fst (spec_read k (decisions logs))), snd (spec_read k (decisions logs))) \<and>
   data_entries (snd (LogManager_LOG_ONCE (tx_address k) d logs)) = data_entries logs \<and>
   data_entries (snd (LogManager_LOG_WRITE (tx_address k) d logs)) = data_entries logs"
  using LOG_ONCE_spec [of k d logs] LOG_WRITE_spec [of k d logs] LOG_READ_spec [of k d logs]
    transaction_ops_keep_data [of k d logs]
  by (cases "LogManager_LOG_ONCE (tx_address k) d logs";
      cases "LogManager_LOG_WRITE (tx_address k) d logs";
      cases "LogManager_LOG_READ (tx_address k) d logs") (simp add: spec_read_def)

section \<open>Write-once registers\<close>

text \<open>
  The contract that the commit protocol needs from the store: a family of registers, each of which
  the first proposal decides.
\<close>

locale once_store =
  fixes once :: "'k \<Rightarrow> 'v \<Rightarrow> 's \<Rightarrow> 'v \<times> 's"
    and chosen :: "'k \<Rightarrow> 's \<Rightarrow> 'v option"
    and proposable :: "'v \<Rightarrow> bool"
  assumes once_decided: "chosen k s = Some w \<Longrightarrow> fst (once k v s) = w"
    and once_open: "chosen k s = None \<Longrightarrow> proposable v \<Longrightarrow> fst (once k v s) = v"
    and chosen_once: "proposable v \<Longrightarrow>
      chosen k' (snd (once k v s)) =
        (if k' = k then Some (case chosen k s of Some w \<Rightarrow> w | None \<Rightarrow> v) else chosen k' s)"

fun call_all :: "('k \<Rightarrow> 'v \<Rightarrow> 's \<Rightarrow> 'v \<times> 's) \<Rightarrow> ('k \<times> 'v) list \<Rightarrow> 's \<Rightarrow> 'v list \<times> 's" where
  "call_all once [] s = ([], s)"
| "call_all once ((k, v) # calls) s =
     (case once k v s of (r, s') \<Rightarrow> case call_all once calls s' of (rs, s'') \<Rightarrow> (r # rs, s''))"

context once_store begin

definition first_choice :: "('k \<times> 'v) list \<Rightarrow> 's \<Rightarrow> 'k \<Rightarrow> 'v option" where
  "first_choice calls s k = (case chosen k s of Some w \<Rightarrow> Some w | None \<Rightarrow> map_of calls k)"

lemma first_choice_once:
  "proposable v \<Longrightarrow> first_choice calls (snd (once k v s)) = first_choice ((k, v) # calls) s"
  by (auto simp: first_choice_def chosen_once fun_eq_iff split: option.split)

lemma call_all_agree:
  assumes "\<forall>(k, v) \<in> set calls. proposable v"
  shows "map Some (fst (call_all once calls s)) = map (\<lambda>(k, v). first_choice calls s k) calls \<and>
    (\<forall>k. chosen k (snd (call_all once calls s)) = first_choice calls s k)"
  using assms
proof (induction calls arbitrary: s)
  case Nil
  then show ?case by (simp add: first_choice_def split: option.split)
next
  case (Cons c calls)
  obtain k v where c: "c = (k, v)" by (cases c)
  obtain r s' where o: "once k v s = (r, s')" by (cases "once k v s")
  have v: "proposable v" using Cons.prems c by auto
  have fc: "first_choice calls s' = first_choice (c # calls) s"
    using first_choice_once [OF v, of calls k s] o c by simp
  have "Some r = first_choice (c # calls) s k"
    using once_decided [of k s _ v] once_open [of k s v] v o c
    by (cases "chosen k s") (auto simp: first_choice_def)
  then show ?case
    using Cons.IH [of s'] Cons.prems c o fc by (auto split: prod.splits)
qed

end

definition tx_once :: "log_key \<Rightarrow> string \<Rightarrow> log_store \<Rightarrow> string \<times> log_store" where
  "tx_once k d logs =
     (case LogManager_LOG_ONCE (tx_address k) d logs of (r, logs') \<Rightarrow> (body (http_result r), logs'))"

definition tx_chosen :: "log_key \<Rightarrow> log_store \<Rightarrow> string option" where
  "tx_chosen k logs = (if decisions logs k = ''WORKING'' then None else Some (decisions logs k))"

lemma valid_decision_not_working: "valid_decision d \<Longrightarrow> d \<noteq> ''WORKING''"
  by (auto simp: valid_decision_def)

lemma tx_once_spec:
  "fst (tx_once k d logs) = (case fst (spec_once k d (decisions logs)) of None \<Rightarrow> '''' | Some x \<Rightarrow> x)"
  "decisions (snd (tx_once k d logs)) = snd (spec_once k d (decisions logs))"
  using LOG_ONCE_spec [of k d logs]
  by (cases "LogManager_LOG_ONCE (tx_address k) d logs";
      auto simp: tx_once_def http_result_def ok_value_def split: sum.splits)+

interpretation tx_log: once_store tx_once tx_chosen valid_decision
  by unfold_locales
     (auto simp: tx_once_spec tx_chosen_def spec_once_def spec_write_def
       dest: valid_decision_not_working split: if_splits)

text \<open>
  C8: \<open>LOG_ONCE\<close> decides every log once and for all. For any interleaving of \<open>LOG_ONCE\<close> calls of
  any clients on any logs, each call returns the value of its log before the calls, if there was
  one, and otherwise the first proposal made for that log; so all callers on a log agree, and the
  log ends with that value.
\<close>

theorem LOG_ONCE_consensus:
  assumes "\<forall>(k, d) \<in> set calls. valid_decision d"
  shows "map Some (fst (call_all tx_once calls logs)) =
      map (\<lambda>(k, d). case tx_chosen k logs of Some w \<Rightarrow> Some w | None \<Rightarrow> map_of calls k) calls \<and>
    (\<forall>k. tx_chosen k (snd (call_all tx_once calls logs)) =
      (case tx_chosen k logs of Some w \<Rightarrow> Some w | None \<Rightarrow> map_of calls k))"
  using tx_log.call_all_agree [OF assms, of logs] unfolding tx_log.first_choice_def .

theorem LOG_ONCE_consensus_witness:
  "fst (call_all tx_once
     [((7, ''a''), ''VOTEYES''), ((7, ''b''), ''ABORT''), ((7, ''a''), ''ABORT''), ((7, ''b''), ''VOTEYES'')]
     Map.empty) = [''VOTEYES'', ''ABORT'', ''VOTEYES'', ''ABORT'']"
proof -
  let ?calls = "[((7 :: transaction_id, ''a''), ''VOTEYES''), ((7, ''b''), ''ABORT''),
    ((7, ''a''), ''ABORT''), ((7, ''b''), ''VOTEYES'')]"
  have "\<forall>(k, d) \<in> set ?calls. valid_decision d" by (simp add: valid_decision_def)
  from LOG_ONCE_consensus [OF this, of Map.empty]
  have "map Some (fst (call_all tx_once ?calls Map.empty)) =
      map Some [''VOTEYES'', ''ABORT'', ''VOTEYES'', ''ABORT'']"
    by (simp add: tx_chosen_def decisions_def new_log_pair_def)
  then show ?thesis by (simp only: inj_map_eq_map inj_Some)
qed

section \<open>The life of a transaction log\<close>

datatype log_entry = Working | Voted_yes | Committed | Aborted

text \<open>How far a log has come: open, then a vote, then a decision.\<close>

instantiation log_entry :: order
begin

definition less_eq_log_entry :: "log_entry \<Rightarrow> log_entry \<Rightarrow> bool" where
  "less_eq_log_entry x y \<longleftrightarrow> x = y \<or> x = Working \<or> (x = Voted_yes \<and> y \<noteq> Working)"

definition less_log_entry :: "log_entry \<Rightarrow> log_entry \<Rightarrow> bool" where
  "less_log_entry x y \<longleftrightarrow> x \<le> y \<and> \<not> y \<le> (x :: log_entry)"

instance
  by standard (auto simp: less_eq_log_entry_def less_log_entry_def)

end

fun entry_string :: "log_entry \<Rightarrow> string" where
  "entry_string Working = ''WORKING''"
| "entry_string Voted_yes = ''VOTEYES''"
| "entry_string Committed = ''COMMIT''"
| "entry_string Aborted = ''ABORT''"

definition wf_store :: "log_store \<Rightarrow> bool" where
  "wf_store logs \<longleftrightarrow> (\<forall>k. decisions logs k \<in> range entry_string)"

lemma range_entry_string: "range entry_string = {''WORKING'', ''VOTEYES'', ''COMMIT'', ''ABORT''}"
proof -
  have all: "UNIV = {Working, Voted_yes, Committed, Aborted}" by (auto intro: log_entry.exhaust)
  show ?thesis unfolding all by simp
qed

lemma wf_store_empty: "wf_store Map.empty"
  by (simp add: wf_store_def decisions_def new_log_pair_def range_entry_string)

datatype log_request =
    Read log_address
  | Write log_address string
  | Once log_address string

fun serve :: "log_request \<Rightarrow> log_store \<Rightarrow> string result \<times> log_store" where
  "serve (Read a) logs = LogManager_LOG_READ a '''' logs"
| "serve (Write a d) logs = LogManager_LOG_WRITE a d logs"
| "serve (Once a d) logs = LogManager_LOG_ONCE a d logs"

lemma decisions_apply_log:
  "decisions (snd (apply_log a f logs)) =
   (case f (la_type a) (flat logs (addr_key a)) of
      Inl _ \<Rightarrow> decisions logs
    | Inr (_, p) \<Rightarrow> (decisions logs)(addr_key a := transactionLog p))"
  by (simp add: apply_log_flat split: sum.split prod.split)

lemma check_valid:
  "checkUndefinedInput d =
   (if valid_decision d then Inr ()
    else Inl (Runtime_error ''Got decision that wasn't COMMIT, ABORT, or VOTE-YES!''))"
  by (auto simp: checkUndefinedInput_def valid_decision_def)

lemma decisions_serve_simps:
  "decisions (snd (serve (Read a) logs)) = decisions logs"
  "decisions (snd (serve (Write a d) logs)) =
     (if la_type a = TransactionLog \<and> valid_decision d then (decisions logs)(addr_key a := d)
      else decisions logs)"
  "decisions (snd (serve (Once a d) logs)) =
     (if la_type a = TransactionLog \<and> valid_decision d \<and> decisions logs (addr_key a) = ''WORKING''
      then (decisions logs)(addr_key a := d) else decisions logs)"
  by (cases "la_type a";
      simp add: LogManager_LOG_READ_def LogManager_LOG_WRITE_def LogManager_LOG_ONCE_def
        decisions_apply_log TransactionLog_LOG_READ_def TransactionLog_LOG_WRITE_def
        TransactionLog_LOG_ONCE_def DataLog_LOG_READ_def DataLog_LOG_WRITE_def
        DataLog_LOG_ONCE_def transactionLog_flat dataLog_flat check_valid)+

lemma decisions_serve:
  "decisions (snd (serve req logs)) = decisions logs \<or>
   (\<exists>k d. valid_decision d \<and> decisions (snd (serve req logs)) = (decisions logs)(k := d))"
  by (cases req) (auto simp del: serve.simps split_paired_Ex split_paired_All
      simp: decisions_serve_simps)

fun serve_all :: "log_request list \<Rightarrow> log_store \<Rightarrow> log_store" where
  "serve_all [] logs = logs"
| "serve_all (req # reqs) logs = serve_all reqs (snd (serve req logs))"

lemma wf_store_serve: "wf_store logs \<Longrightarrow> wf_store (snd (serve req logs))"
  using decisions_serve [of req logs]
proof (elim disjE exE conjE)
  fix k d
  assume wf: "wf_store logs" and d: "valid_decision d"
    and eq: "decisions (snd (serve req logs)) = (decisions logs)(k := d)"
  have "d \<in> range entry_string" using d by (auto simp: valid_decision_def range_entry_string)
  with wf show ?thesis by (simp add: wf_store_def eq)
qed (simp add: wf_store_def)

text \<open>
  C32: the store is well formed whatever clients send. After any sequence of requests, with any
  addresses and any bodies, starting from the empty store, every transaction log holds one of the
  four values of its life cycle.
\<close>

theorem serve_all_wf: "wf_store (serve_all reqs Map.empty)"
proof -
  have "wf_store logs \<Longrightarrow> wf_store (serve_all reqs logs)" for logs
    by (induction reqs arbitrary: logs) (simp_all add: wf_store_serve)
  then show ?thesis by (simp add: wf_store_empty)
qed

definition log_entry_at :: "log_store \<Rightarrow> log_key \<Rightarrow> log_entry \<Rightarrow> bool" where
  "log_entry_at logs k e \<longleftrightarrow> decisions logs k = entry_string e"

lemma entry_string_inj [simp]: "entry_string x = entry_string y \<longleftrightarrow> x = y"
  by (cases x; cases y) simp_all

text \<open>
  C33: without overwrites a log only moves forward: \<open>LOG_ONCE\<close> and \<open>LOG_READ\<close> requests never take
  an entry backwards, and they never change an entry that is past \<open>WORKING\<close>.
\<close>

theorem once_and_read_monotone:
  assumes "\<forall>req \<in> set reqs. \<forall>a d. req \<noteq> Write a d"
    and "log_entry_at logs k e" and "log_entry_at (serve_all reqs logs) k e'"
  shows "e \<le> e' \<and> (e \<noteq> Working \<longrightarrow> e' = e)"
proof -
  have "decisions logs k \<noteq> ''WORKING'' \<Longrightarrow> decisions (serve_all reqs logs) k = decisions logs k"
    using assms(1)
  proof (induction reqs arbitrary: logs)
    case (Cons req reqs)
    have "decisions (snd (serve req logs)) k = decisions logs k"
      using Cons.prems
      by (cases req) (auto simp del: serve.simps simp: decisions_serve_simps)
    with Cons show ?case by simp
  qed simp
  then show ?thesis
    using assms(2,3) by (cases e; cases e') (auto simp: log_entry_at_def less_eq_log_entry_def)
qed

definition sample_key :: log_key where
  "sample_key = (7, ''b:2'')"

theorem once_and_read_monotone_witness:
  "Voted_yes \<le> Voted_yes \<and>
   log_entry_at (serve_all [Once (tx_address sample_key) ''ABORT'']
     (snd (tx_once sample_key ''VOTEYES'' Map.empty))) sample_key Voted_yes"
proof -
  let ?logs = "snd (tx_once sample_key ''VOTEYES'' Map.empty)"
  let ?logs' = "serve_all [Once (tx_address sample_key) ''ABORT''] ?logs"
  have d: "decisions ?logs sample_key = ''VOTEYES''"
    by (simp add: tx_once_spec spec_once_def spec_write_def valid_decision_def decisions_def
        new_log_pair_def)
  then have a: "log_entry_at ?logs sample_key Voted_yes" by (simp add: log_entry_at_def)
  have b: "log_entry_at ?logs' sample_key Voted_yes"
    using d by (simp add: log_entry_at_def log_manager_defs apply_log_flat transactionLog_flat)
  show ?thesis
    using once_and_read_monotone [OF _ a b] b by simp
qed

end
