(* ===== verification/Dbms_Client.thy ===== *)
theory Dbms_Client
  imports Dbms_Log
begin

text \<open>
  The way from a node to the DBMS: the client interface of \<open>Cornus/include/messaging/dbms.hpp\<close>,
  which turns an operation into an HTTP path, the path matcher of the bundled HTTP library (the
  same file under \<open>Cornus/include/lib\<close> and \<open>DBMS/include\<close>) and the routes of \<open>DBMS/main.cpp\<close>. Requests
  and answers are records here; their bytes on a connection, with the encoding of the path, are the
  subject of \<open>Http_Exchange\<close>.
\<close>

section \<open>Requests of the client\<close>

datatype client_log_type = DATA | TRANSACTION

datatype db_op =
    LOG_ONCE string transaction_id host client_log_type
  | LOG_WRITE string transaction_id host client_log_type
  | LOG_READ transaction_id host client_log_type

definition getPath :: "string \<Rightarrow> transaction_id \<Rightarrow> host \<Rightarrow> client_log_type \<Rightarrow> string" where
  "getPath ep txId hostId logType =
     ''/'' @ ep @ ''/'' @ to_string_u64 txId @ ''/'' @ hostId @ ''/'' @
     (if logType = DATA then ''DATA'' else ''TRANSACTION'')"

datatype http_method = Get | Post

record http_request =
  hr_method :: http_method
  hr_path :: string
  hr_body :: string

text \<open>The request that each function of \<open>SimulatedDBMSImpl\<close> makes.\<close>

fun db_request :: "db_op \<Rightarrow> http_request" where
  "db_request (LOG_ONCE r t h ty) =
     \<lparr>hr_method = Post, hr_path = getPath ''LOG_ONCE'' t h ty, hr_body = r\<rparr>"
| "db_request (LOG_WRITE r t h ty) =
     \<lparr>hr_method = Post, hr_path = getPath ''LOG_WRITE'' t h ty, hr_body = r\<rparr>"
| "db_request (LOG_READ t h ty) =
     \<lparr>hr_method = Get, hr_path = getPath ''LOG_READ'' t h ty, hr_body = ''''\<rparr>"

text \<open>
  The result of a call. A transport error is reported on the console only; then \<open>res->body\<close>
  dereferences the empty result.
\<close>

definition db_response :: "http_response option \<Rightarrow> string result" where
  "db_response res = (case res of None \<Rightarrow> Inl Undefined_behaviour | Some r \<Rightarrow> Inr (body r))"

definition db_call ::
  "(http_request \<Rightarrow> 'w \<Rightarrow> http_response option \<times> 'w) \<Rightarrow> db_op \<Rightarrow> 'w \<Rightarrow> string result \<times> 'w" where
  "db_call transport op w =
     (case transport (db_request op) w of (res, w') \<Rightarrow> (db_response res, w'))"

section \<open>The path matcher of the HTTP library\<close>

lemma length_behind: "d \<in> set s \<Longrightarrow> length (drop 1 (dropWhile (\<lambda>c. c \<noteq> d) s)) < length s"
  using length_dropWhile_le [of "\<lambda>c. c \<noteq> d" s] by (cases s) auto

text \<open>The constructor: static fragments and parameter names of a pattern.\<close>

function split_pattern :: "string \<Rightarrow> string list \<times> string list" where
  "split_pattern s =
     (if CHR '':'' \<in> set s then
        (let frag = takeWhile (\<lambda>c. c \<noteq> CHR '':'') s;
             name_on = drop 1 (dropWhile (\<lambda>c. c \<noteq> CHR '':'') s);
             name = takeWhile (\<lambda>c. c \<noteq> CHR ''/'') name_on;
             rest = drop 1 (dropWhile (\<lambda>c. c \<noteq> CHR ''/'') name_on)
         in (case split_pattern rest of (frags, names) \<Rightarrow> (frag # frags, name # names)))
      else ((if s = '''' then [] else [s]), []))"
  by pat_completeness auto

termination
proof (relation "measure length")
  fix s frag name_on name rest
  assume "CHR '':'' \<in> set s" and on: "name_on = drop 1 (dropWhile (\<lambda>c. c \<noteq> CHR '':'') s)"
    and rest: "rest = drop 1 (dropWhile (\<lambda>c. c \<noteq> CHR ''/'') name_on)"
  then have "length name_on < length s" using length_behind [of "CHR '':''" s] by simp
  moreover have "length rest \<le> length name_on"
    using length_dropWhile_le [of "\<lambda>c. c \<noteq> CHR ''/''" name_on] rest by simp
  ultimately show "(rest, s) \<in> measure length" by simp
qed simp

declare split_pattern.simps [simp del]

text \<open>
  \<open>match\<close>: the position runs over the request path; behind a parameter it skips one separator, so
  it may end up one past the end. Parameters are emplaced, so the first value of a name stays.
\<close>

fun match_from ::
  "string \<Rightarrow> nat \<Rightarrow> string list \<Rightarrow> string list \<Rightarrow> path_params \<Rightarrow> path_params option" where
  "match_from path pos [] names ps = (if length path \<le> pos then Some ps else None)"
| "match_from path pos (frag # frags) names ps =
     (if length path < pos + length frag then None
      else if take (length frag) (drop pos path) \<noteq> frag then None
      else
        (let pos' = pos + length frag
         in case names of
              [] \<Rightarrow> match_from path pos' frags [] ps
            | name # names' \<Rightarrow>
                (let value = takeWhile (\<lambda>c. c \<noteq> CHR ''/'') (drop pos' path)
                 in match_from path (pos' + length value + 1) frags names'
                      (if ps name = None then ps(name \<mapsto> value) else ps))))"

definition path_match :: "string \<Rightarrow> string \<Rightarrow> path_params option" where
  "path_match pattern path =
     (case split_pattern pattern of (frags, names) \<Rightarrow> match_from path 0 frags names Map.empty)"

section \<open>The routes of the DBMS\<close>

definition dbms_server :: "http_request \<Rightarrow> log_store \<Rightarrow> http_response \<times> log_store" where
  "dbms_server req logs =
     (case hr_method req of
        Get \<Rightarrow>
          (case path_match ''/LOG_READ/:txId/:clId/:dOrt'' (hr_path req) of
             Some ps \<Rightarrow> handle_LOG_READ ps logs
           | None \<Rightarrow> (\<lparr>status = 404, body = ''''\<rparr>, logs))
      | Post \<Rightarrow>
          (case path_match ''/LOG_WRITE/:txId/:clId/:dOrt'' (hr_path req) of
             Some ps \<Rightarrow> handle_LOG_WRITE ps (hr_body req) logs
           | None \<Rightarrow>
               (case path_match ''/LOG_ONCE/:txId/:clId/:dOrt'' (hr_path req) of
                  Some ps \<Rightarrow> handle_LOG_ONCE ps (hr_body req) logs
                | None \<Rightarrow> (\<lparr>status = 404, body = ''''\<rparr>, logs))))"

text \<open>A call over a connection that works, to a DBMS that is up.\<close>

definition dbms_transport :: "http_request \<Rightarrow> log_store \<Rightarrow> http_response option \<times> log_store" where
  "dbms_transport req logs = (case dbms_server req logs of (resp, logs') \<Rightarrow> (Some resp, logs'))"

definition dbms_call :: "db_op \<Rightarrow> log_store \<Rightarrow> string result \<times> log_store" where
  "dbms_call = db_call dbms_transport"

section \<open>The path is understood\<close>

lemma split_pattern_routes:
  "split_pattern ''/LOG_READ/:txId/:clId/:dOrt'' = ([''/LOG_READ/'', '''', ''''], [''txId'', ''clId'', ''dOrt''])"
  "split_pattern ''/LOG_WRITE/:txId/:clId/:dOrt'' = ([''/LOG_WRITE/'', '''', ''''], [''txId'', ''clId'', ''dOrt''])"
  "split_pattern ''/LOG_ONCE/:txId/:clId/:dOrt'' = ([''/LOG_ONCE/'', '''', ''''], [''txId'', ''clId'', ''dOrt''])"
  by (simp_all add: split_pattern.simps)

lemma match_from_param:
  assumes "CHR ''/'' \<notin> set v"
  shows "match_from (pre @ v @ CHR ''/'' # rest) (length pre) ('''' # frags) (n # names) ps =
    match_from ((pre @ v @ ''/'') @ rest) (length (pre @ v @ ''/'')) frags names
      (if ps n = None then ps(n \<mapsto> v) else ps)"
  using assms by (simp add: Let_def)

lemma match_from_last:
  assumes "CHR ''/'' \<notin> set v"
  shows "match_from (pre @ v) (length pre) [''''] [n] ps =
    Some (if ps n = None then ps(n \<mapsto> v) else ps)"
  using assms by (simp add: Let_def)

lemma match_from_frag:
  "match_from (frag @ s) 0 (frag # frags) (n # names) ps =
   match_from (frag @ s) (length frag) ('''' # frags) (n # names) ps"
  by (simp add: Let_def)

declare match_from.simps [simp del]

lemma match_three:
  assumes "CHR ''/'' \<notin> set a" and "CHR ''/'' \<notin> set b" and "CHR ''/'' \<notin> set c"
  shows "match_from (frag @ a @ ''/'' @ b @ ''/'' @ c) 0 [frag, '''', ''''] [''txId'', ''clId'', ''dOrt'']
      Map.empty = Some [''txId'' \<mapsto> a, ''clId'' \<mapsto> b, ''dOrt'' \<mapsto> c]"
proof -
  let ?p2 = "frag @ a @ CHR ''/'' # []"
  have "match_from (frag @ a @ ''/'' @ b @ ''/'' @ c) 0 [frag, '''', ''''] [''txId'', ''clId'', ''dOrt''] Map.empty =
      match_from (frag @ a @ CHR ''/'' # (b @ ''/'' @ c)) (length frag) ('''' # ['''', ''''])
        (''txId'' # [''clId'', ''dOrt'']) Map.empty"
    unfolding match_from_frag by simp
  also have "\<dots> = match_from (?p2 @ b @ CHR ''/'' # c) (length ?p2) ('''' # ['''']) (''clId'' # [''dOrt''])
      [''txId'' \<mapsto> a]"
    unfolding match_from_param [OF assms(1)] by simp
  also have "\<dots> = match_from ((?p2 @ b @ ''/'') @ c) (length (?p2 @ b @ ''/'')) [''''] [''dOrt'']
      [''txId'' \<mapsto> a, ''clId'' \<mapsto> b]"
    unfolding match_from_param [OF assms(2)] by simp
  also have "\<dots> = Some [''txId'' \<mapsto> a, ''clId'' \<mapsto> b, ''dOrt'' \<mapsto> c]"
    unfolding match_from_last [OF assms(3)] by simp
  finally show ?thesis .
qed
definition server_log_type :: "client_log_type \<Rightarrow> log_type" where
  "server_log_type ty = (case ty of DATA \<Rightarrow> DataLog | TRANSACTION \<Rightarrow> TransactionLog)"

definition db_path_params :: "transaction_id \<Rightarrow> host \<Rightarrow> client_log_type \<Rightarrow> path_params" where
  "db_path_params t h ty =
     [''txId'' \<mapsto> to_string_u64 t, ''clId'' \<mapsto> h,
      ''dOrt'' \<mapsto> (if ty = DATA then ''DATA'' else ''TRANSACTION'')]"

lemma slash_notin_txid: "CHR ''/'' \<notin> set (to_string_u64 t)"
  by (auto dest: set_to_string_u64 is_digit_facts)

lemma getPath_matches:
  assumes "CHR ''/'' \<notin> set h"
  shows "match_from (getPath ep t h ty) 0 [''/'' @ ep @ ''/'', '''', ''''] [''txId'', ''clId'', ''dOrt'']
    Map.empty = Some (db_path_params t h ty)"
  using match_three [OF slash_notin_txid assms, of "if ty = DATA then ''DATA'' else ''TRANSACTION''"
      "''/'' @ ep @ ''/''" t]
  by (simp add: getPath_def db_path_params_def)

lemma getLogAddress_params:
  "getLogAddress (db_path_params t h ty) =
   Inr \<lparr>la_txId = t, la_clientId = h, la_type = server_log_type ty\<rparr>"
  by (cases ty) (simp_all add: getLogAddress_def path_param_def db_path_params_def server_log_type_def)

lemma routes_match:
  assumes "CHR ''/'' \<notin> set h"
  shows "path_match ''/LOG_READ/:txId/:clId/:dOrt'' (getPath ''LOG_READ'' t h ty) = Some (db_path_params t h ty)"
    and "path_match ''/LOG_WRITE/:txId/:clId/:dOrt'' (getPath ''LOG_WRITE'' t h ty) = Some (db_path_params t h ty)"
    and "path_match ''/LOG_WRITE/:txId/:clId/:dOrt'' (getPath ''LOG_ONCE'' t h ty) = None"
    and "path_match ''/LOG_ONCE/:txId/:clId/:dOrt'' (getPath ''LOG_ONCE'' t h ty) = Some (db_path_params t h ty)"
  using getPath_matches [OF assms, of "''LOG_READ''" t ty] getPath_matches [OF assms, of "''LOG_WRITE''" t ty]
    getPath_matches [OF assms, of "''LOG_ONCE''" t ty]
  by (simp_all add: path_match_def split_pattern_routes) (simp add: getPath_def match_from.simps)

text \<open>The operation of the log manager that a client operation stands for.\<close>

fun manager_op :: "db_op \<Rightarrow> log_store \<Rightarrow> string result \<times> log_store" where
  "manager_op (LOG_ONCE d t h ty) = LogManager_LOG_ONCE \<lparr>la_txId = t, la_clientId = h, la_type = server_log_type ty\<rparr> d"
| "manager_op (LOG_WRITE d t h ty) = LogManager_LOG_WRITE \<lparr>la_txId = t, la_clientId = h, la_type = server_log_type ty\<rparr> d"
| "manager_op (LOG_READ t h ty) = LogManager_LOG_READ \<lparr>la_txId = t, la_clientId = h, la_type = server_log_type ty\<rparr> ''''"

fun op_host :: "db_op \<Rightarrow> host" where
  "op_host (LOG_ONCE d t h ty) = h"
| "op_host (LOG_WRITE d t h ty) = h"
| "op_host (LOG_READ t h ty) = h"

lemma dbms_call_manager:
  assumes "CHR ''/'' \<notin> set (op_host op)"
  shows "dbms_call op logs =
    (case manager_op op logs of (r, logs') \<Rightarrow> (Inr (body (http_result r)), logs'))"
  using assms
  by (cases op)
     (auto simp: dbms_call_def db_call_def dbms_transport_def dbms_server_def db_response_def
       routes_match handle_LOG_READ_def handle_LOG_WRITE_def handle_LOG_ONCE_def route_def
       getLogAddress_params split: prod.splits)

text \<open>
  C17: a node's DBMS call reaches the log it names. For every operation, transaction id and host name
  without a slash, the path the client builds is matched by the right route only, parsed back to the
  same transaction id, client and log kind, and the operation's result is what the node gets; the
  errors of the DBMS come back as an empty string.
\<close>

theorem dbms_call_reaches_log:
  assumes "CHR ''/'' \<notin> set (op_host op)"
  shows "dbms_call op logs =
    (case manager_op op logs of
       (Inr content, logs') \<Rightarrow> (Inr content, logs')
     | (Inl err, logs') \<Rightarrow> (Inr '''', logs'))"
  using dbms_call_manager [OF assms, of logs]
  by (auto simp: http_result_def split: prod.split sum.split)

theorem dbms_call_reaches_log_witness:
  "fst (dbms_call (LOG_READ 65536 ''localhost:8002'' TRANSACTION) Map.empty) = Inr ''WORKING''"
  by (subst dbms_call_reaches_log)
     (simp_all add: LogManager_LOG_READ_def apply_log_flat TransactionLog_LOG_READ_def
      server_log_type_def new_log_pair_def)

text \<open>
  Without a working connection to the DBMS there is no error value: the three client functions
  print a message and then dereference the missing response.
\<close>

lemma db_call_transport_failure:
  assumes "transport (db_request op) w = (None, w')"
  shows "db_call transport op w = (Inl Undefined_behaviour, w')"
  using assms by (simp add: db_call_def db_response_def)


section \<open>The operations on transaction logs, as a node sees them\<close>

text \<open>What the three calls on a transaction log return, and what they do to its decisions.\<close>

lemma dbms_call_once:
  assumes "CHR ''/'' \<notin> set h" and "valid_decision d"
  shows "\<exists>logs'. dbms_call (LOG_ONCE d t h TRANSACTION) logs =
      (Inr (if decisions logs (t, h) = ''WORKING'' then d else decisions logs (t, h)), logs') \<and>
    decisions logs' =
      (if decisions logs (t, h) = ''WORKING'' then (decisions logs)((t, h) := d) else decisions logs)"
proof -
  obtain r logs' where m: "LogManager_LOG_ONCE (tx_address (t, h)) d logs = (r, logs')"
    by (cases "LogManager_LOG_ONCE (tx_address (t, h)) d logs")
  from LOG_ONCE_spec [OF m] assms(2) dbms_call_manager [of "LOG_ONCE d t h TRANSACTION" logs] assms(1) m
  show ?thesis
    by (auto simp: spec_once_def spec_write_def ok_value_def http_result_def tx_address_def
        server_log_type_def split: if_splits sum.splits)
qed

lemma dbms_call_write:
  assumes "CHR ''/'' \<notin> set h" and "valid_decision d"
  shows "\<exists>logs'. dbms_call (LOG_WRITE d t h TRANSACTION) logs = (Inr d, logs') \<and>
    decisions logs' = (decisions logs)((t, h) := d)"
proof -
  obtain r logs' where m: "LogManager_LOG_WRITE (tx_address (t, h)) d logs = (r, logs')"
    by (cases "LogManager_LOG_WRITE (tx_address (t, h)) d logs")
  from LOG_WRITE_spec [OF m] assms(2) dbms_call_manager [of "LOG_WRITE d t h TRANSACTION" logs] assms(1) m
  show ?thesis
    by (auto simp: spec_write_def ok_value_def http_result_def tx_address_def
        server_log_type_def split: if_splits sum.splits)
qed

lemma dbms_call_read:
  assumes "CHR ''/'' \<notin> set h"
  shows "\<exists>logs'. dbms_call (LOG_READ t h TRANSACTION) logs = (Inr (decisions logs (t, h)), logs') \<and>
    decisions logs' = decisions logs"
  using dbms_call_manager [of "LOG_READ t h TRANSACTION" logs] assms
    decisions_serve_simps(1) [of "tx_address (t, h)" logs]
  by (auto simp: LogManager_LOG_READ_def apply_log_flat http_result_def tx_address_def addr_key_def
      server_log_type_def TransactionLog_LOG_READ_def transactionLog_flat)

end
