(* ===== verification/Message_Queue.thy ===== *)
theory Message_Queue
  imports Cornus_Prelude
begin

text \<open>
  The message queue of a transaction handler (\<open>Cornus/include/messaging/messageQueue.hpp\<close>). The
  operations hold the queue's mutex, so each is one atomic step on the queue. What happens around
  a blocked call is explicit: the clock, and the pushes that other threads will make, each with
  its time. Times are in the unit of the timeouts.
\<close>

section \<open>The queue\<close>

record 'a message_queue =
  mq_q :: "'a list"
  mq_timeoutStart :: nat

definition push :: "'a \<Rightarrow> 'a message_queue \<Rightarrow> 'a message_queue" where
  "push e mq = mq\<lparr>mq_q := mq_q mq @ [e]\<rparr>"

text \<open>\<open>popFront\<close> assumes a non-empty queue; \<open>front\<close> of an empty one is undefined.\<close>

definition popFront :: "'a message_queue \<Rightarrow> ('a \<times> 'a message_queue) result" where
  "popFront mq = (case mq_q mq of
       [] \<Rightarrow> Inl Undefined_behaviour
     | e # es \<Rightarrow> Inr (e, mq\<lparr>mq_q := es\<rparr>))"

section \<open>The queue among other threads\<close>

record 'a mq_world =
  now :: nat
  incoming :: "(nat \<times> 'a) list"      \<comment> \<open>pushes still to come, in the order of time\<close>
  mq :: "'a message_queue"

fun push_due :: "nat \<Rightarrow> (nat \<times> 'a) list \<Rightarrow> 'a message_queue \<Rightarrow> (nat \<times> 'a) list \<times> 'a message_queue" where
  "push_due t [] m = ([], m)"
| "push_due t ((s, e) # es) m = (if s \<le> t then push_due t es (push e m) else ((s, e) # es, m))"

definition setTimeoutStart :: "'a mq_world \<Rightarrow> 'a mq_world" where
  "setTimeoutStart w = w\<lparr>mq := (mq w)\<lparr>mq_timeoutStart := now w\<rparr>\<rparr>"

text \<open>
  \<open>waitForNextMessage\<close>: a message that is there is taken at once, even behind the deadline.
  Otherwise the thread sleeps until the next push or until \<open>timeoutStart + timeout\<close>; on time-out the
  predicate is evaluated once more.
\<close>

definition waitForNextMessage :: "nat \<Rightarrow> 'a mq_world \<Rightarrow> ('a option \<times> 'a mq_world) result" where
  "waitForNextMessage timeout w =
     (case push_due (now w) (incoming w) (mq w) of
        (inc, m) \<Rightarrow>
          if mq_q m \<noteq> [] then
            bind_result (popFront m) (\<lambda>(e, m'). Inr (Some e, w\<lparr>incoming := inc, mq := m'\<rparr>))
          else
            (let deadline = mq_timeoutStart m + timeout
             in case inc of
                  (s, e) # es \<Rightarrow>
                    if s \<le> deadline then
                      bind_result (popFront (push e m)) (\<lambda>(e', m').
                        Inr (Some e', w\<lparr>now := s, incoming := es, mq := m'\<rparr>))
                    else Inr (None, w\<lparr>now := max (now w) deadline, incoming := inc, mq := m\<rparr>)
                | [] \<Rightarrow> Inr (None, w\<lparr>now := max (now w) deadline, incoming := inc, mq := m\<rparr>)))"

definition waitForNextMessageWithTimeout ::
  "nat \<Rightarrow> 'a mq_world \<Rightarrow> ('a option \<times> 'a mq_world) result" where
  "waitForNextMessageWithTimeout timeout w = waitForNextMessage timeout (setTimeoutStart w)"

section \<open>The queue is first-in, first-out\<close>

locale fifo_queue =
  fixes enq :: "'a \<Rightarrow> 'q \<Rightarrow> 'q"
    and deq :: "'q \<Rightarrow> ('a \<times> 'q) result"
    and contents :: "'q \<Rightarrow> 'a list"
  assumes contents_enq: "contents (enq x q) = contents q @ [x]"
    and deq_cons: "contents q = x # xs \<Longrightarrow> \<exists>q'. deq q = Inr (x, q') \<and> contents q' = xs"
begin

lemma contents_enq_all: "contents (fold enq xs q) = contents q @ xs"
  by (induction xs arbitrary: q) (simp_all add: contents_enq)

lemma deq_enq_nonempty:
  "contents q = x # xs \<Longrightarrow> \<exists>q'. deq (enq y q) = Inr (x, q') \<and> contents q' = xs @ [y]"
  using deq_cons [of "enq y q" x "xs @ [y]"] by (simp add: contents_enq)

lemma deq_enq_empty: "contents q = [] \<Longrightarrow> \<exists>q'. deq (enq y q) = Inr (y, q') \<and> contents q' = []"
  using deq_cons [of "enq y q" y "[]"] by (simp add: contents_enq)

lemma deq_enq_all:
  "contents q @ xs = y # ys \<Longrightarrow> \<exists>q'. deq (fold enq xs q) = Inr (y, q') \<and> contents q' = ys"
  using deq_cons [of "fold enq xs q" y ys] by (simp add: contents_enq_all)

end

interpretation message_fifo: fifo_queue push popFront mq_q
  by unfold_locales (auto simp: push_def popFront_def)

lemma push_due_spec:
  "push_due t es m = (inc, m') \<Longrightarrow>
   \<exists>due. es = due @ inc \<and> (\<forall>x \<in> set due. fst x \<le> t) \<and> (inc \<noteq> [] \<longrightarrow> t < fst (hd inc)) \<and>
     m' = m\<lparr>mq_q := mq_q m @ map snd due\<rparr>"
proof (induction t es m rule: push_due.induct)
  case (2 t s e es m)
  show ?case
  proof (cases "s \<le> t")
    case True
    with 2 obtain due where "es = due @ inc" "\<forall>x \<in> set due. fst x \<le> t"
      "inc \<noteq> [] \<longrightarrow> t < fst (hd inc)" "m' = (push e m)\<lparr>mq_q := mq_q (push e m) @ map snd due\<rparr>"
      by auto
    with True show ?thesis by (intro exI [of _ "(s, e) # due"]) (auto simp: push_def)
  qed (use 2 in auto)
qed auto

text \<open>Every message the handler will ever see, in the order in which it will see them.\<close>

definition upcoming :: "'a mq_world \<Rightarrow> 'a list" where
  "upcoming w = mq_q (mq w) @ map snd (incoming w)"

definition deadline :: "nat \<Rightarrow> 'a mq_world \<Rightarrow> nat" where
  "deadline timeout w = mq_timeoutStart (mq w) + timeout"

definition timely :: "'a mq_world \<Rightarrow> bool" where
  "timely w \<longleftrightarrow> sorted (map fst (incoming w))"

definition wait_outcome :: "nat \<Rightarrow> 'a mq_world \<Rightarrow> 'a option \<Rightarrow> 'a mq_world \<Rightarrow> bool" where
  "wait_outcome timeout w r w' \<longleftrightarrow>
     timely w' \<and> mq_timeoutStart (mq w') = mq_timeoutStart (mq w) \<and>
     now w \<le> now w' \<and> now w' \<le> max (now w) (deadline timeout w) \<and>
     (case r of
        Some e \<Rightarrow> upcoming w = e # upcoming w'
      | None \<Rightarrow> upcoming w' = upcoming w \<and> mq_q (mq w') = [] \<and> deadline timeout w \<le> now w' \<and>
          (\<forall>x \<in> set (incoming w'). deadline timeout w < fst x))"

lemma wait_spec:
  assumes "timely w"
  shows "\<exists>r w'. waitForNextMessage timeout w = Inr (r, w') \<and> wait_outcome timeout w r w'"
proof -
  obtain inc m where pd: "push_due (now w) (incoming w) (mq w) = (inc, m)"
    by (cases "push_due (now w) (incoming w) (mq w)")
  then obtain due where due: "incoming w = due @ inc" "inc \<noteq> [] \<longrightarrow> now w < fst (hd inc)"
    "m = (mq w)\<lparr>mq_q := mq_q (mq w) @ map snd due\<rparr>"
    using push_due_spec by blast
  have up: "upcoming w = mq_q m @ map snd inc" using due by (simp add: upcoming_def)
  have tm: "timely (w\<lparr>incoming := inc, mq := m', now := t\<rparr>)" for m' t
    using assms due(1) by (simp add: timely_def sorted_append)
  show ?thesis
  proof (cases "mq_q m")
    case (Cons e es)
    then have "waitForNextMessage timeout w = Inr (Some e, w\<lparr>incoming := inc, mq := m\<lparr>mq_q := es\<rparr>\<rparr>)"
      using pd by (simp add: waitForNextMessage_def popFront_def)
    moreover have "wait_outcome timeout w (Some e) (w\<lparr>incoming := inc, mq := m\<lparr>mq_q := es\<rparr>\<rparr>)"
      using up Cons due(3) tm [of "now w" "m\<lparr>mq_q := es\<rparr>"]
      by (simp add: wait_outcome_def upcoming_def timely_def)
    ultimately show ?thesis by blast
  next
    case empty: Nil
    let ?d = "mq_timeoutStart m + timeout"
    have d: "deadline timeout w = ?d" using due(3) by (simp add: deadline_def)
    show ?thesis
    proof (cases "inc \<noteq> [] \<and> fst (hd inc) \<le> ?d")
      case True
      then obtain s e es where inc: "inc = (s, e) # es" "s \<le> ?d" by (cases inc) auto
      then have "waitForNextMessage timeout w = Inr (Some e, w\<lparr>now := s, incoming := es, mq := m\<rparr>)"
        using pd empty by (simp add: waitForNextMessage_def popFront_def push_def)
      moreover have "wait_outcome timeout w (Some e) (w\<lparr>now := s, incoming := es, mq := m\<rparr>)"
        using up empty inc due d assms
        by (auto simp: wait_outcome_def upcoming_def timely_def sorted_append)
      ultimately show ?thesis by blast
    next
      case False
      let ?w' = "w\<lparr>now := max (now w) ?d, incoming := inc, mq := m\<rparr>"
      have "waitForNextMessage timeout w = Inr (None, ?w')"
        using pd empty False by (cases inc) (auto simp: waitForNextMessage_def)
      moreover have "\<forall>x \<in> set inc. ?d < fst x"
        using False assms due(1) by (cases inc) (auto simp: timely_def sorted_append)
      then have "wait_outcome timeout w None ?w'"
        using up empty due(3) tm [of "max (now w) ?d" m] d
        by (simp add: wait_outcome_def upcoming_def timely_def)
      ultimately show ?thesis by blast
    qed
  qed
qed

text \<open>
  C31: what \<open>waitForNextMessage\<close> guarantees under any interleaving of pushes. It never fails or
  blocks past the deadline; it hands over the messages in the order in which they were pushed,
  without losing or repeating one; and it reports a time-out only when the deadline has passed and
  every message still to come arrives after it.
\<close>

theorem waitForNextMessage_correct:
  assumes "timely w"
  shows "\<exists>r w'. waitForNextMessage timeout w = Inr (r, w') \<and>
    now w' \<le> max (now w) (deadline timeout w) \<and>
    (case r of
       Some e \<Rightarrow> upcoming w = e # upcoming w'
     | None \<Rightarrow> upcoming w' = upcoming w \<and> mq_q (mq w') = [] \<and> deadline timeout w \<le> now w' \<and>
         (\<forall>x \<in> set (incoming w'). deadline timeout w < fst x))"
  using wait_spec [OF assms, of timeout] by (auto simp: wait_outcome_def)

definition sample_world :: "nat mq_world" where
  "sample_world = \<lparr>now = 10, incoming = [(12, 7), (30, 8)], mq = \<lparr>mq_q = [], mq_timeoutStart = 10\<rparr>\<rparr>"

theorem waitForNextMessage_correct_witness:
  "\<exists>r w'. waitForNextMessage 5 sample_world = Inr (r, w') \<and> r = Some 7 \<and> upcoming w' = [8]"
proof -
  have "timely sample_world" by (simp add: timely_def sample_world_def)
  from waitForNextMessage_correct [OF this, of 5] obtain r w' where
    w: "waitForNextMessage 5 sample_world = Inr (r, w')"
    "case r of Some e \<Rightarrow> upcoming sample_world = e # upcoming w'
     | None \<Rightarrow> upcoming w' = upcoming sample_world \<and> mq_q (mq w') = [] \<and>
         deadline 5 sample_world \<le> now w' \<and> (\<forall>x \<in> set (incoming w'). deadline 5 sample_world < fst x)"
    by blast
  moreover have "fst (case waitForNextMessage 5 sample_world of Inr x \<Rightarrow> x) = Some 7"
    by (simp add: waitForNextMessage_def sample_world_def popFront_def push_def)
  ultimately show ?thesis by (intro exI [of _ r] exI [of _ w']) (auto simp: upcoming_def sample_world_def)
qed

section \<open>A sequence of waits\<close>

text \<open>
  The messages that a thread will get by waiting again and again against the same time-out start,
  before the first wait that times out.
\<close>

definition in_time :: "nat \<Rightarrow> 'a mq_world \<Rightarrow> 'a list" where
  "in_time timeout w =
     mq_q (mq w) @ map snd (takeWhile (\<lambda>x. fst x \<le> max (now w) (deadline timeout w)) (incoming w))"

lemma takeWhile_before:
  "\<forall>x \<in> set xs. P x \<Longrightarrow> takeWhile P (xs @ ys) = xs @ takeWhile P ys"
  by (induction xs) auto

lemma wait_in_time:
  assumes "timely w"
  shows "\<exists>r w'. waitForNextMessage timeout w = Inr (r, w') \<and> timely w' \<and>
    in_time timeout w = (case r of Some e \<Rightarrow> e # in_time timeout w' | None \<Rightarrow> [])"
proof -
  obtain inc m where pd: "push_due (now w) (incoming w) (mq w) = (inc, m)"
    by (cases "push_due (now w) (incoming w) (mq w)")
  then obtain due where due: "incoming w = due @ inc" "\<forall>x \<in> set due. fst x \<le> now w"
    "m = (mq w)\<lparr>mq_q := mq_q (mq w) @ map snd due\<rparr>"
    using push_due_spec by blast
  let ?dl = "deadline timeout w"
  have start: "mq_timeoutStart m + timeout = ?dl" using due(3) by (simp add: deadline_def)
  have "takeWhile (\<lambda>x. fst x \<le> max (now w) ?dl) (due @ inc) =
      due @ takeWhile (\<lambda>x. fst x \<le> max (now w) ?dl) inc"
    using due(2) by (intro takeWhile_before) auto
  then have it: "in_time timeout w = mq_q m @ map snd (takeWhile (\<lambda>x. fst x \<le> max (now w) ?dl) inc)"
    using due by (simp add: in_time_def)
  have srt: "sorted (map fst inc)" using assms due(1) by (simp add: timely_def sorted_append)
  have late: "inc \<noteq> [] \<Longrightarrow> now w < fst (hd inc)" using pd push_due_spec by blast
  show ?thesis
  proof (cases "mq_q m")
    case (Cons e es)
    then have "waitForNextMessage timeout w = Inr (Some e, w\<lparr>incoming := inc, mq := m\<lparr>mq_q := es\<rparr>\<rparr>)"
      using pd by (simp add: waitForNextMessage_def popFront_def)
    then show ?thesis
      using it Cons srt start by (auto simp: in_time_def deadline_def timely_def)
  next
    case Nil
    show ?thesis
    proof (cases "inc \<noteq> [] \<and> fst (hd inc) \<le> ?dl")
      case True
      then obtain s e es where inc: "inc = (s, e) # es" and s: "s \<le> ?dl" by (cases inc) auto
      have "waitForNextMessage timeout w = Inr (Some e, w\<lparr>now := s, incoming := es, mq := m\<rparr>)"
        using pd Nil s start inc by (simp add: waitForNextMessage_def popFront_def push_def Let_def)
      moreover have "max (now w) ?dl = max s ?dl" using late inc s by simp
      ultimately show ?thesis
        using it Nil srt start inc s by (auto simp: in_time_def deadline_def timely_def)
    next
      case False
      then have "waitForNextMessage timeout w =
          Inr (None, w\<lparr>now := max (now w) ?dl, incoming := inc, mq := m\<rparr>)"
        using pd Nil start by (cases inc) (auto simp: waitForNextMessage_def Let_def)
      moreover have "takeWhile (\<lambda>x. fst x \<le> max (now w) ?dl) inc = []"
        using False late by (cases inc) auto
      ultimately show ?thesis using it Nil srt by (auto simp: timely_def)
    qed
  qed
qed

end
