(* ===== verification/Handler_Effects.thy ===== *)
theory Handler_Effects
  imports Node_Config Tcp_Codec Dbms_Client Message_Queue
begin

text \<open>
  What a transaction handler does to the world around it. A handler runs on a thread of its own and
  touches the rest of the program only through its message queue, its TCP clients, the DBMS, its
  worker and its event timer. \<open>proc\<close> is the tree of these interactions: one constructor per kind of
  interaction, with a continuation for the answer. The code of a handler is a value of this type in
  continuation-passing style, call for call (\<open>Sender.hpp\<close> here, the handlers in the theories
  \<open>Paper_Handlers\<close> and \<open>New_Handlers\<close>). Loops that may run forever are corecursive.
\<close>

section \<open>Messages between handlers\<close>

datatype RequestType = transaction | voteReq | voteYes | Abort | willCommit | decisionCompleted | Commit

record Request =
  rq_type :: RequestType
  rq_txid :: transaction_id

section \<open>Interactions\<close>

codatatype proc =
    Return decision
  | Throw cxx_error
  | Record string proc                             \<comment> \<open>\<open>watch.record\<close>\<close>
  | SetTimeoutStart proc
  | WaitForNextMessage nat "Request option \<Rightarrow> proc"
  | Connect host proc                              \<comment> \<open>\<open>std::make_unique<TCPClient>(host)\<close>\<close>
  | Send host tcp_request proc                     \<comment> \<open>a request starts on its way to the host\<close>
  | AwaitReplies "host list" proc                  \<comment> \<open>until the requests to these hosts are answered or have failed\<close>
  | Dbms db_op "string \<Rightarrow> proc"
  | VoteReq string "bool \<Rightarrow> proc"                 \<comment> \<open>\<open>worker.VOTE_REQ\<close>\<close>
  | WorkerCommit string proc                       \<comment> \<open>\<open>worker.COMMIT\<close>\<close>
  | Detach decision proc                           \<comment> \<open>the decision is returned; the rest runs on a detached thread\<close>

section \<open>\<open>Sender\<close>\<close>

record handler =
  config :: transaction_config
  hostname :: host
  hostConfig :: host_config
  clients :: "host list"                  \<comment> \<open>the hosts with a client, newest first\<close>

definition Sender :: "transaction_config \<Rightarrow> host \<Rightarrow> host_config \<Rightarrow> handler" where
  "Sender cfg h hc = \<lparr>config = cfg, hostname = h, hostConfig = hc, clients = []\<rparr>"

text \<open>The request that \<open>send\<close> builds; every parameter is emplaced.\<close>

definition group_request :: "handler \<Rightarrow> string \<Rightarrow> string \<Rightarrow> tcp_request" where
  "group_request self type req_config =
     TCPRequest_of_params type
       (param_emplace ''sender'' (hostname self)
       (param_emplace ''type'' type
       (param_emplace ''txid'' (to_string_u64 (txid (config self)))
       (param_emplace ''command'' ''''
       (param_emplace ''config'' req_config [])))))"

text \<open>
  The loop of \<open>send\<close>: a missing client is created, then the request is started. \<open>resolveFutures\<close> waits
  for all of them at the end, without a time-out, and the replies are thrown away: a host that cannot be
  reached is not noticed, one that never replies blocks the thread.
\<close>

fun send_each :: "tcp_request \<Rightarrow> host list \<Rightarrow> handler \<Rightarrow> (handler \<Rightarrow> proc) \<Rightarrow> proc" where
  "send_each req [] self k = k self"
| "send_each req (p # hosts) self k =
     (if p \<in> set (clients self) then Send p req (send_each req hosts self k)
      else Connect p (Send p req (send_each req hosts (self\<lparr>clients := p # clients self\<rparr>) k)))"

definition send :: "handler \<Rightarrow> string \<Rightarrow> string \<Rightarrow> host list \<Rightarrow> (handler \<Rightarrow> proc) \<Rightarrow> proc" where
  "send self type req_config hosts k =
     send_each (group_request self type req_config) hosts self (\<lambda>self. AwaitReplies hosts (k self))"

definition sendToParticipants :: "handler \<Rightarrow> string \<Rightarrow> string \<Rightarrow> (handler \<Rightarrow> proc) \<Rightarrow> proc" where
  "sendToParticipants self type req_config k = send self type req_config (participants (config self)) k"

definition sendToReplicators :: "handler \<Rightarrow> string \<Rightarrow> string \<Rightarrow> (handler \<Rightarrow> proc) \<Rightarrow> proc" where
  "sendToReplicators self type req_config k = send self type req_config (hc_replicators (hostConfig self)) k"

definition coordinator_request :: "handler \<Rightarrow> string \<Rightarrow> tcp_request" where
  "coordinator_request self type =
     TCPRequest_of_params type
       (param_emplace ''sender'' (hostname self)
       (param_emplace ''type'' type
       (param_emplace ''txid'' (to_string_u64 (txid (config self)))
       (param_emplace ''request'' '''' []))))"

text \<open>
  \<open>sendToCoordinator\<close> waits for the reply itself. \<open>clients[coordinator]\<close> of a handler without that
  client is a null pointer.
\<close>

definition sendToCoordinator :: "handler \<Rightarrow> string \<Rightarrow> (handler \<Rightarrow> proc) \<Rightarrow> proc" where
  "sendToCoordinator self type k =
     (let c = coordinator (config self)
      in if c \<in> set (clients self)
         then Send c (coordinator_request self type) (AwaitReplies [c] (k self))
         else Throw Undefined_behaviour)"

text \<open>The DBMS operations on the transaction log, as the handlers call them.\<close>

definition LOG_ONCE_tx :: "string \<Rightarrow> handler \<Rightarrow> host \<Rightarrow> (string \<Rightarrow> proc) \<Rightarrow> proc" where
  "LOG_ONCE_tx d self h k = Dbms (LOG_ONCE d (txid (config self)) h TRANSACTION) k"

definition LOG_WRITE_tx :: "string \<Rightarrow> handler \<Rightarrow> host \<Rightarrow> (string \<Rightarrow> proc) \<Rightarrow> proc" where
  "LOG_WRITE_tx d self h k = Dbms (LOG_WRITE d (txid (config self)) h TRANSACTION) k"

definition LOG_READ_tx :: "handler \<Rightarrow> host \<Rightarrow> (string \<Rightarrow> proc) \<Rightarrow> proc" where
  "LOG_READ_tx self h k = Dbms (LOG_READ (txid (config self)) h TRANSACTION) k"

section \<open>The voting loop of both coordinators\<close>

text \<open>
  The \<open>while\<close> loop of the voting phase, with the timeout, the number of participants, the votes so
  far, what to do on a timeout, and what follows a decision. Every turn waits for one message;
  messages of other types are skipped. \<open>arrived\<close> says that control is behind the \<open>votes++\<close> of a vote.
  The C++ counter is an \<open>int\<close>; the loop is left when it reaches the number of participants.
\<close>

primcorec voting ::
  "bool \<Rightarrow> nat \<Rightarrow> nat \<Rightarrow> nat \<Rightarrow> proc \<Rightarrow> (decision \<Rightarrow> proc) \<Rightarrow> proc" where
  "voting arrived timeout n votes on_timeout decided =
     (if arrived then
        Record (''recv-vote-'' @ to_string_nat votes)
          (if votes = n then decided ''COMMIT''
           else voting False timeout n votes on_timeout decided)
      else
        WaitForNextMessage timeout (\<lambda>p_request.
          case p_request of
            None \<Rightarrow> on_timeout
          | Some m \<Rightarrow>
              (if rq_type m = voteYes then voting True timeout n (Suc votes) on_timeout decided
               else if rq_type m = Abort then decided ''ABORT''
               else voting False timeout n votes on_timeout decided)))"

definition voting_loop :: "nat \<Rightarrow> nat \<Rightarrow> nat \<Rightarrow> proc \<Rightarrow> (decision \<Rightarrow> proc) \<Rightarrow> proc" where
  "voting_loop = voting False"

lemma voting_True:
  "voting True timeout n votes on_timeout decided =
     Record (''recv-vote-'' @ to_string_nat votes)
       (if votes = n then decided ''COMMIT'' else voting False timeout n votes on_timeout decided)"
  by (subst voting.code) simp

text \<open>The loop as the source has it.\<close>

lemma voting_loop_code:
  "voting_loop timeout n votes on_timeout decided =
     WaitForNextMessage timeout (\<lambda>p_request.
       case p_request of
         None \<Rightarrow> on_timeout
       | Some m \<Rightarrow>
           (if rq_type m = voteYes then
              Record (''recv-vote-'' @ to_string_nat (Suc votes))
                (if Suc votes = n then decided ''COMMIT''
                 else voting_loop timeout n (Suc votes) on_timeout decided)
            else if rq_type m = Abort then decided ''ABORT''
            else voting_loop timeout n votes on_timeout decided))"
  unfolding voting_loop_def
  by (subst voting.code) (simp only: voting_True if_False)
end
