(* ===== verification/Handler_Run.thy ===== *)
theory Handler_Run
  imports Handler_Effects
begin

text \<open>
  Running one handler thread against a given surrounding: the messages that will reach its queue,
  each with its time, the DBMS, the reachability of the other hosts, and the worker. The clock only
  moves while the handler waits. A run has fuel, one unit per interaction; \<open>outcome\<close> says that
  every large enough amount of fuel gives the same result, and its equations evaluate a handler
  interaction by interaction.
\<close>

section \<open>The surrounding of a handler\<close>

record world =
  inbox :: "Request mq_world"
  logs :: log_store
  sent :: "(host \<times> tcp_request) list"
  watch :: "string list"
  committed :: "string list"
  answered :: "decision option"       \<comment> \<open>what was returned before going on in the background\<close>

record surrounding =
  dbms :: "db_op \<Rightarrow> log_store \<Rightarrow> string result \<times> log_store"
  connect :: "host \<Rightarrow> bool result"
  vote_req :: "string \<Rightarrow> bool"

text \<open>\<open>AcceptAllWorker\<close>: every vote request is accepted, a commit does nothing.\<close>

definition AcceptAllWorker_VOTE_REQ :: "string \<Rightarrow> bool" where
  "AcceptAllWorker_VOTE_REQ req = True"

fun exec :: "nat \<Rightarrow> surrounding \<Rightarrow> proc \<Rightarrow> world \<Rightarrow> (decision result \<times> world) option" where
  "exec 0 env p w = None"
| "exec (Suc n) env p w =
     (case p of
        Return d \<Rightarrow> Some (Inr d, w)
      | Throw err \<Rightarrow> Some (Inl err, w)
      | Record s p' \<Rightarrow> exec n env p' (w\<lparr>watch := watch w @ [s]\<rparr>)
      | SetTimeoutStart p' \<Rightarrow> exec n env p' (w\<lparr>inbox := setTimeoutStart (inbox w)\<rparr>)
      | WaitForNextMessage timeout k \<Rightarrow>
          (case waitForNextMessage timeout (inbox w) of
             Inl err \<Rightarrow> Some (Inl err, w)
           | Inr (r, inb) \<Rightarrow> exec n env (k r) (w\<lparr>inbox := inb\<rparr>))
      | Connect h p' \<Rightarrow>
          (case connect env h of Inl err \<Rightarrow> Some (Inl err, w) | Inr valid \<Rightarrow> exec n env p' w)
      | Send h req p' \<Rightarrow> exec n env p' (w\<lparr>sent := sent w @ [(h, req)]\<rparr>)
      | AwaitReplies hs p' \<Rightarrow> exec n env p' w
      | Dbms op k \<Rightarrow>
          (case dbms env op (logs w) of
             (Inl err, ls) \<Rightarrow> Some (Inl err, w\<lparr>logs := ls\<rparr>)
           | (Inr s, ls) \<Rightarrow> exec n env (k s) (w\<lparr>logs := ls\<rparr>))
      | VoteReq s k \<Rightarrow> exec n env (k (vote_req env s)) w
      | WorkerCommit s p' \<Rightarrow> exec n env p' (w\<lparr>committed := committed w @ [s]\<rparr>)
      | Detach d p' \<Rightarrow> exec n env p' (w\<lparr>answered := Some d\<rparr>))"

lemma exec_more: "exec n env p w = Some r \<Longrightarrow> n \<le> m \<Longrightarrow> exec m env p w = Some r"
proof (induction n arbitrary: p w m)
  case (Suc n)
  then obtain m' where m: "m = Suc m'" and le: "n \<le> m'" by (cases m) auto
  show ?case
    using Suc.prems(1) Suc.IH [OF _ le] unfolding m
    by (auto split: proc.splits sum.splits prod.splits)
qed simp

definition outcome :: "surrounding \<Rightarrow> proc \<Rightarrow> world \<Rightarrow> decision result \<times> world \<Rightarrow> bool" where
  "outcome env p w r \<longleftrightarrow> (\<exists>n. \<forall>m \<ge> n. exec m env p w = Some r)"

lemma outcome_iff: "outcome env p w r \<longleftrightarrow> (\<exists>n. exec (Suc n) env p w = Some r)"
  unfolding outcome_def by (meson exec_more le_Suc_eq le_refl)

lemma outcome_unique: "outcome env p w r \<Longrightarrow> outcome env p w r' \<Longrightarrow> r = r'"
  unfolding outcome_def by (metis max.cobounded1 max.cobounded2 option.inject)

lemma exec_iff: "(\<exists>n. exec n env p w = Some r) \<longleftrightarrow> outcome env p w r"
  unfolding outcome_def by (meson exec_more le_refl)

lemma outcome_simps [simp]:
  "outcome env (Return d) w r \<longleftrightarrow> r = (Inr d, w)"
  "outcome env (Throw err) w r \<longleftrightarrow> r = (Inl err, w)"
  "outcome env (Record s p) w r \<longleftrightarrow> outcome env p (w\<lparr>watch := watch w @ [s]\<rparr>) r"
  "outcome env (SetTimeoutStart p) w r \<longleftrightarrow> outcome env p (w\<lparr>inbox := setTimeoutStart (inbox w)\<rparr>) r"
  "outcome env (Send h req p) w r \<longleftrightarrow> outcome env p (w\<lparr>sent := sent w @ [(h, req)]\<rparr>) r"
  "outcome env (AwaitReplies hs p) w r \<longleftrightarrow> outcome env p w r"
  "outcome env (VoteReq s kv) w r \<longleftrightarrow> outcome env (kv (vote_req env s)) w r"
  "outcome env (WorkerCommit s p) w r \<longleftrightarrow> outcome env p (w\<lparr>committed := committed w @ [s]\<rparr>) r"
  "outcome env (Detach d p) w r \<longleftrightarrow> outcome env p (w\<lparr>answered := Some d\<rparr>) r"
  by (subst outcome_iff, force simp: exec_iff)+

lemma outcome_wait:
  "waitForNextMessage timeout (inbox w) = Inr (m, inb) \<Longrightarrow>
   outcome env (WaitForNextMessage timeout k) w r \<longleftrightarrow> outcome env (k m) (w\<lparr>inbox := inb\<rparr>) r"
  by (subst outcome_iff) (simp add: exec_iff)

lemma outcome_connect:
  "connect env h = Inr valid \<Longrightarrow> outcome env (Connect h p) w r \<longleftrightarrow> outcome env p w r"
  by (subst outcome_iff) (simp add: exec_iff)

lemma outcome_dbms:
  "dbms env op (logs w) = (Inr s, ls) \<Longrightarrow>
   outcome env (Dbms op k) w r \<longleftrightarrow> outcome env (k s) (w\<lparr>logs := ls\<rparr>) r"
  by (subst outcome_iff) (simp add: exec_iff)

section \<open>Sending to a group\<close>

text \<open>The handler after it has a client for every host of a group.\<close>

fun connected :: "host list \<Rightarrow> handler \<Rightarrow> handler" where
  "connected [] self = self"
| "connected (p # hosts) self =
     connected hosts (if p \<in> set (clients self) then self else self\<lparr>clients := p # clients self\<rparr>)"

lemma connected_simps [simp]:
  "config (connected hosts self) = config self"
  "hostname (connected hosts self) = hostname self"
  "hostConfig (connected hosts self) = hostConfig self"
  by (induction hosts arbitrary: self) auto

definition reachable_hosts :: "surrounding \<Rightarrow> host list \<Rightarrow> bool" where
  "reachable_hosts env hs \<longleftrightarrow> (\<forall>h \<in> set hs. \<exists>valid. connect env h = Inr valid)"

lemma reachable_hosts_simps [simp]:
  "reachable_hosts env []"
  "reachable_hosts env (h # hs) \<longleftrightarrow> (\<exists>valid. connect env h = Inr valid) \<and> reachable_hosts env hs"
  by (auto simp: reachable_hosts_def)

lemma outcome_send_each:
  "reachable_hosts env hosts \<Longrightarrow>
   outcome env (send_each req hosts self k) w r \<longleftrightarrow>
   outcome env (k (connected hosts self)) (w\<lparr>sent := sent w @ map (\<lambda>p. (p, req)) hosts\<rparr>) r"
  by (induction req hosts self k arbitrary: w rule: send_each.induct)
     (auto simp: outcome_connect)

lemma outcome_send:
  "reachable_hosts env hosts \<Longrightarrow>
   outcome env (send self type cfg hosts k) w r \<longleftrightarrow>
   outcome env (k (connected hosts self))
     (w\<lparr>sent := sent w @ map (\<lambda>p. (p, group_request self type cfg)) hosts\<rparr>) r"
  by (simp add: send_def outcome_send_each)

section \<open>The voting loop\<close>

text \<open>
  What the voting phase makes of the messages that come in time: the first \<open>ABORT\<close> or the last
  missing vote decides; \<open>None\<close> if neither is among them.
\<close>

fun tally :: "nat \<Rightarrow> nat \<Rightarrow> Request list \<Rightarrow> decision option" where
  "tally n votes [] = None"
| "tally n votes (m # ms) =
     (if rq_type m = voteYes then (if Suc votes = n then Some ''COMMIT'' else tally n (Suc votes) ms)
      else if rq_type m = Abort then Some ''ABORT''
      else tally n votes ms)"

lemma outcome_voting_loop:
  assumes "timely (inbox w)"
  shows "\<exists>inb ev. timely inb \<and>
    (\<forall>r. outcome env (voting_loop timeout n votes on_timeout decided) w r \<longleftrightarrow>
      outcome env (case tally n votes (in_time timeout (inbox w)) of
          Some d \<Rightarrow> decided d | None \<Rightarrow> on_timeout)
        (w\<lparr>inbox := inb, watch := watch w @ ev\<rparr>) r)"
  using assms
proof (induction "in_time timeout (inbox w)" arbitrary: w votes)
  case Nil
  then obtain inb where "waitForNextMessage timeout (inbox w) = Inr (None, inb)" "timely inb"
    using wait_in_time [of "inbox w" timeout] by (auto split: option.splits)
  with Nil show ?case
    by (intro exI [of _ inb] exI [of _ "[]"]) (subst voting_loop_code, simp add: outcome_wait)
next
  case (Cons m ms)
  then obtain inb where wt: "waitForNextMessage timeout (inbox w) = Inr (Some m, inb)" "timely inb"
    and ms: "ms = in_time timeout inb"
    using wait_in_time [of "inbox w" timeout] by (auto split: option.splits)
  let ?w = "w\<lparr>inbox := inb\<rparr>"
  let ?e = "''recv-vote-'' @ to_string_nat (Suc votes)"
  consider (vote) "rq_type m = voteYes" | (abort) "rq_type m = Abort"
    | (other) "rq_type m \<noteq> voteYes" "rq_type m \<noteq> Abort" by blast
  then show ?case
  proof cases
    case vote
    show ?thesis
    proof (cases "Suc votes = n")
      case True
      with vote wt Cons(2) [symmetric] show ?thesis
        by (intro exI [of _ inb] exI [of _ "[?e]"]) (subst voting_loop_code, simp add: outcome_wait)
    next
      case False
      obtain inb' ev where "timely inb'" and
        "\<And>r. outcome env (voting_loop timeout n (Suc votes) on_timeout decided)
            (?w\<lparr>watch := watch w @ [?e]\<rparr>) r \<longleftrightarrow>
          outcome env (case tally n (Suc votes) ms of Some d \<Rightarrow> decided d | None \<Rightarrow> on_timeout)
            (?w\<lparr>inbox := inb', watch := watch w @ [?e] @ ev\<rparr>) r"
        using Cons(1) [of "?w\<lparr>watch := watch w @ [?e]\<rparr>" "Suc votes"] ms wt(2) by auto
      with vote False wt Cons(2) [symmetric] show ?thesis
        by (intro exI [of _ inb'] exI [of _ "[?e] @ ev"]) (subst voting_loop_code, simp add: outcome_wait)
    qed
  next
    case abort
    with wt Cons(2) [symmetric] show ?thesis
      by (intro exI [of _ inb] exI [of _ "[]"]) (subst voting_loop_code, simp add: outcome_wait)
  next
    case other
    obtain inb' ev where "timely inb'" and
      "\<And>r. outcome env (voting_loop timeout n votes on_timeout decided) ?w r \<longleftrightarrow>
        outcome env (case tally n votes ms of Some d \<Rightarrow> decided d | None \<Rightarrow> on_timeout)
          (?w\<lparr>inbox := inb', watch := watch w @ ev\<rparr>) r"
      using Cons(1) [of ?w votes] ms wt(2) by auto
    with other wt Cons(2) [symmetric] show ?thesis
      by (intro exI [of _ inb'] exI [of _ ev]) (subst voting_loop_code, simp add: outcome_wait)
  qed
qed

text \<open>The closed form of the count.\<close>

definition votes_before_abort :: "Request list \<Rightarrow> nat" where
  "votes_before_abort ms =
     length (filter (\<lambda>m. rq_type m = voteYes) (takeWhile (\<lambda>m. rq_type m \<noteq> Abort) ms))"

definition some_abort :: "Request list \<Rightarrow> bool" where
  "some_abort ms \<longleftrightarrow> (\<exists>m \<in> set ms. rq_type m = Abort)"

lemma tally_eq:
  "votes < n \<Longrightarrow> tally n votes ms =
     (if n \<le> votes + votes_before_abort ms then Some ''COMMIT''
      else if some_abort ms then Some ''ABORT'' else None)"
  by (induction n votes ms rule: tally.induct)
     (auto simp: votes_before_abort_def some_abort_def)

lemma tally_none: "tally 0 votes ms = (if some_abort ms then Some ''ABORT'' else None)"
  by (induction "0 :: nat" votes ms rule: tally.induct) (auto simp: some_abort_def)

section \<open>The DBMS as the surrounding\<close>

definition no_slash :: "host \<Rightarrow> bool" where
  "no_slash h \<longleftrightarrow> CHR ''/'' \<notin> set h"

lemma outcome_dbms_call:
  assumes "dbms env = dbms_call" and "\<exists>ls. dbms_call op (logs w) = (Inr s, ls) \<and> P ls"
  shows "\<exists>ls. P ls \<and> (\<forall>r. outcome env (Dbms op k) w r \<longleftrightarrow> outcome env (k s) (w\<lparr>logs := ls\<rparr>) r)"
proof -
  obtain ls where "dbms env op (logs w) = (Inr s, ls)" and "P ls" using assms by auto
  then show ?thesis using outcome_dbms [of env op w s ls] by auto
qed

lemma outcome_log_once:
  assumes "dbms env = dbms_call" and "no_slash h" and "valid_decision d"
  shows "\<exists>ls. decisions ls = (if decisions (logs w) (txid (config self), h) = ''WORKING''
        then (decisions (logs w))((txid (config self), h) := d) else decisions (logs w)) \<and>
    (\<forall>r. outcome env (LOG_ONCE_tx d self h k) w r \<longleftrightarrow>
      outcome env (k (if decisions (logs w) (txid (config self), h) = ''WORKING'' then d
                      else decisions (logs w) (txid (config self), h))) (w\<lparr>logs := ls\<rparr>) r)"
  unfolding LOG_ONCE_tx_def
  by (rule outcome_dbms_call [OF assms(1) dbms_call_once]) (use assms in \<open>simp_all add: no_slash_def\<close>)

lemma outcome_log_write:
  assumes "dbms env = dbms_call" and "no_slash h" and "valid_decision d"
  shows "\<exists>ls. decisions ls = (decisions (logs w))((txid (config self), h) := d) \<and>
    (\<forall>r. outcome env (LOG_WRITE_tx d self h k) w r \<longleftrightarrow> outcome env (k d) (w\<lparr>logs := ls\<rparr>) r)"
  unfolding LOG_WRITE_tx_def
  by (rule outcome_dbms_call [OF assms(1) dbms_call_write]) (use assms in \<open>simp_all add: no_slash_def\<close>)

lemma outcome_log_read:
  assumes "dbms env = dbms_call" and "no_slash h"
  shows "\<exists>ls. decisions ls = decisions (logs w) \<and>
    (\<forall>r. outcome env (LOG_READ_tx self h k) w r \<longleftrightarrow>
      outcome env (k (decisions (logs w) (txid (config self), h))) (w\<lparr>logs := ls\<rparr>) r)"
  unfolding LOG_READ_tx_def
  by (rule outcome_dbms_call [OF assms(1) dbms_call_read]) (use assms in \<open>simp add: no_slash_def\<close>)

lemma timely_setTimeoutStart [simp]: "timely (setTimeoutStart w) = timely w"
  by (simp add: timely_def setTimeoutStart_def)

lemma group_request_connected [simp]:
  "group_request (connected hs self) type cfg = group_request self type cfg"
  by (simp add: group_request_def)

lemma tally_participants:
  "tally n 0 ms =
     (if 0 < n \<and> n \<le> votes_before_abort ms then Some ''COMMIT''
      else if some_abort ms then Some ''ABORT'' else None)"
  by (cases "n = 0") (simp_all add: tally_eq tally_none)

lemma outcome_sendToCoordinator:
  "coordinator (config self) \<in> set (clients self) \<Longrightarrow>
   outcome env (sendToCoordinator self type k) w r \<longleftrightarrow>
   outcome env (k self) (w\<lparr>sent := sent w @ [(coordinator (config self), coordinator_request self type)]\<rparr>) r"
  by (simp add: sendToCoordinator_def Let_def)

section \<open>A sample\<close>

text \<open>A small system: a coordinator with two participants, both of which vote in time.\<close>

definition sample_config :: transaction_config where
  "sample_config = \<lparr>coordinator = ''a:1'', participants = [''b:2'', ''c:3''], txid = 65536\<rparr>"

definition sample_handler :: "host \<Rightarrow> handler" where
  "sample_handler h = (Sender sample_config h
     \<lparr>hc_id = h, hc_allOthers = [], hc_dbmsAddress = ''d:4'', hc_hostNum = 1, hc_port = 1,
      hc_host = ''a'', hc_timeout = 100, hc_f = 0, hc_replicators = []\<rparr>)\<lparr>clients := [''a:1'']\<rparr>"

definition sample_message :: "RequestType \<Rightarrow> Request" where
  "sample_message ty = \<lparr>rq_type = ty, rq_txid = 65536\<rparr>"

definition sample_world :: "(nat \<times> RequestType) list \<Rightarrow> world" where
  "sample_world ms =
     \<lparr>inbox = \<lparr>now = 0, incoming = map (\<lambda>(t, ty). (t, sample_message ty)) ms,
               mq = \<lparr>mq_q = [], mq_timeoutStart = 0\<rparr>\<rparr>,
      logs = Map.empty, sent = [], watch = [], committed = [], answered = None\<rparr>"

definition sample_surrounding :: surrounding where
  "sample_surrounding = \<lparr>dbms = dbms_call, connect = (\<lambda>h. Inr True), vote_req = AcceptAllWorker_VOTE_REQ\<rparr>"

lemmas sample_defs = sample_config_def sample_handler_def sample_message_def sample_world_def
  sample_surrounding_def Sender_def

end
