(* ===== verification/Paper_Handlers.thy ===== *)
theory Paper_Handlers
  imports Handler_Run
begin

text \<open>
  The handlers of the Cornus protocol as in the paper (\<open>TransactionHandler.hpp\<close>, \<open>Coordinator.h\<close>,
  \<open>Participant.h\<close>), the version that is compiled by default: the coordinator answers the client
  when it knows the decision, and the decision of a transaction is what the participants' logs say.
\<close>

section \<open>The termination protocol\<close>

text \<open>
  \<open>terminationProtocol\<close> asks the logs of the participants one after the other, trying to put an
  \<open>ABORT\<close> into each; what follows the returned decision is the continuation.
\<close>

fun paper_termination_loop :: "handler \<Rightarrow> host list \<Rightarrow> (decision \<Rightarrow> proc) \<Rightarrow> proc" where
  "paper_termination_loop self [] k = k ''COMMIT''"
| "paper_termination_loop self (p # ps) k =
     LOG_ONCE_tx ''ABORT'' self p (\<lambda>resp.
       if resp = ''ABORT'' then k ''ABORT''
       else if resp = ''COMMIT'' then k ''COMMIT''
       else if resp = ''VOTEYES'' then paper_termination_loop self ps k
       else Throw (Runtime_error (''Unknown response from transaction log: '' @ resp)))"

definition Paper_terminationProtocol :: "handler \<Rightarrow> (decision \<Rightarrow> proc) \<Rightarrow> proc" where
  "Paper_terminationProtocol self k = paper_termination_loop self (participants (config self)) k"

section \<open>The coordinator\<close>

definition PaperCoordinator :: "transaction_config \<Rightarrow> host \<Rightarrow> host_config \<Rightarrow> handler" where
  "PaperCoordinator cfg h hc = Sender cfg h hc"

definition paper_coordinator_decided :: "handler \<Rightarrow> decision \<Rightarrow> proc" where
  "paper_coordinator_decided self decision =
     Record ''decided''
       (sendToParticipants self decision '''' (\<lambda>self. Record ''decision-sent'' (Return decision)))"

text \<open>
  The termination protocol returns \<open>COMMIT\<close> or \<open>ABORT\<close>, so the \<open>while\<close> loop ends with it.
\<close>

definition PaperCoordinator_handleTransaction :: "handler \<Rightarrow> proc" where
  "PaperCoordinator_handleTransaction self =
     Record ''start-coordinator''
       (sendToParticipants self ''VOTEREQ'' (config_to_string (config self)) (\<lambda>self.
        Record ''sent-vote-reqs''
       (SetTimeoutStart
       (voting_loop (hc_timeout (hostConfig self)) (length (participants (config self))) 0
          (Paper_terminationProtocol self (paper_coordinator_decided self))
          (paper_coordinator_decided self)))))"

section \<open>The participant\<close>

text \<open>The constructor connects to the coordinator.\<close>

definition PaperParticipant ::
  "(host \<Rightarrow> bool result) \<Rightarrow> transaction_config \<Rightarrow> host \<Rightarrow> host_config \<Rightarrow> handler result" where
  "PaperParticipant tcp cfg h hc =
     bind_result (tcp (coordinator cfg)) (\<lambda>valid.
       Inr ((Sender cfg h hc)\<lparr>clients := [coordinator cfg]\<rparr>))"

definition paper_participant_decided :: "handler \<Rightarrow> decision \<Rightarrow> proc" where
  "paper_participant_decided self decision =
     LOG_WRITE_tx decision self (hostname self) (\<lambda>_.
       if decision = ''COMMIT''
       then WorkerCommit (hostname self) (Record ''committed'' (Return decision))
       else Return decision)"

text \<open>The execution phase of \<open>handleTransaction\<close>, behind the vote.\<close>

definition paper_participant_execution :: "handler \<Rightarrow> proc" where
  "paper_participant_execution self =
     SetTimeoutStart
       (WaitForNextMessage (hc_timeout (hostConfig self)) (\<lambda>commit_request.
          case commit_request of
            Some m \<Rightarrow>
              Record ''received-decision''
                (if rq_type m = Commit then paper_participant_decided self ''COMMIT''
                 else if rq_type m = Abort then paper_participant_decided self ''ABORT''
                 else Throw Assertion_failed)
          | None \<Rightarrow> Paper_terminationProtocol self (paper_participant_decided self)))"

definition PaperParticipant_handleTransaction :: "handler \<Rightarrow> proc" where
  "PaperParticipant_handleTransaction self =
     Record ''start-participant''
       (VoteReq (config_to_string (config self)) (\<lambda>accepted.
          if \<not> accepted then sendToCoordinator self ''ABORT'' (\<lambda>self. Return ''ABORT'')
          else
            LOG_ONCE_tx ''VOTEYES'' self (hostname self) (\<lambda>resp.
              if resp = ''VOTEYES'' then
                Record ''responding-yes''
                  (sendToCoordinator self ''VOTEYES'' (\<lambda>self.
                   Record ''sent-yes'' (paper_participant_execution self)))
              else sendToCoordinator self ''ABORT'' (\<lambda>self. Return ''ABORT''))))"

section \<open>The termination protocol computes a function of the logs\<close>

text \<open>
  The first participant in the list whose log holds something else than a vote settles the decision;
  an open log is closed with \<open>ABORT\<close>, and nothing else is written.
\<close>

definition settling :: "(log_key \<Rightarrow> string) \<Rightarrow> transaction_id \<Rightarrow> host list \<Rightarrow> host option" where
  "settling D t ps = find (\<lambda>h. D (t, h) \<noteq> ''VOTEYES'') ps"

definition termination_verdict :: "(log_key \<Rightarrow> string) \<Rightarrow> transaction_id \<Rightarrow> host list \<Rightarrow> decision" where
  "termination_verdict D t ps =
     (case settling D t ps of
        None \<Rightarrow> ''COMMIT''
      | Some h \<Rightarrow> if D (t, h) = ''COMMIT'' then ''COMMIT'' else ''ABORT'')"

definition termination_effect ::
  "(log_key \<Rightarrow> string) \<Rightarrow> transaction_id \<Rightarrow> host list \<Rightarrow> log_key \<Rightarrow> string" where
  "termination_effect D t ps =
     (case settling D t ps of
        None \<Rightarrow> D
      | Some h \<Rightarrow> if D (t, h) = ''WORKING'' then D((t, h) := ''ABORT'') else D)"

lemma wf_store_cases:
  "wf_store ls \<Longrightarrow>
   decisions ls k = ''WORKING'' \<or> decisions ls k = ''VOTEYES'' \<or>
   decisions ls k = ''COMMIT'' \<or> decisions ls k = ''ABORT''"
  unfolding wf_store_def range_entry_string by blast

lemma termination_simps:
  "termination_verdict D t [] = ''COMMIT''"
  "termination_effect D t [] = D"
  "D (t, p) = ''VOTEYES'' \<Longrightarrow> termination_verdict D t (p # ps) = termination_verdict D t ps"
  "D (t, p) = ''VOTEYES'' \<Longrightarrow> termination_effect D t (p # ps) = termination_effect D t ps"
  "D (t, p) = ''COMMIT'' \<Longrightarrow> termination_verdict D t (p # ps) = ''COMMIT''"
  "D (t, p) = ''COMMIT'' \<Longrightarrow> termination_effect D t (p # ps) = D"
  "D (t, p) = ''ABORT'' \<Longrightarrow> termination_verdict D t (p # ps) = ''ABORT''"
  "D (t, p) = ''ABORT'' \<Longrightarrow> termination_effect D t (p # ps) = D"
  "D (t, p) = ''WORKING'' \<Longrightarrow> termination_verdict D t (p # ps) = ''ABORT''"
  "D (t, p) = ''WORKING'' \<Longrightarrow> termination_effect D t (p # ps) = D((t, p) := ''ABORT'')"
  by (simp_all add: termination_verdict_def termination_effect_def settling_def)

lemma outcome_termination_loop:
  assumes "dbms env = dbms_call" and "wf_store (logs w)" and "list_all no_slash ps"
  shows "\<exists>ls. decisions ls = termination_effect (decisions (logs w)) (txid (config self)) ps \<and>
    (\<forall>r. outcome env (paper_termination_loop self ps k) w r \<longleftrightarrow>
      outcome env (k (termination_verdict (decisions (logs w)) (txid (config self)) ps))
        (w\<lparr>logs := ls\<rparr>) r)"
  using assms(2,3)
proof (induction ps arbitrary: w)
  case Nil
  show ?case by (intro exI [of _ "logs w"]) (simp add: termination_simps)
next
  case (Cons p ps)
  let ?d = "decisions (logs w) (txid (config self), p)"
  let ?rest = "\<lambda>resp. if resp = ''ABORT'' then k ''ABORT''
       else if resp = ''COMMIT'' then k ''COMMIT''
       else if resp = ''VOTEYES'' then paper_termination_loop self ps k
       else Throw (Runtime_error (''Unknown response from transaction log: '' @ resp))"
  obtain ls where ls: "decisions ls = (if ?d = ''WORKING''
        then (decisions (logs w))((txid (config self), p) := ''ABORT'') else decisions (logs w))"
    and run: "\<And>r. outcome env (paper_termination_loop self (p # ps) k) w r \<longleftrightarrow>
      outcome env (?rest (if ?d = ''WORKING'' then ''ABORT'' else ?d)) (w\<lparr>logs := ls\<rparr>) r"
    using outcome_log_once [OF assms(1), of p "''ABORT''" w self ?rest] Cons.prems
    by (auto simp: valid_decision_def)
  consider "?d = ''WORKING''" | "?d = ''COMMIT''" | "?d = ''ABORT''" | (yes) "?d = ''VOTEYES''"
    using wf_store_cases [OF Cons.prems(1)] by blast
  then show ?case
  proof cases
    case yes
    have "decisions ls = decisions (logs w)" using ls yes by simp
    moreover from this have "wf_store ls" using Cons.prems(1) by (simp add: wf_store_def)
    ultimately show ?thesis
      using Cons.IH [of "w\<lparr>logs := ls\<rparr>"] Cons.prems(2) run yes by (simp add: termination_simps)
  qed (use ls run in \<open>intro exI [of _ ls], simp add: termination_simps\<close>)+
qed

lemma outcome_termination:
  assumes "dbms env = dbms_call" and "wf_store (logs w)"
    and "list_all no_slash (participants (config self))"
  shows "\<exists>ls. decisions ls =
      termination_effect (decisions (logs w)) (txid (config self)) (participants (config self)) \<and>
    (\<forall>r. outcome env (Paper_terminationProtocol self k) w r \<longleftrightarrow>
      outcome env (k (termination_verdict (decisions (logs w)) (txid (config self))
        (participants (config self)))) (w\<lparr>logs := ls\<rparr>) r)"
  unfolding Paper_terminationProtocol_def by (rule outcome_termination_loop) (use assms in simp_all)

lemma find_Some_unaffected:
  "find P xs = Some h \<Longrightarrow> P h \<and> h \<in> set xs"
  by (induction xs) (auto split: if_splits)

lemma termination_verdict_stable:
  "termination_verdict (termination_effect D t ps) t ps = termination_verdict D t ps"
proof (induction ps)
  case (Cons p ps)
  show ?case
  proof (cases "D (t, p) = ''VOTEYES''")
    case True
    have "termination_effect D t ps (t, p) = ''VOTEYES''"
      using True by (auto simp: termination_effect_def settling_def split: option.splits)
    with True Cons show ?thesis by (simp add: termination_simps)
  qed (auto simp: termination_verdict_def termination_effect_def settling_def)
qed (simp add: termination_simps)

lemma termination_effect_idem:
  "termination_effect (termination_effect D t ps) t ps = termination_effect D t ps"
proof (induction ps)
  case (Cons p ps)
  show ?case
  proof (cases "D (t, p) = ''VOTEYES''")
    case True
    have "termination_effect D t ps (t, p) = ''VOTEYES''"
      using True by (auto simp: termination_effect_def settling_def split: option.splits)
    with True Cons show ?thesis by (simp add: termination_simps)
  qed (auto simp: termination_effect_def settling_def)
qed (simp add: termination_simps)

section \<open>What the two handlers do\<close>

text \<open>A surrounding in which every participant can be connected to and the DBMS works.\<close>

definition working_surrounding :: "surrounding \<Rightarrow> transaction_config \<Rightarrow> world \<Rightarrow> bool" where
  "working_surrounding env cfg w \<longleftrightarrow>
     dbms env = dbms_call \<and> wf_store (logs w) \<and> timely (inbox w) \<and>
     reachable_hosts env (participants cfg) \<and> list_all no_slash (participants cfg)"

lemma outcome_coordinator_decided:
  assumes "reachable_hosts env (participants (config self))"
  shows "\<exists>w'. outcome env (paper_coordinator_decided self d) w (Inr d, w') \<and> logs w' = logs w \<and>
    sent w' = sent w @ map (\<lambda>p. (p, group_request self d '''')) (participants (config self))"
  using assms
  by (auto simp: paper_coordinator_decided_def sendToParticipants_def outcome_send)

text \<open>
  The coordinator up to its decision: the requests to vote are out, and the messages that come in
  time decide, or else the termination protocol.
\<close>

lemma outcome_coordinator_voting:
  assumes "working_surrounding env (config self) w"
  defines "self' \<equiv> connected (participants (config self)) self"
  shows "\<exists>v. logs v = logs w \<and>
    sent v = sent w @ map (\<lambda>p. (p, group_request self ''VOTEREQ'' (config_to_string (config self))))
      (participants (config self)) \<and>
    (\<forall>r. outcome env (PaperCoordinator_handleTransaction self) w r \<longleftrightarrow>
      outcome env (case tally (length (participants (config self))) 0
            (in_time (hc_timeout (hostConfig self)) (setTimeoutStart (inbox w))) of
          Some d \<Rightarrow> paper_coordinator_decided self' d
        | None \<Rightarrow> Paper_terminationProtocol self' (paper_coordinator_decided self')) v r)"
proof -
  let ?ps = "participants (config self)" and ?T = "hc_timeout (hostConfig self)"
  let ?w1 = "w\<lparr>sent := sent w @ map (\<lambda>p. (p, group_request self ''VOTEREQ'' (config_to_string (config self)))) ?ps,
      watch := watch w @ [''start-coordinator'', ''sent-vote-reqs''], inbox := setTimeoutStart (inbox w)\<rparr>"
  note env = assms(1) [unfolded working_surrounding_def]
  let ?tmo = "Paper_terminationProtocol self' (paper_coordinator_decided self')"
  have start: "outcome env (PaperCoordinator_handleTransaction self) w r \<longleftrightarrow>
      outcome env (voting_loop ?T (length ?ps) 0 ?tmo (paper_coordinator_decided self')) ?w1 r" for r
    using env by (simp add: PaperCoordinator_handleTransaction_def sendToParticipants_def outcome_send self'_def)
  have "timely (inbox ?w1)" using env by simp
  from outcome_voting_loop [OF this, of env ?T "length ?ps" 0 ?tmo "paper_coordinator_decided self'"]
  obtain inb ev where "\<And>r. outcome env (PaperCoordinator_handleTransaction self) w r \<longleftrightarrow>
      outcome env (case tally (length ?ps) 0 (in_time ?T (setTimeoutStart (inbox w))) of
          Some d \<Rightarrow> paper_coordinator_decided self' d | None \<Rightarrow> ?tmo)
        (?w1\<lparr>inbox := inb, watch := watch ?w1 @ ev\<rparr>) r"
    unfolding start by auto
  then show ?thesis by (intro exI conjI allI) simp_all
qed


lemma sample_surrounding_works:
  "sorted (map fst ms) \<Longrightarrow> working_surrounding sample_surrounding sample_config (sample_world ms)"
  by (auto simp add: working_surrounding_def sample_defs wf_store_empty timely_def
      no_slash_def comp_def case_prod_beta)


subsection \<open>The participant\<close>

text \<open>What a participant has done when it is through with a decision.\<close>

definition participant_done :: "handler \<Rightarrow> (log_key \<Rightarrow> string) \<Rightarrow> world \<Rightarrow> decision \<Rightarrow> world \<Rightarrow> bool" where
  "participant_done self D w d w' \<longleftrightarrow>
     decisions (logs w') = D((txid (config self), hostname self) := d) \<and>
     sent w' = sent w \<and> committed w' = committed w @ (if d = ''COMMIT'' then [hostname self] else [])"

lemma outcome_participant_decided:
  assumes "dbms env = dbms_call" and "no_slash (hostname self)" and "valid_decision d"
  shows "\<exists>w'. outcome env (paper_participant_decided self d) w (Inr d, w') \<and>
    participant_done self (decisions (logs w)) w d w'"
proof -
  let ?k = "\<lambda>_ :: string. if d = ''COMMIT''
       then WorkerCommit (hostname self) (Record ''committed'' (Return d)) else Return d"
  obtain ls where "decisions ls = (decisions (logs w))((txid (config self), hostname self) := d)"
    and "\<And>r. outcome env (paper_participant_decided self d) w r \<longleftrightarrow> outcome env (?k d) (w\<lparr>logs := ls\<rparr>) r"
    using outcome_log_write [OF assms, of w self ?k] unfolding paper_participant_decided_def by auto
  then show ?thesis by (auto simp: participant_done_def)
qed

lemma termination_verdict_valid: "valid_decision (termination_verdict D t ps)"
  by (simp add: termination_verdict_def valid_decision_def split: option.split)

lemma wf_store_vote:
  "wf_store ls \<Longrightarrow> decisions ls' = (decisions ls)(k := ''VOTEYES'') \<Longrightarrow> wf_store ls'"
  by (auto simp: wf_store_def range_entry_string)

text \<open>
  The decision of the execution phase and the logs it leaves (before the participant writes the
  decision into its own), from the messages that come in time and the logs at the time-out.
\<close>

definition execution_result ::
  "transaction_config \<Rightarrow> (log_key \<Rightarrow> string) \<Rightarrow> Request list \<Rightarrow> decision option \<times> (log_key \<Rightarrow> string)" where
  "execution_result cfg D ms =
     (case ms of
        m # _ \<Rightarrow> (if rq_type m = Commit then (Some ''COMMIT'', D)
                  else if rq_type m = Abort then (Some ''ABORT'', D) else (None, D))
      | [] \<Rightarrow> (Some (termination_verdict D (txid cfg) (participants cfg)),
               termination_effect D (txid cfg) (participants cfg)))"

lemma outcome_participant_execution:
  assumes "working_surrounding env (config self) w" and "no_slash (hostname self)"
    and "execution_result (config self) (decisions (logs w))
      (in_time (hc_timeout (hostConfig self)) (setTimeoutStart (inbox w))) = (res, D)"
  shows "\<exists>w'. (case res of
      Some d \<Rightarrow> outcome env (paper_participant_execution self) w (Inr d, w') \<and>
        participant_done self D w d w'
    | None \<Rightarrow> outcome env (paper_participant_execution self) w (Inl Assertion_failed, w') \<and>
        sent w' = sent w \<and> decisions (logs w') = D)"
proof -
  let ?T = "hc_timeout (hostConfig self)" and ?in = "setTimeoutStart (inbox w)"
  note env = assms(1) [unfolded working_surrounding_def]
  have db: "dbms env = dbms_call" using env by simp
  obtain m inb where wt: "waitForNextMessage ?T ?in = Inr (m, inb)"
    and it: "in_time ?T ?in = (case m of Some e \<Rightarrow> e # in_time ?T inb | None \<Rightarrow> [])"
    using wait_in_time [of ?in ?T] env by auto
  have run: "outcome env (paper_participant_execution self) w r \<longleftrightarrow>
      outcome env (case m of
            Some m \<Rightarrow> Record ''received-decision''
                (if rq_type m = Commit then paper_participant_decided self ''COMMIT''
                 else if rq_type m = Abort then paper_participant_decided self ''ABORT''
                 else Throw Assertion_failed)
          | None \<Rightarrow> Paper_terminationProtocol self (paper_participant_decided self))
        (w\<lparr>inbox := inb\<rparr>) r" for r
    using wt by (simp add: paper_participant_execution_def outcome_wait)
  note decided = outcome_participant_decided [OF db assms(2)]
  show ?thesis
  proof (cases m)
    case (Some e)
    let ?w = "w\<lparr>inbox := inb, watch := watch w @ [''received-decision'']\<rparr>"
    have "valid_decision ''COMMIT''" "valid_decision ''ABORT''" by (simp_all add: valid_decision_def)
    from this [THEN decided, of ?w] Some run assms(3) it show ?thesis
      by (auto simp: execution_result_def participant_done_def split: if_splits)
  next
    case None
    let ?d = "termination_verdict (decisions (logs w)) (txid (config self)) (participants (config self))"
    let ?v = "w\<lparr>inbox := inb\<rparr>"
    obtain ls where ls: "decisions ls =
        termination_effect (decisions (logs w)) (txid (config self)) (participants (config self))"
      and "\<And>r. outcome env (Paper_terminationProtocol self (paper_participant_decided self)) ?v r \<longleftrightarrow>
        outcome env (paper_participant_decided self ?d) (?v\<lparr>logs := ls\<rparr>) r"
      using outcome_termination [of env ?v self "paper_participant_decided self"] env by auto
    with decided [OF termination_verdict_valid [of "decisions (logs w)" "txid (config self)"
        "participants (config self)"], of "?v\<lparr>logs := ls\<rparr>"] None run assms(3) it
    show ?thesis by (auto simp: execution_result_def participant_done_def)
  qed
qed

text \<open>
  A participant whose log has taken its vote: it answers \<open>VOTEYES\<close>, and the execution phase does the rest.
\<close>

lemma outcome_participant_voted:
  assumes "working_surrounding env (config self) w" and "no_slash (hostname self)"
    and "coordinator (config self) \<in> set (clients self)"
    and "execution_result (config self) (decisions (logs w))
      (in_time (hc_timeout (hostConfig self)) (setTimeoutStart (inbox w))) = (res, D)"
  shows "\<exists>w'. outcome env (Record ''responding-yes'' (sendToCoordinator self ''VOTEYES'' (\<lambda>self.
        Record ''sent-yes'' (paper_participant_execution self)))) w
      (case res of Some d \<Rightarrow> Inr d | None \<Rightarrow> Inl Assertion_failed, w') \<and>
    sent w' = sent w @ [(coordinator (config self), coordinator_request self ''VOTEYES'')] \<and>
    (case res of
       Some d \<Rightarrow> decisions (logs w') = D((txid (config self), hostname self) := d) \<and>
         committed w' = committed w @ (if d = ''COMMIT'' then [hostname self] else [])
     | None \<Rightarrow> decisions (logs w') = D)"
proof -
  let ?w1 = "w\<lparr>sent := sent w @ [(coordinator (config self), coordinator_request self ''VOTEYES'')],
      watch := watch w @ [''responding-yes'', ''sent-yes'']\<rparr>"
  have "working_surrounding env (config self) ?w1"
    using assms(1) by (simp add: working_surrounding_def)
  from outcome_participant_execution [OF this assms(2), of res D] assms(4) obtain w' where "case res of
      Some d \<Rightarrow> outcome env (paper_participant_execution self) ?w1 (Inr d, w') \<and>
        participant_done self D ?w1 d w'
    | None \<Rightarrow> outcome env (paper_participant_execution self) ?w1 (Inl Assertion_failed, w') \<and>
        sent w' = sent ?w1 \<and> decisions (logs w') = D" by auto
  moreover have "dbms env = dbms_call" using assms(1) by (simp add: working_surrounding_def)
  ultimately show ?thesis
    by (cases res) (auto simp: outcome_sendToCoordinator [OF assms(3)] participant_done_def)
qed

text \<open>
  C10: the behaviour of a participant, on every path. A rejected request is answered with \<open>ABORT\<close>
  and nothing is logged. Otherwise the participant first puts its vote into its own log: if the log
  was closed before, the vote is lost and the answer is \<open>ABORT\<close>; if the log takes the vote, the
  answer is \<open>VOTEYES\<close>, and then the first message in time, or the participants' logs at the
  time-out, give the decision, which is written into its own log and, for a commit, done by the
  worker. A first message that is no decision fails the assertion.
\<close>

theorem paper_participant_decides:
  assumes "working_surrounding env (config self) w" and "no_slash (hostname self)"
    and "coordinator (config self) \<in> set (clients self)"
  defines "me \<equiv> (txid (config self), hostname self)" and "D \<equiv> decisions (logs w)"
    and "answer \<equiv> \<lambda>type. (coordinator (config self), coordinator_request self type)"
  defines "voted \<equiv> D(me := if D me = ''WORKING'' then ''VOTEYES'' else D me)"
  shows "\<exists>res w'. outcome env (PaperParticipant_handleTransaction self) w (res, w') \<and>
    (if \<not> vote_req env (config_to_string (config self))
     then res = Inr ''ABORT'' \<and> sent w' = sent w @ [answer ''ABORT''] \<and> decisions (logs w') = D
     else if voted me \<noteq> ''VOTEYES''
     then res = Inr ''ABORT'' \<and> sent w' = sent w @ [answer ''ABORT''] \<and> decisions (logs w') = D
     else sent w' = sent w @ [answer ''VOTEYES''] \<and>
       (case execution_result (config self) voted
          (in_time (hc_timeout (hostConfig self)) (setTimeoutStart (inbox w))) of
          (Some d, D') \<Rightarrow> res = Inr d \<and> decisions (logs w') = D'(me := d) \<and>
            committed w' = committed w @ (if d = ''COMMIT'' then [hostname self] else [])
        | (None, D') \<Rightarrow> res = Inl Assertion_failed \<and> decisions (logs w') = D'))"
proof -
  note env = assms(1) [unfolded working_surrounding_def]
  have db: "dbms env = dbms_call" using env by simp
  let ?no = "sendToCoordinator self ''ABORT'' (\<lambda>self. Return ''ABORT'')"
  let ?yes = "Record ''responding-yes'' (sendToCoordinator self ''VOTEYES'' (\<lambda>self.
      Record ''sent-yes'' (paper_participant_execution self)))"
  note to_coord = outcome_sendToCoordinator [OF assms(3)]
  show ?thesis
  proof (cases "vote_req env (config_to_string (config self))")
    case False
    then show ?thesis
      by (intro exI) (auto simp: PaperParticipant_handleTransaction_def to_coord answer_def D_def)
  next
    case True
    let ?w0 = "w\<lparr>watch := watch w @ [''start-participant'']\<rparr>"
    let ?k = "\<lambda>resp. if resp = ''VOTEYES'' then ?yes else ?no"
    have "valid_decision ''VOTEYES''" by (simp add: valid_decision_def)
    from outcome_log_once [OF db assms(2) this, of ?w0 self ?k] obtain ls where
      ls: "decisions ls = voted" and
      run: "\<And>r. outcome env (PaperParticipant_handleTransaction self) w r \<longleftrightarrow>
        outcome env (?k (voted me)) (?w0\<lparr>logs := ls\<rparr>) r"
      using True by (auto simp: PaperParticipant_handleTransaction_def voted_def D_def me_def
          split: if_splits)
    let ?w1 = "?w0\<lparr>logs := ls\<rparr>"
    show ?thesis
    proof (cases "voted me = ''VOTEYES''")
      case False
      then have "voted = D" by (auto simp: voted_def)
      with False True run ls show ?thesis by (intro exI) (auto simp: to_coord answer_def)
    next
      case yes: True
      have "wf_store ls" using ls env by (auto simp: voted_def D_def wf_store_def range_entry_string)
      then have "working_surrounding env (config self) ?w1"
        using env by (simp add: working_surrounding_def)
      note voted = outcome_participant_voted [OF this assms(2,3)]
      obtain res D' where er: "execution_result (config self) voted
          (in_time (hc_timeout (hostConfig self)) (setTimeoutStart (inbox w))) = (res, D')" by fastforce
      from voted [of res D'] True yes run er ls show ?thesis
        by (cases res) (auto simp: answer_def me_def)
    qed
  qed
qed

lemma sample_voted:
  "decisions Map.empty k = ''WORKING''"
  by (simp add: decisions_def new_log_pair_def)

theorem paper_participant_decides_witness:
  "\<exists>w'. outcome sample_surrounding (PaperParticipant_handleTransaction (sample_handler ''b:2''))
     (sample_world []) (Inr ''ABORT'', w') \<and>
   decisions (logs w') (65536, ''c:3'') = ''ABORT'' \<and> decisions (logs w') (65536, ''b:2'') = ''ABORT''"
proof -
  have "working_surrounding sample_surrounding (config (sample_handler ''b:2'')) (sample_world [])"
    using sample_surrounding_works by (simp add: sample_handler_def Sender_def)
  moreover have "no_slash (hostname (sample_handler ''b:2''))"
    by (simp add: sample_handler_def Sender_def no_slash_def)
  moreover have "coordinator (config (sample_handler ''b:2'')) \<in> set (clients (sample_handler ''b:2''))"
    by (simp add: sample_handler_def Sender_def sample_config_def)
  ultimately show ?thesis
    using paper_participant_decides [of sample_surrounding "sample_handler ''b:2''" "sample_world []"]
    by (auto simp: sample_defs in_time_def setTimeoutStart_def AcceptAllWorker_VOTE_REQ_def
        sample_voted execution_result_def termination_verdict_def termination_effect_def settling_def)
qed

text \<open>
  C11: whoever runs the termination protocol first settles the transaction. When two handlers run it
  one after the other, for the same transaction and participants, the second one gets the same
  decision and leaves every log as it is.
\<close>

theorem terminations_agree:
  assumes "dbms env = dbms_call" and "wf_store (logs w)"
    and "list_all no_slash (participants (config h1))" and "config h2 = config h1"
    and "outcome env (Paper_terminationProtocol h1 Return) w (Inr d1, w1)"
    and "outcome env (Paper_terminationProtocol h2 Return) w1 (Inr d2, w2)"
  shows "d2 = d1 \<and> decisions (logs w2) = decisions (logs w1)"
proof -
  let ?t = "txid (config h1)" and ?ps = "participants (config h1)" and ?D = "decisions (logs w)"
  have once: "d = termination_verdict (decisions (logs v)) ?t ?ps \<and>
      decisions (logs v') = termination_effect (decisions (logs v)) ?t ?ps"
    if "outcome env (Paper_terminationProtocol h Return) v (Inr d, v')" and "wf_store (logs v)"
      and "config h = config h1" for h v d v'
    using outcome_termination [of env v h Return] that assms(1,3) by auto
  have w1: "d1 = termination_verdict ?D ?t ?ps" "decisions (logs w1) = termination_effect ?D ?t ?ps"
    using once [OF assms(5,2)] by simp_all
  have "wf_store (logs w1)"
    using assms(2) w1(2) by (auto simp: wf_store_def termination_effect_def range_entry_string
        split: option.splits)
  from once [OF assms(6) this assms(4)] w1
  have d2: "d2 = d1" and w2: "decisions (logs w2) = termination_effect (decisions (logs w1)) ?t ?ps"
    by (simp_all add: termination_verdict_stable)
  have "termination_effect (termination_effect ?D ?t ?ps) ?t ?ps = termination_effect ?D ?t ?ps"
    by (rule termination_effect_idem)
  with d2 w2 w1 show ?thesis by simp
qed

theorem terminations_agree_witness:
  "\<exists>w1 w2. outcome sample_surrounding (Paper_terminationProtocol (sample_handler ''b:2'') Return)
      (sample_world []) (Inr ''ABORT'', w1) \<and>
    outcome sample_surrounding (Paper_terminationProtocol (sample_handler ''c:3'') Return) w1 (Inr ''ABORT'', w2) \<and>
    decisions (logs w2) = decisions (logs w1)"
proof -
  have env: "dbms sample_surrounding = dbms_call" "wf_store (logs (sample_world []))"
    by (simp_all add: sample_defs wf_store_empty)
  have c: "config (sample_handler h) = sample_config" for h by (simp add: sample_handler_def Sender_def)
  have ns: "list_all no_slash (participants sample_config)" by (simp add: sample_config_def no_slash_def)
  have eff: "settling (decisions ls) (65536 :: 64 word) (participants sample_config) = Some ''b:2''"
    if "decisions ls (65536, ''b:2'') \<noteq> ''VOTEYES''" for ls
    using that by (simp add: settling_def sample_config_def)
  obtain w1 where w1: "outcome sample_surrounding (Paper_terminationProtocol (sample_handler ''b:2'') Return)
      (sample_world []) (Inr ''ABORT'', w1)" "decisions (logs w1) (65536, ''b:2'') = ''ABORT''" "wf_store (logs w1)"
    using outcome_termination [OF env, of "sample_handler ''b:2''" Return] ns
    by (auto simp: c sample_defs termination_verdict_def termination_effect_def settling_def
        sample_voted wf_store_def range_entry_string)
  obtain w2 where w2: "outcome sample_surrounding (Paper_terminationProtocol (sample_handler ''c:3'') Return)
      w1 (Inr ''ABORT'', w2)"
    using outcome_termination [OF env(1) w1(3), of "sample_handler ''c:3''" Return] ns w1(2)
    by (auto simp: c sample_config_def termination_verdict_def settling_def)
  have "decisions (logs w2) = decisions (logs w1)"
    using terminations_agree [OF env _ _ w1(1) w2] ns by (simp add: c)
  with w1 w2 show ?thesis by blast
qed

end
