(* ===== verification/New_Handlers.thy ===== *)
theory New_Handlers
  imports Handler_Run
begin

text \<open>
  The handlers of the second version (\<open>TransactionHandler2.hpp\<close>, \<open>Coordinator2.h\<close>,
  \<open>Participant2.h\<close>, \<open>Replicator.h\<close>, \<open>Committer.h\<close>), compiled with \<open>NEW_VERSION\<close>: participants do
  not log their votes; the coordinator announces a commit to the replicators, answers the client,
  and then logs the decision and tells the participants in the background.
\<close>

section \<open>The base class\<close>

definition New_terminationProtocol :: "handler \<Rightarrow> (decision \<Rightarrow> proc) \<Rightarrow> proc" where
  "New_terminationProtocol self k =
     LOG_READ_tx self (hostname self) (\<lambda>prev.
       if prev = ''COMMIT'' \<or> prev = ''ABORT'' then k prev
       else LOG_WRITE_tx ''ABORT'' self (hostname self) (\<lambda>_. k ''ABORT''))"

text \<open>\<open>logFinal\<close> does not use its parameters \<open>txid\<close> and \<open>host\<close>: it reads and writes the own log.\<close>

definition logFinal ::
  "handler \<Rightarrow> decision \<Rightarrow> transaction_id \<Rightarrow> host \<Rightarrow> (handler \<Rightarrow> proc) \<Rightarrow> proc" where
  "logFinal self decision tx host k =
     LOG_READ_tx self (hostname self) (\<lambda>prev.
       if prev \<noteq> decision then
         LOG_WRITE_tx decision self (hostname self) (\<lambda>_.
           if prev = ''ABORT''
           then sendToParticipants self ''OVERRIDECOMMIT'' (config_to_string (config self)) k
           else k self)
       else k self)"

section \<open>The coordinator\<close>

definition NewCoordinator :: "transaction_config \<Rightarrow> host \<Rightarrow> host_config \<Rightarrow> handler" where
  "NewCoordinator cfg h hc = Sender cfg h hc"

text \<open>What follows the call of \<open>handleTransaction\<close> is the continuation.\<close>

definition new_coordinator_decided :: "handler \<Rightarrow> (handler \<Rightarrow> decision \<Rightarrow> proc) \<Rightarrow> decision \<Rightarrow> proc" where
  "new_coordinator_decided self k decision =
     Record ''decided''
       (if decision = ''COMMIT''
        then sendToReplicators self ''WILLCOMMIT'' (config_to_string (config self)) (\<lambda>self. k self decision)
        else k self decision)"

definition NewCoordinator_handleTransaction :: "handler \<Rightarrow> (handler \<Rightarrow> decision \<Rightarrow> proc) \<Rightarrow> proc" where
  "NewCoordinator_handleTransaction self k =
     Record ''start-coordinator''
       (sendToParticipants self ''VOTEREQ'' (config_to_string (config self)) (\<lambda>self.
        Record ''sent-vote-reqs''
       (SetTimeoutStart
       (voting_loop (hc_timeout (hostConfig self)) (length (participants (config self))) 0
          (new_coordinator_decided self k ''ABORT'')
          (new_coordinator_decided self k)))))"

definition finishTransaction :: "handler \<Rightarrow> decision \<Rightarrow> proc" where
  "finishTransaction self decision =
     (let tell = (\<lambda>self. sendToParticipants self decision '''' (\<lambda>self.
                    Record ''decision-sent'' (Return decision)))
      in if decision = ''COMMIT''
         then logFinal self decision (txid (config self)) (hostname self) (\<lambda>self.
                sendToReplicators self ''DECISIONCOMPLETED'' '''' tell)
         else tell self)"

text \<open>The thread of a client request: the answer first, \<open>finishTransaction\<close> in the background.\<close>

definition NewCoordinator_run :: "handler \<Rightarrow> proc" where
  "NewCoordinator_run self =
     NewCoordinator_handleTransaction self (\<lambda>self d. Detach d (finishTransaction self d))"

section \<open>The participant\<close>

definition NewParticipant ::
  "(host \<Rightarrow> bool result) \<Rightarrow> transaction_config \<Rightarrow> host \<Rightarrow> host_config \<Rightarrow> handler result" where
  "NewParticipant tcp cfg h hc =
     bind_result (tcp (coordinator cfg)) (\<lambda>valid.
       Inr ((Sender cfg h hc)\<lparr>clients := [coordinator cfg]\<rparr>))"

definition new_participant_decided :: "handler \<Rightarrow> decision \<Rightarrow> proc" where
  "new_participant_decided self decision =
     (if decision = ''COMMIT''
      then WorkerCommit (hostname self) (Record ''committed'' (Return decision))
      else Return decision)"

text \<open>The execution phase waits ten times as long as the voting phase.\<close>

definition new_participant_execution :: "handler \<Rightarrow> proc" where
  "new_participant_execution self =
     SetTimeoutStart
       (WaitForNextMessage (hc_timeout (hostConfig self) * 10) (\<lambda>commit_request.
          case commit_request of
            Some m \<Rightarrow>
              Record ''received-decision''
                (if rq_type m = Commit then new_participant_decided self ''COMMIT''
                 else if rq_type m = Abort then new_participant_decided self ''ABORT''
                 else Throw Assertion_failed)
          | None \<Rightarrow> New_terminationProtocol self (new_participant_decided self)))"

definition NewParticipant_handleTransaction :: "handler \<Rightarrow> proc" where
  "NewParticipant_handleTransaction self =
     Record ''start-participant''
       (VoteReq (config_to_string (config self)) (\<lambda>accepted.
          if \<not> accepted then sendToCoordinator self ''ABORT'' (\<lambda>self. Return ''ABORT'')
          else
            Record ''responding-yes''
              (sendToCoordinator self ''VOTEYES'' (\<lambda>self.
               Record ''sent-yes'' (new_participant_execution self)))))"

section \<open>Replicator and committer\<close>

definition Replicator :: "transaction_config \<Rightarrow> host \<Rightarrow> host_config \<Rightarrow> handler" where
  "Replicator cfg h hc = Sender cfg h hc"

definition Replicator_handleTransaction :: "handler \<Rightarrow> proc" where
  "Replicator_handleTransaction self =
     (let finish = (\<lambda>self :: handler. Record ''completed'' (Return '''')) in
      Record ''start-replicator''
        (SetTimeoutStart
        (WaitForNextMessage (hc_timeout (hostConfig self)) (\<lambda>completed.
           case completed of
             Some m \<Rightarrow>
               (if rq_type m = decisionCompleted then finish self
                else logFinal self ''COMMIT'' (txid (config self)) (coordinator (config self)) finish)
           | None \<Rightarrow> logFinal self ''COMMIT'' (txid (config self)) (coordinator (config self)) finish))))"

definition Committer :: "transaction_config \<Rightarrow> host \<Rightarrow> host_config \<Rightarrow> handler" where
  "Committer cfg h hc = Sender cfg h hc"

definition Committer_handleTransaction :: "handler \<Rightarrow> proc" where
  "Committer_handleTransaction self = WorkerCommit (hostname self) (Return ''COMMIT'')"

section \<open>What the coordinator does\<close>

definition new_surrounding :: "surrounding \<Rightarrow> handler \<Rightarrow> world \<Rightarrow> bool" where
  "new_surrounding env self w \<longleftrightarrow>
     dbms env = dbms_call \<and> timely (inbox w) \<and> no_slash (hostname self) \<and>
     reachable_hosts env (participants (config self)) \<and>
     reachable_hosts env (hc_replicators (hostConfig self))"

definition to_all :: "handler \<Rightarrow> string \<Rightarrow> string \<Rightarrow> host list \<Rightarrow> (host \<times> tcp_request) list" where
  "to_all self type cfg hs = map (\<lambda>p. (p, group_request self type cfg)) hs"

lemma to_all_connected [simp]: "to_all (connected hs self) type cfg hs' = to_all self type cfg hs'"
  by (simp add: to_all_def group_request_def)

lemma outcome_to_participants:
  "reachable_hosts env (participants (config self)) \<Longrightarrow>
   outcome env (sendToParticipants self type cfg k) w r \<longleftrightarrow>
   outcome env (k (connected (participants (config self)) self))
     (w\<lparr>sent := sent w @ to_all self type cfg (participants (config self))\<rparr>) r"
  by (simp add: sendToParticipants_def outcome_send to_all_def)

lemma outcome_to_replicators:
  "reachable_hosts env (hc_replicators (hostConfig self)) \<Longrightarrow>
   outcome env (sendToReplicators self type cfg k) w r \<longleftrightarrow>
   outcome env (k (connected (hc_replicators (hostConfig self)) self))
     (w\<lparr>sent := sent w @ to_all self type cfg (hc_replicators (hostConfig self))\<rparr>) r"
  by (simp add: sendToReplicators_def outcome_send to_all_def)

text \<open>The messages of \<open>logFinal\<close>, given the previous entry of the own log.\<close>

definition override_messages :: "handler \<Rightarrow> decision \<Rightarrow> (host \<times> tcp_request) list" where
  "override_messages self prev =
     (if prev = ''ABORT''
      then to_all self ''OVERRIDECOMMIT'' (config_to_string (config self)) (participants (config self))
      else [])"

lemma outcome_logFinal:
  fixes w :: world
  assumes "dbms env = dbms_call" and "no_slash (hostname self)"
    and "reachable_hosts env (participants (config self))"
  defines "me \<equiv> (txid (config self), hostname self)" and "D \<equiv> decisions (logs w)"
  shows "\<exists>ls hs. decisions ls = D(me := ''COMMIT'') \<and>
    (\<forall>r. outcome env (logFinal self ''COMMIT'' t h k) w r \<longleftrightarrow>
      outcome env (k (connected hs self))
        (w\<lparr>logs := ls, sent := sent w @ override_messages self (D me)\<rparr>) r)"
proof -
  let ?tail = "\<lambda>_ :: string. if D me = ''ABORT''
           then sendToParticipants self ''OVERRIDECOMMIT'' (config_to_string (config self)) k
           else k self"
  let ?k = "\<lambda>prev. if prev \<noteq> ''COMMIT'' then LOG_WRITE_tx ''COMMIT'' self (hostname self) (\<lambda>_.
           if prev = ''ABORT''
           then sendToParticipants self ''OVERRIDECOMMIT'' (config_to_string (config self)) k
           else k self) else k self"
  obtain ls where ls: "decisions ls = D" and
    run: "\<And>r. outcome env (logFinal self ''COMMIT'' t h k) w r \<longleftrightarrow> outcome env (?k (D me)) (w\<lparr>logs := ls\<rparr>) r"
    using outcome_log_read [OF assms(1,2), of w self ?k] unfolding logFinal_def D_def me_def by auto
  show ?thesis
  proof (cases "D me = ''COMMIT''")
    case True
    then have "D(me := ''COMMIT'') = D" by auto
    with True ls run show ?thesis
      by (intro exI [of _ ls] exI [of _ "[]"]) (simp add: override_messages_def)
  next
    case False
    have "valid_decision ''COMMIT''" by (simp add: valid_decision_def)
    from outcome_log_write [OF assms(1,2) this, of "w\<lparr>logs := ls\<rparr>" self ?tail] ls False run
    obtain ls' where ls': "decisions ls' = D(me := ''COMMIT'')" and
      run': "\<And>r. outcome env (logFinal self ''COMMIT'' t h k) w r \<longleftrightarrow>
        outcome env (?tail ''COMMIT'') (w\<lparr>logs := ls'\<rparr>) r"
      by (auto simp: me_def)
    show ?thesis
      using ls' run' outcome_to_participants [OF assms(3)]
      by (intro exI [of _ ls'] exI [of _ "if D me = ''ABORT'' then participants (config self) else []"])
         (simp add: override_messages_def)
  qed
qed

text \<open>What \<open>finishTransaction\<close> leaves behind.\<close>

lemma outcome_finishTransaction:
  fixes w :: world
  assumes "dbms env = dbms_call" and "no_slash (hostname self)"
    and "reachable_hosts env (participants (config self))"
    and "reachable_hosts env (hc_replicators (hostConfig self))"
  defines "me \<equiv> (txid (config self), hostname self)" and "D \<equiv> decisions (logs w)"
  shows "\<exists>w'. outcome env (finishTransaction self d) w (Inr d, w') \<and> answered w' = answered w \<and>
    decisions (logs w') = (if d = ''COMMIT'' then D(me := ''COMMIT'') else D) \<and>
    sent w' = sent w @
      (if d = ''COMMIT'' then override_messages self (D me) @
         to_all self ''DECISIONCOMPLETED'' '''' (hc_replicators (hostConfig self)) else []) @
      to_all self d '''' (participants (config self))"
proof (cases "d = ''COMMIT''")
  case True
  let ?k = "\<lambda>self. sendToReplicators self ''DECISIONCOMPLETED'' '''' (\<lambda>self.
      sendToParticipants self ''COMMIT'' '''' (\<lambda>self. Record ''decision-sent'' (Return ''COMMIT'')))"
  obtain ls hs where "decisions ls = D(me := ''COMMIT'')" and
    "\<And>r. outcome env (finishTransaction self ''COMMIT'') w r \<longleftrightarrow>
      outcome env (?k (connected hs self)) (w\<lparr>logs := ls, sent := sent w @ override_messages self (D me)\<rparr>) r"
    using outcome_logFinal [OF assms(1-3), of w "txid (config self)" "hostname self" ?k]
    unfolding finishTransaction_def D_def me_def by auto
  with True assms(3,4) show ?thesis
    by (auto simp: outcome_to_replicators outcome_to_participants)
next
  case False
  with assms(3) show ?thesis
    by (auto simp: finishTransaction_def outcome_to_participants D_def)
qed

lemma outcome_new_decided:
  "reachable_hosts env (hc_replicators (hostConfig self)) \<Longrightarrow>
   outcome env (new_coordinator_decided self k d) w r \<longleftrightarrow>
   outcome env (k (if d = ''COMMIT'' then connected (hc_replicators (hostConfig self)) self else self) d)
     (w\<lparr>watch := watch w @ [''decided''], sent := sent w @
       (if d = ''COMMIT'' then to_all self ''WILLCOMMIT'' (config_to_string (config self))
          (hc_replicators (hostConfig self)) else [])\<rparr>) r"
  by (simp add: new_coordinator_decided_def outcome_to_replicators)

text \<open>
  C12: the coordinator of the second version. It always returns: \<open>COMMIT\<close> when the votes of all
  participants come in time and before an \<open>ABORT\<close>, otherwise \<open>ABORT\<close>, also on a time-out. For a
  commit the replicators hear \<open>WILLCOMMIT\<close> before the client is answered; behind the answer the own
  log becomes \<open>COMMIT\<close>, a previous \<open>ABORT\<close> there is overridden at the participants, the replicators
  hear that the decision is complete, and the participants get the decision.
\<close>

theorem new_coordinator_decides:
  fixes w :: world
  assumes "new_surrounding env self w"
  defines "ps \<equiv> participants (config self)" and "reps \<equiv> hc_replicators (hostConfig self)"
    and "cfg \<equiv> config_to_string (config self)" and "me \<equiv> (txid (config self), hostname self)"
    and "ms \<equiv> in_time (hc_timeout (hostConfig self)) (setTimeoutStart (inbox w))"
    and "D \<equiv> decisions (logs w)"
  defines "d \<equiv> if ps \<noteq> [] \<and> length ps \<le> votes_before_abort ms then ''COMMIT'' else ''ABORT''"
  shows "\<exists>w'. outcome env (NewCoordinator_run self) w (Inr d, w') \<and> answered w' = Some d \<and>
    decisions (logs w') = (if d = ''COMMIT'' then D(me := ''COMMIT'') else D) \<and>
    sent w' = sent w @ to_all self ''VOTEREQ'' cfg ps @
      (if d = ''COMMIT''
       then to_all self ''WILLCOMMIT'' cfg reps @ override_messages self (D me) @
         to_all self ''DECISIONCOMPLETED'' '''' reps else []) @
      to_all self d '''' ps"
proof -
  note env = assms(1) [unfolded new_surrounding_def]
  let ?T = "hc_timeout (hostConfig self)" and ?self = "connected ps self"
  let ?k = "\<lambda>self d. Detach d (finishTransaction self d)"
  let ?dec = "new_coordinator_decided ?self ?k"
  let ?w1 = "w\<lparr>sent := sent w @ to_all self ''VOTEREQ'' cfg ps,
      watch := watch w @ [''start-coordinator'', ''sent-vote-reqs''], inbox := setTimeoutStart (inbox w)\<rparr>"
  have start: "outcome env (NewCoordinator_run self) w r \<longleftrightarrow>
      outcome env (voting_loop ?T (length ps) 0 (?dec ''ABORT'') ?dec) ?w1 r" for r
    using env by (simp add: NewCoordinator_run_def NewCoordinator_handleTransaction_def
        outcome_to_participants ps_def cfg_def)
  have "timely (inbox ?w1)" using env by simp
  from outcome_voting_loop [OF this, of env ?T "length ps" 0 "?dec ''ABORT''" ?dec]
  obtain inb ev where "\<And>r. outcome env (NewCoordinator_run self) w r \<longleftrightarrow>
      outcome env (case tally (length ps) 0 ms of Some d \<Rightarrow> ?dec d | None \<Rightarrow> ?dec ''ABORT'')
        (?w1\<lparr>inbox := inb, watch := watch ?w1 @ ev\<rparr>) r"
    unfolding start by (auto simp: ms_def)
  moreover have "(case tally (length ps) 0 ms of Some d \<Rightarrow> ?dec d | None \<Rightarrow> ?dec ''ABORT'') = ?dec d"
    by (simp add: tally_participants d_def)
  ultimately have loop: "outcome env (NewCoordinator_run self) w r \<longleftrightarrow>
      outcome env (?dec d) (?w1\<lparr>inbox := inb, watch := watch ?w1 @ ev\<rparr>) r" for r by simp
  have reach: "reachable_hosts env (hc_replicators (hostConfig ?self))" using env by simp
  let ?v = "?w1\<lparr>inbox := inb, watch := (watch ?w1 @ ev) @ [''decided''], sent := sent ?w1 @
      (if d = ''COMMIT'' then to_all self ''WILLCOMMIT'' cfg reps else []), answered := Some d\<rparr>"
  obtain hs where run: "\<And>r. outcome env (NewCoordinator_run self) w r \<longleftrightarrow>
      outcome env (finishTransaction (connected hs ?self) d) ?v r"
  proof
    show "outcome env (NewCoordinator_run self) w r \<longleftrightarrow> outcome env
        (finishTransaction (connected (if d = ''COMMIT'' then reps else []) ?self) d) ?v r" for r
      unfolding loop outcome_new_decided [OF reach] by (simp add: reps_def cfg_def)
  qed
  show ?thesis
    using outcome_finishTransaction [of env "connected hs ?self" d ?v] env run
    by (auto simp: me_def ps_def reps_def D_def override_messages_def)
qed

lemma sample_new_surrounding:
  "sorted (map fst ms) \<Longrightarrow> new_surrounding sample_surrounding (sample_handler h) (sample_world ms) \<longleftrightarrow> no_slash h"
  by (auto simp: new_surrounding_def sample_defs timely_def comp_def case_prod_beta)

theorem new_coordinator_decides_witness:
  "\<exists>w'. outcome sample_surrounding (NewCoordinator_run (sample_handler ''a:1''))
     (sample_world [(10, voteYes), (101, voteYes)]) (Inr ''ABORT'', w') \<and> answered w' = Some ''ABORT''"
proof -
  have "new_surrounding sample_surrounding (sample_handler ''a:1'')
      (sample_world [(10, voteYes), (101, voteYes)])"
    by (subst sample_new_surrounding) (simp_all add: no_slash_def)
  from new_coordinator_decides [OF this] show ?thesis
    by (auto simp: sample_defs in_time_def deadline_def setTimeoutStart_def votes_before_abort_def)
qed

section \<open>What the participant and the replicator do\<close>

lemma outcome_new_participant_decided:
  "outcome env (new_participant_decided self d) w r \<longleftrightarrow>
   r = (Inr d, if d = ''COMMIT''
     then w\<lparr>committed := committed w @ [hostname self], watch := watch w @ [''committed'']\<rparr> else w)"
  by (simp add: new_participant_decided_def)

text \<open>The termination protocol of the second version only looks at the own log.\<close>

lemma outcome_new_termination:
  assumes "dbms env = dbms_call" and "no_slash (hostname self)"
  defines "me \<equiv> (txid (config self), hostname self)"
  shows "\<exists>ls. decisions ls = (if decisions (logs w) me = ''COMMIT'' then decisions (logs w)
        else (decisions (logs w))(me := ''ABORT'')) \<and>
    (\<forall>r. outcome env (New_terminationProtocol self k) w r \<longleftrightarrow>
      outcome env (k (if decisions (logs w) me = ''COMMIT'' then ''COMMIT'' else ''ABORT'')) (w\<lparr>logs := ls\<rparr>) r)"
proof -
  let ?D = "decisions (logs w)"
  let ?k = "\<lambda>prev. if prev = ''COMMIT'' \<or> prev = ''ABORT'' then k prev
       else LOG_WRITE_tx ''ABORT'' self (hostname self) (\<lambda>_. k ''ABORT'')"
  obtain ls where ls: "decisions ls = ?D" and
    run: "\<And>r. outcome env (New_terminationProtocol self k) w r \<longleftrightarrow> outcome env (?k (?D me)) (w\<lparr>logs := ls\<rparr>) r"
    using outcome_log_read [OF assms(1,2), of w self ?k] unfolding New_terminationProtocol_def me_def by auto
  have valid: "valid_decision ''ABORT''" by (simp add: valid_decision_def)
  show ?thesis
  proof (cases "?D me = ''COMMIT'' \<or> ?D me = ''ABORT''")
    case True
    with ls run show ?thesis by (intro exI [of _ ls]) auto
  next
    case False
    with run ls outcome_log_write [OF assms(1,2) valid, of "w\<lparr>logs := ls\<rparr>" self "\<lambda>_. k ''ABORT''"]
    show ?thesis by (auto simp: me_def)
  qed
qed

text \<open>
  C18: a participant of the second version votes without logging, and when no decision comes within
  ten time-outs it decides from its own log alone: unless that log already holds \<open>COMMIT\<close> it writes
  and returns \<open>ABORT\<close>, whatever the coordinator and the replicators have logged and answered.
\<close>

theorem new_participant_times_out:
  assumes "new_surrounding env self w" and "coordinator (config self) \<in> set (clients self)"
    and "vote_req env (config_to_string (config self))"
    and "in_time (hc_timeout (hostConfig self) * 10) (setTimeoutStart (inbox w)) = []"
  defines "me \<equiv> (txid (config self), hostname self)" and "D \<equiv> decisions (logs w)"
  shows "\<exists>w'. outcome env (NewParticipant_handleTransaction self) w
      (Inr (if D me = ''COMMIT'' then ''COMMIT'' else ''ABORT''), w') \<and>
    decisions (logs w') = (if D me = ''COMMIT'' then D else D(me := ''ABORT'')) \<and>
    sent w' = sent w @ [(coordinator (config self), coordinator_request self ''VOTEYES'')]"
proof -
  note env = assms(1) [unfolded new_surrounding_def]
  let ?T = "hc_timeout (hostConfig self) * 10"
  let ?w1 = "w\<lparr>sent := sent w @ [(coordinator (config self), coordinator_request self ''VOTEYES'')],
      watch := watch w @ [''start-participant'', ''responding-yes'', ''sent-yes'']\<rparr>"
  obtain inb where wt: "waitForNextMessage ?T (setTimeoutStart (inbox w)) = Inr (None, inb)"
    using wait_in_time [of "setTimeoutStart (inbox w)" ?T] env assms(4) by (auto split: option.splits)
  have run: "outcome env (NewParticipant_handleTransaction self) w r \<longleftrightarrow>
      outcome env (New_terminationProtocol self (new_participant_decided self)) (?w1\<lparr>inbox := inb\<rparr>) r" for r
    using assms(2,3) wt
    by (simp add: NewParticipant_handleTransaction_def outcome_sendToCoordinator
        new_participant_execution_def outcome_wait)
  have db: "dbms env = dbms_call" and ns: "no_slash (hostname self)" using env by simp_all
  from outcome_new_termination [OF db ns, of "?w1\<lparr>inbox := inb\<rparr>" "new_participant_decided self"]
  show ?thesis
    unfolding run by (auto simp: outcome_new_participant_decided me_def D_def)
qed

theorem new_participant_times_out_witness:
  "\<exists>w'. outcome sample_surrounding (NewParticipant_handleTransaction (sample_handler ''b:2''))
     (sample_world [(1001, Commit)]) (Inr ''ABORT'', w')"
proof -
  have "new_surrounding sample_surrounding (sample_handler ''b:2'') (sample_world [(1001, Commit)])"
    by (subst sample_new_surrounding) (simp_all add: no_slash_def)
  moreover have "coordinator (config (sample_handler ''b:2'')) \<in> set (clients (sample_handler ''b:2''))"
    by (simp add: sample_defs)
  moreover have "vote_req sample_surrounding (config_to_string (config (sample_handler ''b:2'')))"
    by (simp add: sample_defs AcceptAllWorker_VOTE_REQ_def)
  moreover have "in_time (hc_timeout (hostConfig (sample_handler ''b:2'')) * 10)
      (setTimeoutStart (inbox (sample_world [(1001, Commit)]))) = []"
    by (simp add: sample_defs in_time_def setTimeoutStart_def deadline_def)
  ultimately show ?thesis
    using new_participant_times_out [of sample_surrounding "sample_handler ''b:2''" "sample_world [(1001, Commit)]"]
    by (auto simp: sample_defs decisions_def new_log_pair_def)
qed

text \<open>
  C19: the replicator. If \<open>DECISIONCOMPLETED\<close> is the first message in time it does nothing; else it
  logs \<open>COMMIT\<close> under its own name, not under the coordinator's, and tells the participants to
  override only if its own log held \<open>ABORT\<close>.
\<close>

theorem replicator_completes:
  assumes "new_surrounding env self w"
  defines "me \<equiv> (txid (config self), hostname self)" and "D \<equiv> decisions (logs w)"
    and "ms \<equiv> in_time (hc_timeout (hostConfig self)) (setTimeoutStart (inbox w))"
  shows "\<exists>w'. outcome env (Replicator_handleTransaction self) w (Inr '''', w') \<and>
    (if ms \<noteq> [] \<and> rq_type (hd ms) = decisionCompleted
     then decisions (logs w') = D \<and> sent w' = sent w
     else decisions (logs w') = D(me := ''COMMIT'') \<and>
       sent w' = sent w @ override_messages self (D me))"
proof -
  note env = assms(1) [unfolded new_surrounding_def]
  let ?T = "hc_timeout (hostConfig self)"
  let ?fin = "\<lambda>self :: handler. Record ''completed'' (Return '''')"
  let ?take = "logFinal self ''COMMIT'' (txid (config self)) (coordinator (config self)) ?fin"
  obtain m inb where wt: "waitForNextMessage ?T (setTimeoutStart (inbox w)) = Inr (m, inb)"
    and it: "ms = (case m of Some e \<Rightarrow> e # in_time ?T inb | None \<Rightarrow> [])"
    using wait_in_time [of "setTimeoutStart (inbox w)" ?T] env by (auto simp: ms_def)
  let ?w1 = "w\<lparr>watch := watch w @ [''start-replicator''], inbox := inb\<rparr>"
  have run: "outcome env (Replicator_handleTransaction self) w r \<longleftrightarrow>
      outcome env (if ms \<noteq> [] \<and> rq_type (hd ms) = decisionCompleted then ?fin self else ?take) ?w1 r" for r
    using wt it by (auto simp: Replicator_handleTransaction_def Let_def outcome_wait split: option.splits)
  obtain ls hs where "decisions ls = D(me := ''COMMIT'')" and
    "\<And>r. outcome env ?take ?w1 r \<longleftrightarrow>
      outcome env (?fin (connected hs self)) (?w1\<lparr>logs := ls, sent := sent w @ override_messages self (D me)\<rparr>) r"
    using outcome_logFinal [of env self ?w1 "txid (config self)" "coordinator (config self)" ?fin] env
    by (auto simp: me_def D_def)
  with run show ?thesis by (auto simp: D_def)
qed

theorem replicator_completes_witness:
  "\<exists>w'. outcome sample_surrounding (Replicator_handleTransaction (sample_handler ''r:5''))
     (sample_world []) (Inr '''', w') \<and> decisions (logs w') (65536, ''r:5'') = ''COMMIT''"
proof -
  have "new_surrounding sample_surrounding (sample_handler ''r:5'') (sample_world [])"
    by (subst sample_new_surrounding) (simp_all add: no_slash_def)
  from replicator_completes [OF this] show ?thesis
    by (auto simp: sample_defs in_time_def setTimeoutStart_def)
qed

end
