(* ===== verification/Global_Handler.thy ===== *)
theory Global_Handler
  imports Paper_Handlers New_Handlers
begin

text \<open>
  The node: \<open>GlobalMessageHandler\<close> (\<open>Cornus/include/messaging/GlobalMessageHandler.hpp\<close>) with its
  transaction counter, its three maps from transaction ids to handler objects, the table of
  callbacks, and the functions that create, find and remove handlers. Handler objects live on a
  heap (a list; the maps hold indices), because a map may lose an object that still runs. The three
  maps are guarded by one mutex, so each function is one step.
\<close>

section \<open>Transaction ids\<close>

record node =
  nd_hostConfig :: host_config
  nd_nodeId :: "16 word"
  nd_counter :: "32 word"
  nd_handlers :: "transaction_id \<rightharpoonup> nat"
  nd_replicators :: "transaction_id \<rightharpoonup> nat"
  nd_committers :: "transaction_id \<rightharpoonup> nat"

definition start_node :: "host_config \<Rightarrow> node" where
  "start_node hc =
     \<lparr>nd_hostConfig = hc, nd_nodeId = ucast (hc_hostNum hc), nd_counter = 0,
      nd_handlers = Map.empty, nd_replicators = Map.empty, nd_committers = Map.empty\<rparr>"

text \<open>
  The counter has 32 bits and is shifted in 32 bits; only the result is widened to the 64 bits of a
  transaction id.
\<close>

definition next_transaction_id :: "32 word \<Rightarrow> 16 word \<Rightarrow> transaction_id" where
  "next_transaction_id counter nodeId = ucast (push_bit 16 counter) + ucast nodeId"

definition getUniqueTransactionId :: "node \<Rightarrow> transaction_id \<times> node" where
  "getUniqueTransactionId nd =
     (next_transaction_id (nd_counter nd) (nd_nodeId nd), nd\<lparr>nd_counter := nd_counter nd + 1\<rparr>)"

definition getTxId :: "tcp_request \<Rightarrow> transaction_id result" where
  "getTxId req = bind_result (getParam ''txid'' req) stoul"

section \<open>Handler objects\<close>

datatype version = PAPER_VERSION | NEW_VERSION

datatype node_class = CoordinatorNode | ParticipantNode | ReplicatorNode | CommitterNode

datatype handler_map = Handlers | Replicators | Committers

record handler_object =
  ob_host :: host                          \<comment> \<open>the node it lives on\<close>
  ob_class :: node_class
  ob_map :: handler_map
  ob_config :: transaction_config
  ob_messages :: "Request message_queue"
  ob_proc :: proc                          \<comment> \<open>what its thread still has to do\<close>
  ob_returned :: "decision option"         \<comment> \<open>the result of \<open>handleTransaction\<close>\<close>
  ob_removed :: bool                       \<comment> \<open>the thread has called \<open>removeFromMap\<close>\<close>

text \<open>
  The classes that are handlers of the compiled version: only these can be put into the maps.
\<close>

fun is_handler_class :: "version \<Rightarrow> node_class \<Rightarrow> bool" where
  "is_handler_class PAPER_VERSION c \<longleftrightarrow> c = CoordinatorNode \<or> c = ParticipantNode"
| "is_handler_class NEW_VERSION c \<longleftrightarrow> True"

text \<open>The constructors, and the thread function that is run on the new object.\<close>

fun construct ::
  "version \<Rightarrow> (host \<Rightarrow> bool result) \<Rightarrow> node_class \<Rightarrow> transaction_config \<Rightarrow> host \<Rightarrow> host_config \<Rightarrow> handler result"
where
  "construct PAPER_VERSION tcp CoordinatorNode cfg h hc = Inr (PaperCoordinator cfg h hc)"
| "construct NEW_VERSION tcp CoordinatorNode cfg h hc = Inr (NewCoordinator cfg h hc)"
| "construct PAPER_VERSION tcp ParticipantNode cfg h hc = PaperParticipant tcp cfg h hc"
| "construct NEW_VERSION tcp ParticipantNode cfg h hc = NewParticipant tcp cfg h hc"
| "construct ver tcp ReplicatorNode cfg h hc = Inr (Replicator cfg h hc)"
| "construct ver tcp CommitterNode cfg h hc = Inr (Committer cfg h hc)"

fun handle_transaction :: "version \<Rightarrow> node_class \<Rightarrow> handler \<Rightarrow> proc" where
  "handle_transaction PAPER_VERSION CoordinatorNode self = PaperCoordinator_handleTransaction self"
| "handle_transaction NEW_VERSION CoordinatorNode self = NewCoordinator_run self"
| "handle_transaction PAPER_VERSION ParticipantNode self = PaperParticipant_handleTransaction self"
| "handle_transaction NEW_VERSION ParticipantNode self = NewParticipant_handleTransaction self"
| "handle_transaction ver ReplicatorNode self = Replicator_handleTransaction self"
| "handle_transaction ver CommitterNode self = Committer_handleTransaction self"

section \<open>The maps\<close>

fun the_map :: "handler_map \<Rightarrow> node \<Rightarrow> transaction_id \<rightharpoonup> nat" where
  "the_map Handlers nd = nd_handlers nd"
| "the_map Replicators nd = nd_replicators nd"
| "the_map Committers nd = nd_committers nd"

fun set_map :: "handler_map \<Rightarrow> (transaction_id \<rightharpoonup> nat) \<Rightarrow> node \<Rightarrow> node" where
  "set_map Handlers m nd = nd\<lparr>nd_handlers := m\<rparr>"
| "set_map Replicators m nd = nd\<lparr>nd_replicators := m\<rparr>"
| "set_map Committers m nd = nd\<lparr>nd_committers := m\<rparr>"

text \<open>
  \<open>createNode\<close>: parse the configuration, construct the handler, and put it into the map, over
  whatever was there. For a class of the other version it throws instead.
\<close>

definition createNode ::
  "version \<Rightarrow> (host \<Rightarrow> bool result) \<Rightarrow> node_class \<Rightarrow> string \<Rightarrow> transaction_id \<Rightarrow> handler_map \<Rightarrow>
   node \<Rightarrow> handler_object list \<Rightarrow> (node \<times> handler_object list) result" where
  "createNode ver tcp cls cfg t transactions nd heap =
     (let conf = TransactionConfig cfg t
      in bind_result (construct ver tcp cls conf (hc_id (nd_hostConfig nd)) (nd_hostConfig nd)) (\<lambda>p.
           if is_handler_class ver cls
           then Inr (set_map transactions ((the_map transactions nd)(t \<mapsto> length heap)) nd,
             heap @ [\<lparr>ob_host = hc_id (nd_hostConfig nd), ob_class = cls, ob_map = transactions,
                      ob_config = conf, ob_messages = \<lparr>mq_q = [], mq_timeoutStart = 0\<rparr>,
                      ob_proc = handle_transaction ver cls p, ob_returned = None, ob_removed = False\<rparr>])
           else Inl (Runtime_error ''bad call to create node!'')))"

definition removeFromMap :: "transaction_id \<Rightarrow> handler_map \<Rightarrow> node \<Rightarrow> node" where
  "removeFromMap t transactions nd =
     (if the_map transactions nd t \<noteq> None
      then set_map transactions ((the_map transactions nd)(t := None)) nd else nd)"

definition sendMessage ::
  "transaction_id \<Rightarrow> Request \<Rightarrow> handler_map \<Rightarrow> node \<Rightarrow> handler_object list \<Rightarrow> handler_object list" where
  "sendMessage t req transactions nd heap =
     (case the_map transactions nd t of
        None \<Rightarrow> heap
      | Some i \<Rightarrow> heap[i := (heap ! i)\<lparr>ob_messages := push req (ob_messages (heap ! i))\<rparr>])"

section \<open>The callbacks\<close>

definition onNewRequest ::
  "version \<Rightarrow> (host \<Rightarrow> bool result) \<Rightarrow> node_class \<Rightarrow> tcp_request \<Rightarrow> RequestType \<Rightarrow> handler_map \<Rightarrow>
   node \<Rightarrow> handler_object list \<Rightarrow> (node \<times> handler_object list) result" where
  "onNewRequest ver tcp cls req type transactions nd heap =
     bind_result (getTxId req) (\<lambda>t.
     bind_result (getParam ''config'' req) (\<lambda>cfg.
       createNode ver tcp cls cfg t transactions nd heap))"

definition onOldRequest ::
  "tcp_request \<Rightarrow> RequestType \<Rightarrow> handler_map \<Rightarrow> node \<Rightarrow> handler_object list \<Rightarrow>
   (node \<times> handler_object list) result" where
  "onOldRequest req type transactions nd heap =
     bind_result (getTxId req) (\<lambda>t.
       Inr (nd, sendMessage t \<lparr>rq_type = type, rq_txid = t\<rparr> transactions nd heap))"

text \<open>
  The table that the constructor registers. A request to any other endpoint has no callback.
\<close>

definition dispatch ::
  "version \<Rightarrow> (host \<Rightarrow> bool result) \<Rightarrow> tcp_request \<Rightarrow> node \<Rightarrow> handler_object list \<Rightarrow>
   (node \<times> handler_object list) result" where
  "dispatch ver tcp req nd heap =
     (if endpoint req = ''VOTEREQ'' then onNewRequest ver tcp ParticipantNode req voteReq Handlers nd heap
      else if endpoint req = ''VOTEYES'' then onOldRequest req voteYes Handlers nd heap
      else if endpoint req = ''ABORT'' then onOldRequest req Abort Handlers nd heap
      else if endpoint req = ''COMMIT'' then onOldRequest req Commit Handlers nd heap
      else if endpoint req = ''WILLCOMMIT'' then onNewRequest ver tcp ReplicatorNode req willCommit Replicators nd heap
      else if endpoint req = ''DECISIONCOMPLETED'' then onOldRequest req decisionCompleted Replicators nd heap
      else if endpoint req = ''OVERRIDECOMMIT'' then onNewRequest ver tcp CommitterNode req Commit Committers nd heap
      else Inr (nd, heap))"

text \<open>The start of a client request; the rest is the thread of the new coordinator.\<close>

definition onClientRequest ::
  "version \<Rightarrow> string \<Rightarrow> node \<Rightarrow> handler_object list \<Rightarrow> (node \<times> handler_object list) result" where
  "onClientRequest ver cfg nd heap =
     (case getUniqueTransactionId nd of
        (t, nd') \<Rightarrow> createNode ver (\<lambda>_. Inr True) CoordinatorNode cfg t Handlers nd' heap)"

section \<open>How unique transaction ids are\<close>

lemma unat_push_bit_16: "unat (push_bit 16 (c :: 32 word)) = (unat c mod 2 ^ 16) * 2 ^ 16"
  unfolding unsigned_push_bit_eq
  using mod_mult_mult2 [of "unat c" "2 ^ 16" "2 ^ 16"]
  by (simp add: push_bit_eq_mult take_bit_eq_mod)

lemma unat_next_transaction_id:
  "unat (next_transaction_id c n) = (unat c mod 2 ^ 16) * 2 ^ 16 + unat n"
proof -
  let ?a = "ucast (push_bit 16 c) :: 64 word" and ?b = "ucast n :: 64 word"
  have c: "unat c mod 2 ^ 16 < 2 ^ 16" by simp
  have n: "unat n < 2 ^ 16" using unsigned_less [of n, where 'a = nat] by simp
  have a: "unat ?a = (unat c mod 2 ^ 16) * 2 ^ 16"
    using c by (simp add: unsigned_ucast_eq unat_push_bit_16 take_bit_nat_eq_self)
  have b: "unat ?b = unat n"
    using n by (simp add: unsigned_ucast_eq take_bit_nat_eq_self)
  have "unat ?a + unat ?b < 2 ^ LENGTH(64)" using a b c n by simp
  then have "unat (?a + ?b) = unat ?a + unat ?b" by (rule unat_add_lem [THEN iffD1])
  with a b show ?thesis by (simp add: next_transaction_id_def)
qed

lemma next_transaction_id_eq_iff:
  "next_transaction_id c n = next_transaction_id c' n' \<longleftrightarrow>
   unat c mod 2 ^ 16 = unat c' mod 2 ^ 16 \<and> n = n'"
proof
  have n: "unat n < 2 ^ 16" "unat n' < 2 ^ 16"
    using unsigned_less [of n, where 'a = nat] unsigned_less [of n', where 'a = nat] by simp_all
  assume "next_transaction_id c n = next_transaction_id c' n'"
  then have e: "(unat c mod 2 ^ 16) * 2 ^ 16 + unat n = (unat c' mod 2 ^ 16) * 2 ^ 16 + unat n'"
    by (metis unat_next_transaction_id)
  have "unat n = unat n'" using arg_cong [OF e, of "\<lambda>x. x mod 2 ^ 16"] n by simp
  with e show "unat c mod 2 ^ 16 = unat c' mod 2 ^ 16 \<and> n = n'"
    by (simp add: unsigned_word_eqI)
next
  assume "unat c mod 2 ^ 16 = unat c' mod 2 ^ 16 \<and> n = n'"
  then have "unat (next_transaction_id c n) = unat (next_transaction_id c' n')"
    by (simp add: unat_next_transaction_id)
  then show "next_transaction_id c n = next_transaction_id c' n'" by (rule unsigned_word_eqI)
qed

text \<open>
  C39: transaction ids repeat. Two requests get the same id exactly when they come to nodes with the
  same 16-bit number and their counters agree in the low 16 bits: within one node every id comes
  back after 65536 requests, although the counter has 32 bits and the id 64.
\<close>

theorem transaction_ids_collide:
  "fst (getUniqueTransactionId nd) = fst (getUniqueTransactionId nd') \<longleftrightarrow>
   nd_nodeId nd = nd_nodeId nd' \<and> unat (nd_counter nd) mod 65536 = unat (nd_counter nd') mod 65536"
  by (auto simp: getUniqueTransactionId_def next_transaction_id_eq_iff)

end
