(* ===== verification/Paper_Discipline.thy ===== *)
theory Paper_Discipline
  imports Global_Handler
begin

text \<open>
  What the handlers of the paper version may rely on and must respect, thread by thread. \<open>know\<close> is
  what a thread has learned about its transaction and what it may still do; \<open>disciplined\<close> is the
  coinductive predicate that a thread only acts on what it knows, and both handlers have it.
\<close>

section \<open>Knowledge of a thread\<close>

record know =
  kn_seen :: "host set"            \<comment> \<open>participants known to have logged their vote\<close>
  kn_votes :: nat                  \<comment> \<open>votes received\<close>
  kn_fact :: "bool option"         \<comment> \<open>the outcome, when known: \<open>True\<close> is commit\<close>
  kn_ticket :: bool                \<comment> \<open>may still log the vote of its own host\<close>
  kn_yes :: bool                   \<comment> \<open>has logged its vote and may send it once\<close>
  kn_req :: "host set"             \<comment> \<open>participants that may still be asked to vote\<close>

definition learn_vote :: "host list \<Rightarrow> host \<Rightarrow> know \<Rightarrow> know" where
  "learn_vote ps h k =
     k\<lparr>kn_seen := insert h (kn_seen k),
       kn_fact := if set ps \<subseteq> insert h (kn_seen k) then Some True else kn_fact k\<rparr>"

fun learn_message :: "host list \<Rightarrow> Request option \<Rightarrow> know \<Rightarrow> know" where
  "learn_message ps None k = k"
| "learn_message ps (Some m) k =
     (if rq_type m = voteYes then
        k\<lparr>kn_votes := Suc (kn_votes k),
          kn_fact := if Suc (kn_votes k) = length ps then Some True else kn_fact k\<rparr>
      else if rq_type m = Commit then k\<lparr>kn_fact := Some True\<rparr>
      else if rq_type m = Abort then k\<lparr>kn_fact := Some False\<rparr>
      else k)"

definition learn_log :: "host list \<Rightarrow> host \<Rightarrow> string \<Rightarrow> know \<Rightarrow> know" where
  "learn_log ps h r k =
     (if r = ''ABORT'' then k\<lparr>kn_fact := Some False\<rparr>
      else if r = ''COMMIT'' then k\<lparr>kn_fact := Some True\<rparr>
      else if r = ''VOTEYES'' then learn_vote ps h k else k)"

text \<open>What a thread learns from trying to log its own vote: it gives up its ticket in any case.\<close>

definition learn_own_vote :: "host list \<Rightarrow> host \<Rightarrow> string \<Rightarrow> know \<Rightarrow> know" where
  "learn_own_vote ps h r k =
     (if r = ''VOTEYES'' then (learn_vote ps h k)\<lparr>kn_ticket := False, kn_yes := True\<rparr>
      else k\<lparr>kn_ticket := False, kn_fact := Some False\<rparr>)"

definition justified :: "string \<Rightarrow> know \<Rightarrow> bool" where
  "justified d k \<longleftrightarrow>
     (d = ''COMMIT'' \<longrightarrow> kn_fact k = Some True) \<and> (d = ''ABORT'' \<longrightarrow> kn_fact k = Some False)"

section \<open>What may be sent and logged\<close>

text \<open>
  A request of the transaction: it carries the transaction id, a vote request the configuration,
  and the wire does not change it.
\<close>

definition sound_request :: "transaction_config \<Rightarrow> tcp_request \<Rightarrow> bool" where
  "sound_request cfg req \<longleftrightarrow>
     getTxId req = Inr (txid cfg) \<and>
     (endpoint req = ''VOTEREQ'' \<longrightarrow> getParam ''config'' req = Inr (config_to_string cfg)) \<and>
     (\<forall>bytes. encode_request req = Some bytes \<longrightarrow> getRequest bytes = Inr (Some req))"

text \<open>The four kinds of requests of the paper version, with the knowledge after sending one.\<close>

definition may_send :: "host \<Rightarrow> string \<Rightarrow> know \<Rightarrow> know option" where
  "may_send h ep k =
     (if ep = ''VOTEREQ'' \<and> h \<in> kn_req k then Some (k\<lparr>kn_req := kn_req k - {h}\<rparr>)
      else if ep = ''VOTEYES'' \<and> kn_yes k then Some (k\<lparr>kn_yes := False\<rparr>)
      else if ep \<in> {''COMMIT'', ''ABORT''} \<and> justified ep k then Some k
      else None)"

coinductive disciplined :: "transaction_config \<Rightarrow> host \<Rightarrow> know \<Rightarrow> proc \<Rightarrow> bool" for cfg me where
  d_return: "justified d k \<Longrightarrow> disciplined cfg me k (Return d)"
| d_throw: "disciplined cfg me k (Throw err)"
| d_record: "disciplined cfg me k p \<Longrightarrow> disciplined cfg me k (Record s p)"
| d_start: "disciplined cfg me k p \<Longrightarrow> disciplined cfg me k (SetTimeoutStart p)"
| d_wait: "(\<And>m. disciplined cfg me (learn_message (participants cfg) m k) (K m)) \<Longrightarrow>
    disciplined cfg me k (WaitForNextMessage timeout K)"
| d_connect: "disciplined cfg me k p \<Longrightarrow> disciplined cfg me k (Connect h p)"
| d_send: "sound_request cfg req \<Longrightarrow> may_send h (endpoint req) k = Some k' \<Longrightarrow>
    disciplined cfg me k' p \<Longrightarrow> disciplined cfg me k (Send h req p)"
| d_replies: "disciplined cfg me k p \<Longrightarrow> disciplined cfg me k (AwaitReplies hs p)"
| d_log_once: "h \<in> set (participants cfg) \<Longrightarrow>
    (\<And>r. disciplined cfg me (learn_log (participants cfg) h r k) (K r)) \<Longrightarrow>
    disciplined cfg me k (Dbms (LOG_ONCE ''ABORT'' (txid cfg) h TRANSACTION) K)"
| d_log_vote: "kn_ticket k \<Longrightarrow>
    (\<And>r. disciplined cfg me (learn_own_vote (participants cfg) me r k) (K r)) \<Longrightarrow>
    disciplined cfg me k (Dbms (LOG_ONCE ''VOTEYES'' (txid cfg) me TRANSACTION) K)"
| d_log_decision: "d = ''COMMIT'' \<or> d = ''ABORT'' \<Longrightarrow> justified d k \<Longrightarrow> me \<in> kn_seen k \<Longrightarrow>
    (\<And>r. disciplined cfg me k (K r)) \<Longrightarrow>
    disciplined cfg me k (Dbms (LOG_WRITE d (txid cfg) me TRANSACTION) K)"
| d_vote: "kn_ticket k \<Longrightarrow> disciplined cfg me k (K True) \<Longrightarrow>
    disciplined cfg me (k\<lparr>kn_ticket := False, kn_fact := Some False\<rparr>) (K False) \<Longrightarrow>
    disciplined cfg me k (VoteReq s K)"
| d_commit: "kn_fact k = Some True \<Longrightarrow> disciplined cfg me k p \<Longrightarrow>
    disciplined cfg me k (WorkerCommit s p)"

inductive_cases disciplinedE: "disciplined cfg me k p"

inductive_simps disciplined_wait_iff: "disciplined cfg me k (WaitForNextMessage timeout K)"

section \<open>The requests that handlers build are sound\<close>

text \<open>Host names that survive the configuration text, the wire format and the DBMS paths.\<close>

definition plain_host :: "host \<Rightarrow> bool" where
  "plain_host h \<longleftrightarrow> is_word h \<and> no_slash h \<and> KEY_VALUE_DELIM \<notin> set h \<and> PAIR_DELIM \<notin> set h"

definition orderly_config :: "transaction_config \<Rightarrow> bool" where
  "orderly_config cfg \<longleftrightarrow>
     plain_host (coordinator cfg) \<and> list_all plain_host (participants cfg) \<and> distinct (participants cfg)"

definition wire_text :: "string \<Rightarrow> bool" where
  "wire_text s \<longleftrightarrow> clean_text s \<and> KEY_VALUE_DELIM \<notin> set s \<and> PAIR_DELIM \<notin> set s"

lemma wire_text_simps [simp]:
  "wire_text []"
  "wire_text (c # s) \<longleftrightarrow> c \<noteq> HEADER_DELIM \<and> c \<noteq> MESSAGE_END \<and> c \<noteq> KEY_VALUE_DELIM \<and> c \<noteq> PAIR_DELIM \<and> wire_text s"
  "wire_text (s @ t) \<longleftrightarrow> wire_text s \<and> wire_text t"
  by (auto simp: wire_text_def)

lemma wire_text_plain_host: "plain_host h \<Longrightarrow> wire_text h"
  by (auto simp: wire_text_def plain_host_def is_word_def list_all_iff is_space_def clean_text_def)

lemma wire_text_txid [simp]: "wire_text (to_string_u64 t)"
  by (auto simp: wire_text_def clean_text_def dest!: set_to_string_u64 dest: is_digit_facts)

lemma wire_text_words: "list_all plain_host hs \<Longrightarrow> wire_text (concat (map (\<lambda>p. p @ '' '') hs))"
  by (induction hs) (auto simp: wire_text_plain_host)

lemma wire_text_config: "orderly_config cfg \<Longrightarrow> wire_text (config_to_string cfg)"
  by (simp add: config_to_string_def append_participants_eq orderly_config_def wire_text_words
      wire_text_plain_host)

lemma wire_params_texts:
  "wire_params ps \<longleftrightarrow> distinct (map fst ps) \<and> list_all (\<lambda>(a, b). wire_text a \<and> wire_text b) ps"
  by (auto simp: wire_params_def wire_text_def clean_param_def list_all_iff)

lemma sound_group_request:
  assumes "orderly_config cfg" and "config self = cfg" and "plain_host (hostname self)"
    and "wire_text type" and "wire_text text" and "type = ''VOTEREQ'' \<Longrightarrow> text = config_to_string cfg"
  shows "sound_request cfg (group_request self type text)"
proof -
  let ?ps = "[(''config'', text), (''command'', ''''), (''txid'', to_string_u64 (txid cfg)),
      (''type'', type), (''sender'', hostname self)]"
  have req: "group_request self type text = TCPRequest_of_params type ?ps"
    using assms(2) by (simp add: group_request_def param_emplace_def)
  have "wire_params ?ps"
    using assms wire_text_plain_host by (simp add: wire_params_texts)
  with wire_roundtrip [of ?ps type] assms(4,6) show ?thesis
    by (auto simp: req sound_request_def getTxId_def getParam_def TCPRequest_of_params_def wire_text_def)
qed

lemma sound_coordinator_request:
  assumes "orderly_config cfg" and "config self = cfg" and "plain_host (hostname self)"
    and "wire_text type" and "type \<noteq> ''VOTEREQ''"
  shows "sound_request cfg (coordinator_request self type)"
proof -
  let ?ps = "[(''request'', ''''), (''txid'', to_string_u64 (txid cfg)),
      (''type'', type), (''sender'', hostname self)]"
  have req: "coordinator_request self type = TCPRequest_of_params type ?ps"
    using assms(2) by (simp add: coordinator_request_def param_emplace_def)
  have "wire_params ?ps"
    using assms wire_text_plain_host by (simp add: wire_params_texts)
  with wire_roundtrip [of ?ps type] assms(4,5) show ?thesis
    by (auto simp: req sound_request_def getTxId_def getParam_def TCPRequest_of_params_def wire_text_def)
qed

section \<open>The handlers are disciplined\<close>

lemmas disciplined_intros = d_return d_throw d_record d_start d_wait d_connect d_send d_replies
  d_log_once d_log_vote d_log_decision d_vote d_commit

text \<open>Telling a decision to everybody, and asking everybody to vote.\<close>

lemma disciplined_send_each:
  assumes "sound_request cfg req" and "\<And>h. h \<in> set hs \<Longrightarrow> may_send h (endpoint req) k = Some k"
    and "\<And>self'. config self' = config self \<Longrightarrow> hostname self' = hostname self \<Longrightarrow>
      hostConfig self' = hostConfig self \<Longrightarrow> disciplined cfg me k (K self')"
  shows "disciplined cfg me k (send_each req hs self K)"
  using assms
  by (induction req hs self K rule: send_each.induct) (auto intro!: disciplined_intros)

lemma disciplined_ask_each:
  assumes "sound_request cfg req" and "endpoint req = ''VOTEREQ''" and "distinct hs"
    and "set hs \<subseteq> kn_req k"
    and "\<And>self' k'. config self' = config self \<Longrightarrow> hostname self' = hostname self \<Longrightarrow>
      hostConfig self' = hostConfig self \<Longrightarrow> kn_votes k' = kn_votes k \<Longrightarrow> kn_fact k' = kn_fact k \<Longrightarrow>
      disciplined cfg me k' (K self')"
  shows "disciplined cfg me k (send_each req hs self K)"
  using assms
proof (induction req hs self K arbitrary: k rule: send_each.induct)
  case (1 req self K)
  then show ?case by (auto intro!: disciplined_intros)
next
  case (2 req p hs self K)
  let ?k = "k\<lparr>kn_req := kn_req k - {p}\<rparr>"
  have may: "may_send p (endpoint req) k = Some ?k" using "2.prems" by (simp add: may_send_def)
  have sub: "distinct hs" "set hs \<subseteq> kn_req ?k" using "2.prems" by auto
  have "p \<in> set (clients self) \<Longrightarrow> disciplined cfg me ?k (send_each req hs self K)"
    using "2.prems" sub by (intro "2.IH"(1)) auto
  moreover have "p \<notin> set (clients self) \<Longrightarrow>
      disciplined cfg me ?k (send_each req hs (self\<lparr>clients := p # clients self\<rparr>) K)"
    using "2.prems" sub by (intro "2.IH"(2)) auto
  ultimately show ?case
    using "2.prems"(1) may by (auto intro!: disciplined_intros)
qed

lemma disciplined_termination:
  assumes "config self = cfg" and "participants cfg = [] \<Longrightarrow> kn_fact k = Some True"
    and "\<And>k' d. justified d k' \<Longrightarrow> kn_seen k \<subseteq> kn_seen k' \<Longrightarrow> d = ''COMMIT'' \<or> d = ''ABORT'' \<Longrightarrow>
      disciplined cfg me k' (K d)"
  shows "disciplined cfg me k (Paper_terminationProtocol self K)"
proof -
  let ?ps = "participants cfg"
  have "disciplined cfg me k' (paper_termination_loop self ps K)"
    if "kn_seen k \<subseteq> kn_seen k'" and "set ps \<subseteq> set ?ps" and "set ?ps \<subseteq> kn_seen k' \<union> set ps"
      and "ps = [] \<Longrightarrow> kn_fact k' = Some True" for k' ps
    using that
  proof (induction ps arbitrary: k')
    case Nil
    then show ?case by (auto intro!: assms(3) simp: justified_def)
  next
    case (Cons p ps)
    have "disciplined cfg me (learn_log ?ps p r k')
        (if r = ''ABORT'' then K ''ABORT'' else if r = ''COMMIT'' then K ''COMMIT''
         else if r = ''VOTEYES'' then paper_termination_loop self ps K
         else Throw (Runtime_error (''Unknown response from transaction log: '' @ r)))" for r
    proof -
      have yes: "disciplined cfg me (learn_vote ?ps p k') (paper_termination_loop self ps K)"
        using Cons.prems by (intro Cons.IH) (auto simp: learn_vote_def)
      have "disciplined cfg me (k'\<lparr>kn_fact := Some False\<rparr>) (K ''ABORT'')"
        and "disciplined cfg me (k'\<lparr>kn_fact := Some True\<rparr>) (K ''COMMIT'')"
        using Cons.prems(1) by (auto intro!: assms(3) simp: justified_def)
      with yes show ?thesis by (auto simp: learn_log_def intro: d_throw)
    qed
    moreover have "p \<in> set ?ps" using Cons.prems(2) by simp
    ultimately show ?case
      using assms(1) by (auto simp: LOG_ONCE_tx_def intro!: d_log_once)
  qed
  from this [of k ?ps] assms(2) show ?thesis
    unfolding Paper_terminationProtocol_def assms(1) by simp
qed

text \<open>The voting loop, by coinduction: it is back at its beginning after every message.\<close>

lemma disciplined_voting:
  assumes dec: "\<And>k d. justified d k \<Longrightarrow> d = ''COMMIT'' \<or> d = ''ABORT'' \<Longrightarrow> disciplined cfg me k (decided d)"
    and tmo: "\<And>k. (participants cfg = [] \<Longrightarrow> kn_fact k = Some True) \<Longrightarrow> disciplined cfg me k on_timeout"
    and "participants cfg = [] \<Longrightarrow> kn_fact k = Some True" and "votes = kn_votes k"
    and "arrived \<Longrightarrow> votes = length (participants cfg) \<Longrightarrow> kn_fact k = Some True"
  shows "disciplined cfg me k (voting arrived timeout (length (participants cfg)) votes on_timeout decided)"
proof -
  let ?n = "length (participants cfg)"
  let ?loop = "\<lambda>a k. voting a timeout ?n (kn_votes k) on_timeout decided"
  let ?ok = "\<lambda>a k. (participants cfg = [] \<longrightarrow> kn_fact k = Some True) \<and>
      (a \<and> kn_votes k = ?n \<longrightarrow> kn_fact k = Some True)"
  have "\<exists>a. ?ok a k \<and> p = ?loop a k \<Longrightarrow> disciplined cfg me k p" for k p
  proof (coinduction arbitrary: k p rule: disciplined.coinduct)
    case disciplined
    then obtain a where ok: "?ok a k" and p: "p = ?loop a k" by blast
    show ?case
    proof (cases a)
      case True
      have "disciplined cfg me k (decided ''COMMIT'')" if "kn_votes k = ?n"
        using ok that True by (intro dec) (simp_all add: justified_def)
      with True ok p show ?thesis
        by (subst (asm) voting.code) (auto intro!: exI [of _ False])
    next
      case False
      let ?K = "\<lambda>p_request. case p_request of None \<Rightarrow> on_timeout
          | Some m \<Rightarrow>
              (if rq_type m = voteYes then voting True timeout ?n (Suc (kn_votes k)) on_timeout decided
               else if rq_type m = Abort then decided ''ABORT''
               else voting False timeout ?n (kn_votes k) on_timeout decided)"
      have eq: "p = WaitForNextMessage timeout ?K"
        using False p by (subst (asm) voting.code) simp
      have "(\<exists>a. ?ok a (learn_message (participants cfg) m k) \<and>
            ?K m = ?loop a (learn_message (participants cfg) m k)) \<or>
          disciplined cfg me (learn_message (participants cfg) m k) (?K m)" for m
      proof (cases m)
        case None
        then show ?thesis using ok by (auto intro!: tmo)
      next
        case (Some r)
        have ab: "disciplined cfg me (k\<lparr>kn_fact := Some False\<rparr>) (decided ''ABORT'')"
          by (intro dec) (simp_all add: justified_def)
        show ?thesis
        proof (cases "rq_type r = voteYes")
          case True
          then show ?thesis using ok Some by (intro disjI1 exI [of _ True]) auto
        next
          case ny: False
          show ?thesis
          proof (cases "rq_type r = Abort")
            case True
            then show ?thesis using ab Some by simp
          next
            case False
            then show ?thesis using ok Some ny by (intro disjI1 exI [of _ False]) auto
          qed
        qed
      qed
      then show ?thesis unfolding eq by simp
    qed
  qed
  from this [of k "?loop arrived k"] assms(3-5) show ?thesis by auto
qed

definition coordinator_know :: "transaction_config \<Rightarrow> know" where
  "coordinator_know cfg =
     \<lparr>kn_seen = {}, kn_votes = 0, kn_fact = (if participants cfg = [] then Some True else None),
      kn_ticket = False, kn_yes = False, kn_req = set (participants cfg)\<rparr>"

definition participant_know :: know where
  "participant_know =
     \<lparr>kn_seen = {}, kn_votes = 0, kn_fact = None, kn_ticket = True, kn_yes = False, kn_req = {}\<rparr>"

lemma wire_text_decisions: "wire_text ''VOTEREQ''" "wire_text ''VOTEYES''" "wire_text ''COMMIT''" "wire_text ''ABORT''"
  by simp_all

lemma endpoint_requests [simp]:
  "endpoint (group_request self type text) = type"
  "endpoint (coordinator_request self type) = type"
  by (simp_all add: group_request_def coordinator_request_def TCPRequest_of_params_def)

lemma disciplined_coordinator:
  assumes "orderly_config (config self)" and "plain_host (hostname self)"
  shows "disciplined (config self) me (coordinator_know (config self))
    (PaperCoordinator_handleTransaction self)"
proof -
  let ?cfg = "config self" and ?k = "coordinator_know (config self)"
  have decided: "disciplined ?cfg me k (paper_coordinator_decided self' d)"
    if "justified d k" and "d = ''COMMIT'' \<or> d = ''ABORT''" and "config self' = ?cfg"
      and "hostname self' = hostname self" for k d self'
  proof -
    have "sound_request ?cfg (group_request self' d '''')"
      using that assms by (intro sound_group_request) auto
    then show ?thesis
      using that by (auto simp: paper_coordinator_decided_def sendToParticipants_def send_def may_send_def
          intro!: disciplined_intros disciplined_send_each)
  qed
  have voting: "disciplined ?cfg me k (SetTimeoutStart (voting_loop T (length (participants (config self'))) 0
      (Paper_terminationProtocol self' (paper_coordinator_decided self'))
      (paper_coordinator_decided self')))"
    if "config self' = ?cfg" and "hostname self' = hostname self" and "kn_votes k = 0"
      and "kn_fact k = kn_fact ?k" for self' k T
    unfolding voting_loop_def that(1) using that
    by (intro d_start disciplined_voting disciplined_termination decided)
       (auto simp: coordinator_know_def)
  have "sound_request ?cfg (group_request self ''VOTEREQ'' (config_to_string ?cfg))"
    using assms by (intro sound_group_request) (auto simp: wire_text_config)
  then show ?thesis
    unfolding PaperCoordinator_handleTransaction_def sendToParticipants_def send_def
    using assms
    by (intro d_record disciplined_ask_each d_replies voting)
       (auto simp: coordinator_know_def orderly_config_def)
qed

lemma disciplined_participant:
  assumes "orderly_config (config self)" and "plain_host (hostname self)"
    and "hostname self \<in> set (participants (config self))"
  shows "disciplined (config self) (hostname self) participant_know (PaperParticipant_handleTransaction self)"
proof -
  let ?cfg = "config self" and ?me = "hostname self"
  have ps: "participants ?cfg \<noteq> []" using assms(3) by auto
  have sound: "sound_request ?cfg (coordinator_request self type)" if "type = ''VOTEYES'' \<or> type = ''ABORT''" for type
    using that assms by (intro sound_coordinator_request) auto
  have no: "disciplined ?cfg ?me k (sendToCoordinator self ''ABORT'' (\<lambda>self. Return ''ABORT''))"
    if "kn_fact k = Some False" for k
    using that sound [of "''ABORT''"]
    by (auto simp: sendToCoordinator_def Let_def may_send_def justified_def intro!: disciplined_intros)
  have decided: "disciplined ?cfg ?me k (paper_participant_decided self d)"
    if "justified d k" and "d = ''COMMIT'' \<or> d = ''ABORT''" and "?me \<in> kn_seen k" for k d
    using that by (auto simp: paper_participant_decided_def LOG_WRITE_tx_def justified_def
        intro!: disciplined_intros)
  have execution: "disciplined ?cfg ?me k (paper_participant_execution self)" if "?me \<in> kn_seen k" for k
  proof -
    have "disciplined ?cfg ?me (learn_message (participants ?cfg) m k)
        (case m of Some m \<Rightarrow> Record ''received-decision''
            (if rq_type m = Commit then paper_participant_decided self ''COMMIT''
             else if rq_type m = Abort then paper_participant_decided self ''ABORT''
             else Throw Assertion_failed)
        | None \<Rightarrow> Paper_terminationProtocol self (paper_participant_decided self))" for m
    proof (cases m)
      case None
      have "disciplined ?cfg ?me k (Paper_terminationProtocol self (paper_participant_decided self))"
        using that ps by (intro disciplined_termination decided) auto
      with None show ?thesis by simp
    next
      case (Some r)
      then show ?thesis
        using that by (auto intro!: d_record d_throw decided simp: justified_def)
    qed
    then show ?thesis unfolding paper_participant_execution_def by (intro d_start d_wait)
  qed
  have yes: "disciplined ?cfg ?me k (sendToCoordinator self ''VOTEYES'' (\<lambda>self.
      Record ''sent-yes'' (paper_participant_execution self)))" if "kn_yes k" and "?me \<in> kn_seen k" for k
    using that sound [of "''VOTEYES''"]
    by (auto simp: sendToCoordinator_def Let_def may_send_def intro!: disciplined_intros execution)
  have "disciplined ?cfg ?me (learn_own_vote (participants ?cfg) ?me r participant_know)
      (if r = ''VOTEYES'' then Record ''responding-yes'' (sendToCoordinator self ''VOTEYES'' (\<lambda>self.
          Record ''sent-yes'' (paper_participant_execution self)))
       else sendToCoordinator self ''ABORT'' (\<lambda>self. Return ''ABORT''))" for r
    by (auto simp: learn_own_vote_def learn_vote_def intro!: d_record yes no)
  then show ?thesis
    unfolding PaperParticipant_handleTransaction_def
    by (auto simp: LOG_ONCE_tx_def participant_know_def intro!: d_record d_vote d_log_vote no)
qed

end
