(* ===== verification/Cornus_System.thy ===== *)
theory Cornus_System
  imports Global_Handler "HOL-Library.Multiset"
begin

text \<open>
  The system: several nodes, the requests on their way between them, and the DBMS. One step is one
  interaction of one handler thread, the arrival of a request at a node, the start of a client
  request, the loss of a request, or the crash of a node. Requests may be delayed and overtake each
  other without bound, and a wait may time out whenever the queue is empty, so the runs here include
  those of every timing. A thread that throws stops; since a node may crash at any time this covers
  that the exception ends its process. A crashed node does not come back.
\<close>

section \<open>States\<close>

record cornus =
  nodes :: "host \<rightharpoonup> node"
  heap :: "handler_object list"
  net :: "(host \<times> tcp_request) multiset"
  store :: log_store
  done_commits :: "(host \<times> transaction_id) list"      \<comment> \<open>the commits that workers have done\<close>

definition start :: "(host \<rightharpoonup> host_config) \<Rightarrow> cornus" where
  "start hosts =
     \<lparr>nodes = (\<lambda>h. map_option start_node (hosts h)), heap = [], net = {#}, store = Map.empty,
      done_commits = []\<rparr>"

text \<open>What becomes of a request on the wire: too long a request is not sent at all.\<close>

definition transmit :: "host \<Rightarrow> tcp_request \<Rightarrow> (host \<times> tcp_request) multiset" where
  "transmit h req =
     (case encode_request req of
        None \<Rightarrow> {#}
      | Some bytes \<Rightarrow>
          (case getRequest bytes of Inr (Some r) \<Rightarrow> {#(h, r)#} | _ \<Rightarrow> {#}))"

section \<open>One interaction of a thread\<close>

text \<open>
  \<open>thread_step ob ls ob' ls' out done\<close>: the object and the logs before and after, the requests sent
  and the commits done. Connecting and the wait for replies depend on other hosts and may block or end
  in an exception; the relation says what happens if they end well. For what holds in all runs this is
  enough, since any thread may stay where it is; \<open>Paper_Progress\<close> names what must not block.
\<close>

inductive thread_step ::
  "handler_object \<Rightarrow> log_store \<Rightarrow> handler_object \<Rightarrow> log_store \<Rightarrow> (host \<times> tcp_request) multiset \<Rightarrow>
   (host \<times> transaction_id) list \<Rightarrow> bool"
where
  record_event: "ob_proc ob = Record s p \<Longrightarrow> thread_step ob ls (ob\<lparr>ob_proc := p\<rparr>) ls {#} []"
| timeout_start: "ob_proc ob = SetTimeoutStart p \<Longrightarrow> thread_step ob ls (ob\<lparr>ob_proc := p\<rparr>) ls {#} []"
| take_message:
    "ob_proc ob = WaitForNextMessage timeout k \<Longrightarrow> popFront (ob_messages ob) = Inr (m, q) \<Longrightarrow>
     thread_step ob ls (ob\<lparr>ob_proc := k (Some m), ob_messages := q\<rparr>) ls {#} []"
| time_out:
    "ob_proc ob = WaitForNextMessage timeout k \<Longrightarrow> mq_q (ob_messages ob) = [] \<Longrightarrow>
     thread_step ob ls (ob\<lparr>ob_proc := k None\<rparr>) ls {#} []"
| connected: "ob_proc ob = Connect h p \<Longrightarrow> thread_step ob ls (ob\<lparr>ob_proc := p\<rparr>) ls {#} []"
| send_request:
    "ob_proc ob = Send h req p \<Longrightarrow> thread_step ob ls (ob\<lparr>ob_proc := p\<rparr>) ls (transmit h req) []"
| replies: "ob_proc ob = AwaitReplies hs p \<Longrightarrow> thread_step ob ls (ob\<lparr>ob_proc := p\<rparr>) ls {#} []"
| dbms_operation:
    "ob_proc ob = Dbms op k \<Longrightarrow> dbms_call op ls = (Inr r, ls') \<Longrightarrow>
     thread_step ob ls (ob\<lparr>ob_proc := k r\<rparr>) ls' {#} []"
| vote: "ob_proc ob = VoteReq s k \<Longrightarrow> thread_step ob ls (ob\<lparr>ob_proc := k b\<rparr>) ls {#} []"
| worker_commit:
    "ob_proc ob = WorkerCommit s p \<Longrightarrow>
     thread_step ob ls (ob\<lparr>ob_proc := p\<rparr>) ls {#} [(ob_host ob, txid (ob_config ob))]"
| return: "ob_proc ob = Return d \<Longrightarrow> ob_returned ob = None \<Longrightarrow>
     thread_step ob ls (ob\<lparr>ob_returned := Some d\<rparr>) ls {#} []"
| detach: "ob_proc ob = Detach d p \<Longrightarrow> ob_returned ob = None \<Longrightarrow>
     thread_step ob ls (ob\<lparr>ob_proc := p, ob_returned := Some d\<rparr>) ls {#} []"

section \<open>One step of the system\<close>

inductive cornus_step :: "version \<Rightarrow> cornus \<Rightarrow> cornus \<Rightarrow> bool" for ver where
  client_request:
    "nodes s h = Some nd \<Longrightarrow> onClientRequest ver cfg nd (heap s) = Inr (nd', heap') \<Longrightarrow>
     cornus_step ver s (s\<lparr>nodes := (nodes s)(h \<mapsto> nd'), heap := heap'\<rparr>)"
| arrival:
    "nodes s h = Some nd \<Longrightarrow> net s = add_mset (h, req) rest \<Longrightarrow>
     dispatch ver tcp req nd (heap s) = Inr (nd', heap') \<Longrightarrow>
     cornus_step ver s (s\<lparr>nodes := (nodes s)(h \<mapsto> nd'), heap := heap', net := rest\<rparr>)"
| loss:
    "net s = add_mset (h, req) rest \<Longrightarrow> cornus_step ver s (s\<lparr>net := rest\<rparr>)"
| thread:
    "i < length (heap s) \<Longrightarrow> nodes s (ob_host (heap s ! i)) \<noteq> None \<Longrightarrow>
     thread_step (heap s ! i) (store s) ob' ls' out commits \<Longrightarrow>
     cornus_step ver s (s\<lparr>heap := (heap s)[i := ob'], store := ls', net := net s + out,
       done_commits := done_commits s @ commits\<rparr>)"
| unregister:
    "i < length (heap s) \<Longrightarrow> nodes s (ob_host (heap s ! i)) = Some nd \<Longrightarrow>
     ob_returned (heap s ! i) \<noteq> None \<Longrightarrow> \<not> ob_removed (heap s ! i) \<Longrightarrow>
     cornus_step ver s (s\<lparr>nodes := (nodes s)(ob_host (heap s ! i) \<mapsto>
       removeFromMap (txid (ob_config (heap s ! i))) (ob_map (heap s ! i)) nd),
       heap := (heap s)[i := (heap s ! i)\<lparr>ob_removed := True\<rparr>]\<rparr>)"
| crash:
    "cornus_step ver s (s\<lparr>nodes := (nodes s)(h := None)\<rparr>)"

inductive reach :: "version \<Rightarrow> (host \<rightharpoonup> host_config) \<Rightarrow> cornus \<Rightarrow> bool" for ver hosts where
  reach_start: "reach ver hosts (start hosts)"
| reach_step: "reach ver hosts s \<Longrightarrow> cornus_step ver s s' \<Longrightarrow> reach ver hosts s'"

inductive_cases thread_stepE: "thread_step ob ls ob' ls' out commits"
inductive_cases cornus_stepE: "cornus_step ver s s'"

end
