(* ===== verification/Paper_Safety.thy ===== *)
theory Paper_Safety
  imports Paper_Discipline Cornus_System
begin

text \<open>
  Agreement for the paper version. The invariant follows a run with two ghosts: what every thread
  knows, and, for each transaction, the participants that have logged their vote. A commit is
  justified when all participants have voted, an abort when some participant has not and never will.
\<close>

section \<open>Counting votes and tickets\<close>

type_synonym known_object = "handler_object \<times> know"
type_synonym network = "(host \<times> tcp_request) multiset"

abbreviation ob_txid :: "handler_object \<Rightarrow> transaction_id" where
  "ob_txid ob \<equiv> txid (ob_config ob)"

definition queued_votes :: "handler_object \<Rightarrow> nat" where
  "queued_votes ob = length (filter (\<lambda>m. rq_type m = voteYes) (mq_q (ob_messages ob)))"

definition votes_of :: "transaction_id \<Rightarrow> known_object \<Rightarrow> nat" where
  "votes_of t ok =
     (if ob_txid (fst ok) = t
      then kn_votes (snd ok) + queued_votes (fst ok) + of_bool (kn_yes (snd ok)) else 0)"

definition tickets_of :: "transaction_id \<Rightarrow> host \<Rightarrow> known_object \<Rightarrow> nat" where
  "tickets_of t h ok =
     (if ob_txid (fst ok) = t
      then of_bool (h \<in> kn_req (snd ok)) + of_bool (kn_ticket (snd ok) \<and> ob_host (fst ok) = h) else 0)"

definition vote_message :: "transaction_id \<Rightarrow> host \<times> tcp_request \<Rightarrow> nat" where
  "vote_message t x = of_bool (endpoint (snd x) = ''VOTEYES'' \<and> getTxId (snd x) = Inr t)"

definition ticket_message :: "transaction_id \<Rightarrow> host \<Rightarrow> host \<times> tcp_request \<Rightarrow> nat" where
  "ticket_message t h x = of_bool (fst x = h \<and> endpoint (snd x) = ''VOTEREQ'' \<and> getTxId (snd x) = Inr t)"

definition votes :: "transaction_id \<Rightarrow> known_object list \<Rightarrow> network \<Rightarrow> nat" where
  "votes t os N = sum_list (map (votes_of t) os) + (\<Sum>x \<in># N. vote_message t x)"

definition tickets :: "transaction_id \<Rightarrow> host \<Rightarrow> known_object list \<Rightarrow> network \<Rightarrow> nat" where
  "tickets t h os N = sum_list (map (tickets_of t h) os) + (\<Sum>x \<in># N. ticket_message t h x)"

lemma sum_list_map_update:
  fixes f :: "'a \<Rightarrow> nat"
  shows "i < length xs \<Longrightarrow> sum_list (map f (xs[i := x])) + f (xs ! i) = sum_list (map f xs) + f x"
  by (induction xs arbitrary: i) (auto split: nat.split simp: nth_Cons')

lemma votes_update:
  "i < length os \<Longrightarrow>
   votes t (os[i := ok]) (N + M) + votes_of t (os ! i) =
   votes t os N + votes_of t ok + (\<Sum>x \<in># M. vote_message t x)"
  using sum_list_map_update [of i os "votes_of t" ok] by (simp add: votes_def)

lemma tickets_update:
  "i < length os \<Longrightarrow>
   tickets t h (os[i := ok]) (N + M) + tickets_of t h (os ! i) =
   tickets t h os N + tickets_of t h ok + (\<Sum>x \<in># M. ticket_message t h x)"
  using sum_list_map_update [of i os "tickets_of t h" ok] by (simp add: tickets_def)

section \<open>The invariant\<close>

type_synonym voters = "transaction_id \<Rightarrow> host set"

definition is_coordinated :: "transaction_config \<Rightarrow> known_object list \<Rightarrow> bool" where
  "is_coordinated cfg os \<longleftrightarrow>
     (\<exists>ok \<in> set os. ob_class (fst ok) = CoordinatorNode \<and> ob_config (fst ok) = cfg)"

definition commit_ok :: "transaction_config \<Rightarrow> voters \<Rightarrow> bool" where
  "commit_ok cfg V \<longleftrightarrow> set (participants cfg) \<subseteq> V (txid cfg)"

definition abort_ok ::
  "transaction_config \<Rightarrow> voters \<Rightarrow> known_object list \<Rightarrow> network \<Rightarrow> log_store \<Rightarrow> bool" where
  "abort_ok cfg V os N ls \<longleftrightarrow>
     (\<exists>h \<in> set (participants cfg). h \<notin> V (txid cfg) \<and>
        (decisions ls (txid cfg, h) = ''ABORT'' \<or> tickets (txid cfg) h os N = 0))"

definition supported ::
  "string \<Rightarrow> transaction_config \<Rightarrow> voters \<Rightarrow> known_object list \<Rightarrow> network \<Rightarrow> log_store \<Rightarrow> bool" where
  "supported d cfg V os N ls \<longleftrightarrow>
     (d = ''COMMIT'' \<longrightarrow> commit_ok cfg V) \<and> (d = ''ABORT'' \<longrightarrow> abort_ok cfg V os N ls)"

definition knows ::
  "know \<Rightarrow> transaction_config \<Rightarrow> voters \<Rightarrow> known_object list \<Rightarrow> network \<Rightarrow> log_store \<Rightarrow> bool" where
  "knows k cfg V os N ls \<longleftrightarrow>
     kn_seen k \<subseteq> V (txid cfg) \<and> (kn_fact k = Some True \<longrightarrow> commit_ok cfg V) \<and>
     (kn_fact k = Some False \<longrightarrow> abort_ok cfg V os N ls)"

definition good_object ::
  "known_object \<Rightarrow> voters \<Rightarrow> known_object list \<Rightarrow> network \<Rightarrow> log_store \<Rightarrow> bool" where
  "good_object ok V os N ls \<longleftrightarrow>
     (case ok of (ob, k) \<Rightarrow>
       is_coordinated (ob_config ob) os \<and> disciplined (ob_config ob) (ob_host ob) k (ob_proc ob) \<and>
       knows k (ob_config ob) V os N ls \<and>
       (kn_ticket k \<longrightarrow> ob_host ob \<in> set (participants (ob_config ob))) \<and>
       kn_req k \<subseteq> set (participants (ob_config ob)) \<and>
       (\<forall>m \<in> set (mq_q (ob_messages ob)).
          (rq_type m = Commit \<longrightarrow> commit_ok (ob_config ob) V) \<and>
          (rq_type m = Abort \<longrightarrow> abort_ok (ob_config ob) V os N ls)) \<and>
       (\<forall>d. ob_returned ob = Some d \<longrightarrow> supported d (ob_config ob) V os N ls))"

definition good_message ::
  "host \<times> tcp_request \<Rightarrow> voters \<Rightarrow> known_object list \<Rightarrow> network \<Rightarrow> log_store \<Rightarrow> bool" where
  "good_message x V os N ls \<longleftrightarrow>
     (\<exists>cfg. is_coordinated cfg os \<and> getTxId (snd x) = Inr (txid cfg) \<and>
        endpoint (snd x) \<in> {''VOTEREQ'', ''VOTEYES'', ''COMMIT'', ''ABORT''} \<and>
        (endpoint (snd x) = ''VOTEREQ'' \<longrightarrow>
           fst x \<in> set (participants cfg) \<and> getParam ''config'' (snd x) = Inr (config_to_string cfg)) \<and>
        supported (endpoint (snd x)) cfg V os N ls)"

definition good_logs :: "voters \<Rightarrow> known_object list \<Rightarrow> network \<Rightarrow> log_store \<Rightarrow> bool" where
  "good_logs V os N ls \<longleftrightarrow>
     (\<forall>t h. (h \<in> V t \<longrightarrow> decisions ls (t, h) \<noteq> ''WORKING'') \<and>
        (decisions ls (t, h) \<noteq> ''WORKING'' \<longrightarrow>
           (\<exists>cfg. is_coordinated cfg os \<and> txid cfg = t \<and> h \<in> set (participants cfg) \<and>
              (decisions ls (t, h) = ''VOTEYES'' \<longrightarrow> h \<in> V t) \<and>
              supported (decisions ls (t, h)) cfg V os N ls)))"

definition good_counts :: "voters \<Rightarrow> known_object list \<Rightarrow> network \<Rightarrow> bool" where
  "good_counts V os N \<longleftrightarrow>
     (\<forall>cfg. is_coordinated cfg os \<longrightarrow>
        votes (txid cfg) os N \<le> card (V (txid cfg)) \<and> V (txid cfg) \<subseteq> set (participants cfg) \<and>
        (\<forall>h. tickets (txid cfg) h os N + of_bool (h \<in> V (txid cfg)) \<le> 1))"

definition good_configs :: "known_object list \<Rightarrow> bool" where
  "good_configs os \<longleftrightarrow>
     (\<forall>cfg. is_coordinated cfg os \<longrightarrow> orderly_config cfg) \<and>
     (\<forall>cfg cfg'. is_coordinated cfg os \<longrightarrow> is_coordinated cfg' os \<longrightarrow> txid cfg = txid cfg' \<longrightarrow> cfg = cfg')"

definition good_nodes :: "(host \<rightharpoonup> node) \<Rightarrow> known_object list \<Rightarrow> bool" where
  "good_nodes nds os \<longleftrightarrow>
     (\<forall>h nd. nds h = Some nd \<longrightarrow> hc_id (nd_hostConfig nd) = h \<and> plain_host h \<and>
        (\<forall>t i. nd_handlers nd t = Some i \<longrightarrow> i < length os \<and> ob_txid (fst (os ! i)) = t))"

definition paper_invariant ::
  "(host \<rightharpoonup> node) \<Rightarrow> known_object list \<Rightarrow> network \<Rightarrow> log_store \<Rightarrow> voters \<Rightarrow> bool" where
  "paper_invariant nds os N ls V \<longleftrightarrow>
     (\<forall>ok \<in> set os. good_object ok V os N ls) \<and> (\<forall>x \<in># N. good_message x V os N ls) \<and>
     good_logs V os N ls \<and> good_counts V os N \<and> good_configs os \<and> good_nodes nds os"

lemmas good_defs = good_object_def good_message_def good_logs_def good_counts_def good_configs_def
  good_nodes_def

section \<open>What stays true\<close>

text \<open>Later states have the same coordinators and more votes, and aborts stay justified.\<close>

definition later ::
  "voters \<Rightarrow> known_object list \<Rightarrow> network \<Rightarrow> log_store \<Rightarrow>
   voters \<Rightarrow> known_object list \<Rightarrow> network \<Rightarrow> log_store \<Rightarrow> bool" where
  "later V os N ls V' os' N' ls' \<longleftrightarrow>
     (\<forall>cfg. is_coordinated cfg os \<longrightarrow> is_coordinated cfg os') \<and> (\<forall>t. V t \<subseteq> V' t) \<and>
     (\<forall>cfg. is_coordinated cfg os \<longrightarrow> abort_ok cfg V os N ls \<longrightarrow> abort_ok cfg V' os' N' ls')"

lemma laterI:
  assumes "\<And>cfg. is_coordinated cfg os \<Longrightarrow> is_coordinated cfg os'" and "\<And>t. V t \<subseteq> V' t"
    and "\<And>cfg h. is_coordinated cfg os \<Longrightarrow> tickets (txid cfg) h os' N' \<le> tickets (txid cfg) h os N"
    and "\<And>t h. h \<in> V' t \<Longrightarrow> h \<in> V t \<or> (decisions ls (t, h) \<noteq> ''ABORT'' \<and> 0 < tickets t h os N)"
    and "\<And>t h. h \<notin> V' t \<Longrightarrow> decisions ls (t, h) = ''ABORT'' \<Longrightarrow> decisions ls' (t, h) = ''ABORT''"
  shows "later V os N ls V' os' N' ls'"
proof -
  have "abort_ok cfg V' os' N' ls'" if c: "is_coordinated cfg os" and a: "abort_ok cfg V os N ls" for cfg
  proof -
    obtain h where h: "h \<in> set (participants cfg)" "h \<notin> V (txid cfg)"
      and e: "decisions ls (txid cfg, h) = ''ABORT'' \<or> tickets (txid cfg) h os N = 0"
      using a by (auto simp: abort_ok_def)
    have "h \<notin> V' (txid cfg)" using assms(4) [of h "txid cfg"] h e by auto
    moreover have "decisions ls' (txid cfg, h) = ''ABORT'' \<or> tickets (txid cfg) h os' N' = 0"
      using e assms(3) [OF c, of h] assms(5) [OF \<open>h \<notin> V' (txid cfg)\<close>] by auto
    ultimately show ?thesis using h by (auto simp: abort_ok_def)
  qed
  with assms(1,2) show ?thesis by (simp add: later_def)
qed

lemma later_commit_ok: "later V os N ls V' os' N' ls' \<Longrightarrow> commit_ok cfg V \<Longrightarrow> commit_ok cfg V'"
  by (auto simp: later_def commit_ok_def)

lemma later_abort_ok:
  "later V os N ls V' os' N' ls' \<Longrightarrow> is_coordinated cfg os \<Longrightarrow> abort_ok cfg V os N ls \<Longrightarrow>
   abort_ok cfg V' os' N' ls'"
  by (auto simp: later_def)

lemma later_supported:
  "later V os N ls V' os' N' ls' \<Longrightarrow> is_coordinated cfg os \<Longrightarrow> supported d cfg V os N ls \<Longrightarrow>
   supported d cfg V' os' N' ls'"
  by (auto simp: supported_def dest: later_commit_ok later_abort_ok)

lemma later_knows:
  "later V os N ls V' os' N' ls' \<Longrightarrow> is_coordinated cfg os \<Longrightarrow> knows k cfg V os N ls \<Longrightarrow>
   knows k cfg V' os' N' ls'"
  by (auto simp: knows_def dest: later_commit_ok later_abort_ok) (auto simp: later_def)

lemma later_good_object:
  "later V os N ls V' os' N' ls' \<Longrightarrow> good_object ok V os N ls \<Longrightarrow> good_object ok V' os' N' ls'"
  by (auto simp: good_object_def split: prod.splits
      dest: later_commit_ok later_abort_ok later_supported later_knows)
     (auto simp: later_def)

lemma later_coordinated:
  "later V os N ls V' os' N' ls' \<Longrightarrow> is_coordinated cfg os \<Longrightarrow> is_coordinated cfg os'"
  by (simp add: later_def)

lemma later_good_message:
  assumes later: "later V os N ls V' os' N' ls'" and "good_message x V os N ls"
  shows "good_message x V' os' N' ls'"
proof -
  obtain cfg where "is_coordinated cfg os" "getTxId (snd x) = Inr (txid cfg)"
    "endpoint (snd x) \<in> {''VOTEREQ'', ''VOTEYES'', ''COMMIT'', ''ABORT''}"
    "endpoint (snd x) = ''VOTEREQ'' \<longrightarrow>
       fst x \<in> set (participants cfg) \<and> getParam ''config'' (snd x) = Inr (config_to_string cfg)"
    "supported (endpoint (snd x)) cfg V os N ls"
    using assms(2) unfolding good_message_def by blast
  then show ?thesis
    unfolding good_message_def
    by (intro exI [of _ cfg] conjI) (auto intro: later_coordinated [OF later] later_supported [OF later])
qed

text \<open>The part of \<open>good_logs\<close> about one entry.\<close>

definition good_entry ::
  "string \<Rightarrow> transaction_id \<Rightarrow> host \<Rightarrow> voters \<Rightarrow> known_object list \<Rightarrow> network \<Rightarrow> log_store \<Rightarrow> bool" where
  "good_entry d t h V os N ls \<longleftrightarrow>
     (h \<in> V t \<longrightarrow> d \<noteq> ''WORKING'') \<and>
     (d \<noteq> ''WORKING'' \<longrightarrow>
        (\<exists>cfg. is_coordinated cfg os \<and> txid cfg = t \<and> h \<in> set (participants cfg) \<and>
           (d = ''VOTEYES'' \<longrightarrow> h \<in> V t) \<and> supported d cfg V os N ls))"

lemma good_logs_entries: "good_logs V os N ls \<longleftrightarrow> (\<forall>t h. good_entry (decisions ls (t, h)) t h V os N ls)"
  by (simp add: good_logs_def good_entry_def)

lemma later_good_entry:
  assumes later: "later V os N ls V' os' N' ls'" and "good_entry d t h V os N ls"
    and "h \<in> V' t \<Longrightarrow> h \<in> V t"
  shows "good_entry d t h V' os' N' ls'"
proof (cases "d = ''WORKING''")
  case True
  with assms show ?thesis by (auto simp: good_entry_def)
next
  case False
  with assms(2) obtain cfg where "is_coordinated cfg os" "txid cfg = t" "h \<in> set (participants cfg)"
    "d = ''VOTEYES'' \<longrightarrow> h \<in> V t" "supported d cfg V os N ls"
    unfolding good_entry_def by blast
  moreover have "V t \<subseteq> V' t" using later by (simp add: later_def)
  ultimately show ?thesis
    using False unfolding good_entry_def
    by (intro conjI impI exI [of _ cfg])
       (auto intro: later_coordinated [OF later] later_supported [OF later])
qed

lemma later_good_logs:
  "later V os N ls V os' N' ls \<Longrightarrow> good_logs V os N ls \<Longrightarrow> good_logs V os' N' ls"
  by (auto simp: good_logs_entries intro: later_good_entry)

section \<open>Steps of threads\<close>

text \<open>The new state of an object: class, host and configuration never change.\<close>

definition same_object :: "handler_object \<Rightarrow> handler_object \<Rightarrow> bool" where
  "same_object ob ob' \<longleftrightarrow>
     ob_host ob' = ob_host ob \<and> ob_class ob' = ob_class ob \<and> ob_config ob' = ob_config ob"

lemma is_coordinated_map:
  "is_coordinated cfg os \<longleftrightarrow>
   (CoordinatorNode, cfg) \<in> set (map (\<lambda>ok. (ob_class (fst ok), ob_config (fst ok))) os)"
  by (force simp: is_coordinated_def)

lemma is_coordinated_update:
  assumes "i < length os" and "same_object (fst (os ! i)) (fst ok)"
  shows "is_coordinated cfg (os[i := ok]) \<longleftrightarrow> is_coordinated cfg os"
proof -
  have "map (\<lambda>ok. (ob_class (fst ok), ob_config (fst ok))) (os[i := ok]) =
      map (\<lambda>ok. (ob_class (fst ok), ob_config (fst ok))) os"
    using assms by (intro nth_equalityI) (auto simp: nth_list_update same_object_def)
  then show ?thesis unfolding is_coordinated_map by (simp only:)
qed

lemma good_nodes_update:
  "good_nodes nds os \<Longrightarrow> i < length os \<Longrightarrow> same_object (fst (os ! i)) (fst ok) \<Longrightarrow>
   good_nodes nds (os[i := ok])"
  by (auto simp: good_nodes_def nth_list_update same_object_def)

lemma good_configs_update:
  "good_configs os \<Longrightarrow> i < length os \<Longrightarrow> same_object (fst (os ! i)) (fst ok) \<Longrightarrow>
   good_configs (os[i := ok])"
  by (simp add: good_configs_def is_coordinated_update)

lemma invariant_update:
  assumes "paper_invariant nds os N ls V" and "i < length os"
    and "same_object (fst (os ! i)) (fst ok)"
    and "later V os N ls V' (os[i := ok]) (N + M) ls'"
    and "good_object ok V' (os[i := ok]) (N + M) ls'"
    and "\<And>x. x \<in># M \<Longrightarrow> good_message x V' (os[i := ok]) (N + M) ls'"
    and "good_logs V' (os[i := ok]) (N + M) ls'" and "good_counts V' (os[i := ok]) (N + M)"
  shows "paper_invariant nds (os[i := ok]) (N + M) ls' V'"
  using assms unfolding paper_invariant_def
  by (auto dest!: set_update_subset_insert [THEN subsetD]
      intro: later_good_object later_good_message good_nodes_update good_configs_update)

lemma good_counts_le:
  assumes "good_counts V os N" and "\<And>cfg. is_coordinated cfg os' \<Longrightarrow> is_coordinated cfg os"
    and "\<And>t. votes t os' N' \<le> votes t os N" and "\<And>t h. tickets t h os' N' \<le> tickets t h os N"
  shows "good_counts V os' N'"
  using assms unfolding good_counts_def by (meson add_le_mono1 order_trans)

text \<open>Steps that neither log nor add votes or tickets.\<close>

lemma invariant_quiet:
  assumes inv: "paper_invariant nds os N ls V" and i: "i < length os"
    and same: "same_object (fst (os ! i)) (fst ok)"
    and votes: "\<And>t. votes_of t ok + (\<Sum>x \<in># M. vote_message t x) \<le> votes_of t (os ! i)"
    and tickets: "\<And>t h. tickets_of t h ok + (\<Sum>x \<in># M. ticket_message t h x) \<le> tickets_of t h (os ! i)"
    and good: "later V os N ls V (os[i := ok]) (N + M) ls \<Longrightarrow>
      good_object ok V (os[i := ok]) (N + M) ls \<and> (\<forall>x \<in># M. good_message x V (os[i := ok]) (N + M) ls)"
  shows "paper_invariant nds (os[i := ok]) (N + M) ls V"
proof -
  let ?os = "os[i := ok]"
  have v: "votes t ?os (N + M) \<le> votes t os N" for t
    using votes_update [OF i, of t ok N M] votes [of t] by simp
  have tk: "tickets t h ?os (N + M) \<le> tickets t h os N" for t h
    using tickets_update [OF i, of t h ok N M] tickets [of t h] by simp
  have later: "later V os N ls V ?os (N + M) ls"
    by (rule laterI) (auto simp: is_coordinated_update [OF i same] tk)
  have "good_counts V ?os (N + M)"
    using inv v tk is_coordinated_update [OF i same]
    by (auto simp: paper_invariant_def intro: good_counts_le)
  moreover have "good_logs V ?os (N + M) ls"
    using inv later by (auto simp: paper_invariant_def intro: later_good_logs)
  ultimately show ?thesis
    using invariant_update [OF inv i same later] good [OF later] by blast
qed

lemma invariant_object:
  assumes "paper_invariant nds os N ls V" and "i < length os" and "os ! i = (ob, k)"
  shows "good_object (ob, k) V os N ls" and "is_coordinated (ob_config ob) os"
    and "orderly_config (ob_config ob)"
    and "disciplined (ob_config ob) (ob_host ob) k (ob_proc ob)"
    and "votes (ob_txid ob) os N \<le> card (V (ob_txid ob))"
    and "V (ob_txid ob) \<subseteq> set (participants (ob_config ob))"
    and "tickets (ob_txid ob) h os N + of_bool (h \<in> V (ob_txid ob)) \<le> 1"
    and "good_logs V os N ls"
proof -
  have "(ob, k) \<in> set os" using assms(2,3) by (metis nth_mem)
  with assms(1) show g: "good_object (ob, k) V os N ls" by (simp add: paper_invariant_def)
  then show c: "is_coordinated (ob_config ob) os" by (simp add: good_object_def)
  from g show "disciplined (ob_config ob) (ob_host ob) k (ob_proc ob)" by (simp add: good_object_def)
  from assms(1) c show "orderly_config (ob_config ob)"
    "votes (ob_txid ob) os N \<le> card (V (ob_txid ob))"
    "V (ob_txid ob) \<subseteq> set (participants (ob_config ob))"
    "tickets (ob_txid ob) h os N + of_bool (h \<in> V (ob_txid ob)) \<le> 1" "good_logs V os N ls"
    by (auto simp: paper_invariant_def good_counts_def good_configs_def)
qed

lemma votes_of_le: "i < length os \<Longrightarrow> votes_of t (os ! i) \<le> votes t os N"
  using member_le_sum_list [of "votes_of t (os ! i)" "map (votes_of t) os"]
  by (simp add: votes_def)

lemma tickets_of_le: "i < length os \<Longrightarrow> tickets_of t h (os ! i) \<le> tickets t h os N"
  using member_le_sum_list [of "tickets_of t h (os ! i)" "map (tickets_of t h) os"]
  by (simp add: tickets_def)

text \<open>A thread goes on with more knowledge, having taken some of its messages.\<close>

lemma invariant_learn:
  assumes inv: "paper_invariant nds os N ls V" and i: "i < length os" and ob: "os ! i = (ob, k)"
    and ob': "ob' = ob\<lparr>ob_proc := p, ob_messages := q\<rparr>"
    and queue: "set (mq_q q) \<subseteq> set (mq_q (ob_messages ob))"
    and disc: "disciplined (ob_config ob) (ob_host ob) k' p"
    and votes: "votes_of (ob_txid ob) (ob', k') \<le> votes_of (ob_txid ob) (ob, k)"
    and tickets: "kn_ticket k' \<longrightarrow> kn_ticket k" "kn_req k' \<subseteq> kn_req k"
    and know: "later V os N ls V (os[i := (ob', k')]) N ls \<Longrightarrow>
      knows k' (ob_config ob) V (os[i := (ob', k')]) N ls"
  shows "paper_invariant nds (os[i := (ob', k')]) N ls V"
proof -
  note g = invariant_object [OF inv i ob]
  let ?os = "os[i := (ob', k')]"
  have same: "same_object (fst (os ! i)) (fst (ob', k'))" using ob ob' by (simp add: same_object_def)
  have v: "votes_of t (ob', k') + (\<Sum>x \<in># {#}. vote_message t x) \<le> votes_of t (os ! i)" for t
    using votes ob ob' by (cases "t = ob_txid ob") (auto simp: votes_of_def)
  have tk: "tickets_of t h (ob', k') + (\<Sum>x \<in># {#}. ticket_message t h x) \<le> tickets_of t h (os ! i)" for t h
    using tickets ob ob' by (auto simp: tickets_of_def)
  have "good_object (ob', k') V ?os N ls" if later: "later V os N ls V ?os N ls"
    using later_good_object [OF later g(1)] know [OF later] disc queue tickets ob'
    by (auto simp: good_object_def)
  then show ?thesis
    using invariant_quiet [OF inv i same v tk] by simp
qed

lemma invariant_continue:
  assumes inv: "paper_invariant nds os N ls V" and i: "i < length os" and ob: "os ! i = (ob, k)"
    and disc: "disciplined (ob_config ob) (ob_host ob) k p"
  shows "paper_invariant nds (os[i := (ob\<lparr>ob_proc := p\<rparr>, k)]) N ls V"
proof (rule invariant_learn [OF inv i ob, where q = "ob_messages ob"])
  assume later: "later V os N ls V (os[i := (ob\<lparr>ob_proc := p\<rparr>, k)]) N ls"
  show "knows k (ob_config ob) V (os[i := (ob\<lparr>ob_proc := p\<rparr>, k)]) N ls"
    using later_knows [OF later] invariant_object(1,2) [OF inv i ob] by (simp add: good_object_def)
qed (use disc in \<open>simp_all add: votes_of_def queued_votes_def\<close>)

lemma invariant_take_message:
  assumes inv: "paper_invariant nds os N ls V" and i: "i < length os" and ob: "os ! i = (ob, k)"
    and front: "popFront (ob_messages ob) = Inr (m, q)"
    and disc: "disciplined (ob_config ob) (ob_host ob)
      (learn_message (participants (ob_config ob)) (Some m) k) p"
  shows "\<exists>k'. paper_invariant nds (os[i := (ob\<lparr>ob_proc := p, ob_messages := q\<rparr>, k')]) N ls V"
proof -
  let ?cfg = "ob_config ob" and ?t = "ob_txid ob"
  let ?k = "learn_message (participants ?cfg) (Some m) k"
  let ?os = "os[i := (ob\<lparr>ob_proc := p, ob_messages := q\<rparr>, ?k)]"
  note g = invariant_object [OF inv i ob]
  have queue: "mq_q (ob_messages ob) = m # mq_q q"
    using front by (auto simp: popFront_def split: list.splits)
  have know: "knows ?k ?cfg V ?os N ls" if later: "later V os N ls V ?os N ls"
  proof -
    have "commit_ok ?cfg V" if "rq_type m = voteYes" "Suc (kn_votes k) = length (participants ?cfg)"
    proof -
      have "length (participants ?cfg) \<le> votes_of ?t (os ! i)"
        using that queue ob by (simp add: votes_of_def queued_votes_def)
      then have "length (participants ?cfg) \<le> card (V ?t)"
        using votes_of_le [OF i, of ?t N] g(5) by linarith
      moreover have "length (participants ?cfg) = card (set (participants ?cfg))"
        using g(3) by (simp add: orderly_config_def distinct_card)
      ultimately show ?thesis
        using g(6) card_seteq [of "set (participants ?cfg)" "V ?t"] by (simp add: commit_ok_def)
    qed
    moreover have "rq_type m = Commit \<Longrightarrow> commit_ok ?cfg V" "rq_type m = Abort \<Longrightarrow> abort_ok ?cfg V os N ls"
      using g(1) queue by (auto simp: good_object_def)
    moreover have "knows k ?cfg V ?os N ls"
      using later_knows [OF later g(2)] g(1) by (simp add: good_object_def)
    ultimately show ?thesis
      using later_abort_ok [OF later g(2)] by (auto simp: knows_def)
  qed
  have "paper_invariant nds ?os N ls V"
    by (rule invariant_learn [OF inv i ob, where q = q])
       (use queue disc know in \<open>auto simp: votes_of_def queued_votes_def\<close>)
  then show ?thesis by blast
qed

lemma transmit_sound: "sound_request cfg req \<Longrightarrow> transmit h req = {#} \<or> transmit h req = {#(h, req)#}"
  by (auto simp: transmit_def sound_request_def split: option.split)

lemma justified_supported:
  "justified d k \<Longrightarrow> knows k cfg V os N ls \<Longrightarrow> supported d cfg V os N ls"
  by (auto simp: justified_def knows_def supported_def)

lemma invariant_send:
  assumes inv: "paper_invariant nds os N ls V" and i: "i < length os" and ob: "os ! i = (ob, k)"
    and sound: "sound_request (ob_config ob) req"
    and may: "may_send h (endpoint req) k = Some k'"
    and disc: "disciplined (ob_config ob) (ob_host ob) k' p"
  shows "paper_invariant nds (os[i := (ob\<lparr>ob_proc := p\<rparr>, k')]) (N + transmit h req) ls V"
proof -
  let ?cfg = "ob_config ob" and ?ok = "(ob\<lparr>ob_proc := p\<rparr>, k')" and ?M = "transmit h req"
  let ?os = "os[i := ?ok]"
  note g = invariant_object [OF inv i ob]
  have t: "getTxId req = Inr (txid ?cfg)" using sound by (simp add: sound_request_def)
  have same: "same_object (fst (os ! i)) (fst ?ok)" using ob by (simp add: same_object_def)
  have M: "(\<Sum>x \<in># ?M. f x) \<le> f (h, req)" for f :: "host \<times> tcp_request \<Rightarrow> nat"
    using transmit_sound [OF sound, of h] by (elim disjE) simp_all
  consider (ask) "endpoint req = ''VOTEREQ''" "h \<in> kn_req k" "k' = k\<lparr>kn_req := kn_req k - {h}\<rparr>"
    | (yes) "endpoint req = ''VOTEYES''" "kn_yes k" "k' = k\<lparr>kn_yes := False\<rparr>"
    | (decision) "endpoint req \<in> {''COMMIT'', ''ABORT''}" "k' = k"
    using may by (auto simp: may_send_def split: if_splits)
  note kinds = this
  have "votes_of t' ?ok + vote_message t' (h, req) \<le> votes_of t' (os ! i)" for t'
    by (cases rule: kinds) (auto simp: t ob votes_of_def queued_votes_def vote_message_def)
  then have v: "votes_of t' ?ok + (\<Sum>x \<in># ?M. vote_message t' x) \<le> votes_of t' (os ! i)" for t'
    using M [of "vote_message t'"] by (meson add_left_mono order_trans)
  have "tickets_of t' h' ?ok + ticket_message t' h' (h, req) \<le> tickets_of t' h' (os ! i)" for t' h'
    by (cases rule: kinds) (auto simp: t ob tickets_of_def ticket_message_def)
  then have tk: "tickets_of t' h' ?ok + (\<Sum>x \<in># ?M. ticket_message t' h' x) \<le> tickets_of t' h' (os ! i)" for t' h'
    using M [of "ticket_message t' h'"] by (meson add_left_mono order_trans)
  have "good_object ?ok V ?os (N + ?M) ls \<and> (\<forall>x \<in># ?M. good_message x V ?os (N + ?M) ls)"
    if later: "later V os N ls V ?os (N + ?M) ls"
  proof
    have obj: "good_object (ob, k) V ?os (N + ?M) ls" by (rule later_good_object [OF later g(1)])
    moreover have kk: "kn_seen k' = kn_seen k" "kn_fact k' = kn_fact k" "kn_ticket k' = kn_ticket k"
      "kn_req k' \<subseteq> kn_req k"
      using may by (auto simp: may_send_def split: if_splits)
    ultimately show "good_object ?ok V ?os (N + ?M) ls"
      using disc by (auto simp: good_object_def knows_def)
    have ep: "endpoint req \<in> {''VOTEREQ'', ''VOTEYES'', ''COMMIT'', ''ABORT''}"
      "endpoint req = ''VOTEREQ'' \<Longrightarrow> h \<in> set (participants ?cfg)"
      "endpoint req \<in> {''COMMIT'', ''ABORT''} \<Longrightarrow> justified (endpoint req) k"
      using may g(1) by (auto simp: may_send_def good_object_def split: if_splits)
    then have "supported (endpoint req) ?cfg V ?os (N + ?M) ls"
      using obj justified_supported [of "endpoint req" k] by (auto simp: good_object_def supported_def)
    then have "good_message (h, req) V ?os (N + ?M) ls"
      using ep t sound later_coordinated [OF later g(2)]
      unfolding good_message_def by (intro exI [of _ ?cfg]) (auto simp: sound_request_def)
    then show "\<forall>x \<in># ?M. good_message x V ?os (N + ?M) ls"
      using transmit_sound [OF sound, of h] by auto
  qed
  then show ?thesis by (rule invariant_quiet [OF inv i same v tk])
qed

lemma invariant_return:
  assumes inv: "paper_invariant nds os N ls V" and i: "i < length os" and ob: "os ! i = (ob, k)"
    and d: "justified d k"
  shows "paper_invariant nds (os[i := (ob\<lparr>ob_returned := Some d\<rparr>, k)]) N ls V"
proof -
  let ?ok = "(ob\<lparr>ob_returned := Some d\<rparr>, k)"
  note g = invariant_object [OF inv i ob]
  have same: "same_object (fst (os ! i)) (fst ?ok)" using ob by (simp add: same_object_def)
  have "good_object ?ok V (os[i := ?ok]) N ls" if later: "later V os N ls V (os[i := ?ok]) N ls"
    using later_good_object [OF later g(1)] justified_supported [OF d]
    by (auto simp: good_object_def)
  then show ?thesis
    using invariant_quiet [OF inv i same, of "{#}"] ob
    by (simp add: votes_of_def queued_votes_def tickets_of_def)
qed

section \<open>Steps at the logs\<close>

text \<open>Steps that change an object and the logs but send nothing.\<close>

lemma invariant_log:
  assumes inv: "paper_invariant nds os N ls V" and i: "i < length os" and ob: "os ! i = (ob, k)"
    and proc: "disciplined (ob_config ob) (ob_host ob) k' p"
    and later: "later V os N ls V' (os[i := (ob\<lparr>ob_proc := p\<rparr>, k')]) N ls'"
    and know: "knows k' (ob_config ob) V' (os[i := (ob\<lparr>ob_proc := p\<rparr>, k')]) N ls'"
    and tickets: "kn_ticket k' \<longrightarrow> kn_ticket k" "kn_req k' \<subseteq> kn_req k"
    and logs: "good_logs V' (os[i := (ob\<lparr>ob_proc := p\<rparr>, k')]) N ls'"
    and counts: "good_counts V' (os[i := (ob\<lparr>ob_proc := p\<rparr>, k')]) N"
  shows "paper_invariant nds (os[i := (ob\<lparr>ob_proc := p\<rparr>, k')]) N ls' V'"
proof -
  have same: "same_object (fst (os ! i)) (fst (ob\<lparr>ob_proc := p\<rparr>, k'))"
    using ob by (simp add: same_object_def)
  have "good_object (ob\<lparr>ob_proc := p\<rparr>, k') V' (os[i := (ob\<lparr>ob_proc := p\<rparr>, k')]) N ls'"
    using later_good_object [OF later invariant_object(1) [OF inv i ob]] know tickets proc
    by (auto simp: good_object_def)
  then show ?thesis
    using invariant_update [OF inv i same, where M = "{#}"] later logs counts by simp
qed

lemma counts_update:
  assumes inv: "paper_invariant nds os N ls V" and i: "i < length os" and ob: "os ! i = (ob, k)"
    and "\<And>t. votes_of t (ob', k') \<le> votes_of t (ob, k)"
    and "\<And>t h. tickets_of t h (ob', k') \<le> tickets_of t h (ob, k)"
    and same: "same_object ob ob'"
  shows "good_counts V (os[i := (ob', k')]) N" and "tickets t h (os[i := (ob', k')]) N \<le> tickets t h os N"
proof -
  have v: "votes t (os[i := (ob', k')]) N \<le> votes t os N" for t
    using votes_update [OF i, of t "(ob', k')" N "{#}"] assms(4) [of t] ob by simp
  have tk: "tickets t h (os[i := (ob', k')]) N \<le> tickets t h os N" for t h
    using tickets_update [OF i, of t h "(ob', k')" N "{#}"] assms(5) [of t h] ob by simp
  then show "tickets t h (os[i := (ob', k')]) N \<le> tickets t h os N" .
  have "same_object (fst (os ! i)) (fst (ob', k'))" using same ob by simp
  then show "good_counts V (os[i := (ob', k')]) N"
    using inv v tk is_coordinated_update [OF i]
    by (auto simp: paper_invariant_def intro: good_counts_le)
qed

lemma orderly_no_slash: "orderly_config cfg \<Longrightarrow> h \<in> set (participants cfg) \<Longrightarrow> no_slash h"
  by (simp add: orderly_config_def plain_host_def list_all_iff)

lemma logged_entry:
  assumes "paper_invariant nds os N ls V" and "is_coordinated cfg os"
    and "decisions ls (txid cfg, h) \<noteq> ''WORKING''"
  shows "decisions ls (txid cfg, h) = ''VOTEYES'' \<Longrightarrow> h \<in> V (txid cfg)"
    and "supported (decisions ls (txid cfg, h)) cfg V os N ls"
proof -
  have "good_entry (decisions ls (txid cfg, h)) (txid cfg) h V os N ls"
    using assms(1) by (simp add: paper_invariant_def good_logs_entries)
  then obtain cfg' where c: "is_coordinated cfg' os" "txid cfg' = txid cfg"
    "decisions ls (txid cfg, h) = ''VOTEYES'' \<longrightarrow> h \<in> V (txid cfg)"
    "supported (decisions ls (txid cfg, h)) cfg' V os N ls"
    using assms(3) unfolding good_entry_def by blast
  then have "cfg' = cfg" using assms(1,2) by (auto simp: paper_invariant_def good_configs_def)
  with c show "decisions ls (txid cfg, h) = ''VOTEYES'' \<Longrightarrow> h \<in> V (txid cfg)"
    and "supported (decisions ls (txid cfg, h)) cfg V os N ls" by simp_all
qed

lemma voted_is_logged:
  "paper_invariant nds os N ls V \<Longrightarrow> h \<in> V t \<Longrightarrow> decisions ls (t, h) \<noteq> ''WORKING''"
  by (auto simp: paper_invariant_def good_logs_entries good_entry_def)

lemma knows_learn_vote:
  "knows k cfg V os N ls \<Longrightarrow> h \<in> V (txid cfg) \<Longrightarrow>
   knows (learn_vote (participants cfg) h k) cfg V os N ls"
  by (auto simp: knows_def learn_vote_def commit_ok_def)

lemma knows_learn_log:
  assumes "supported r cfg V os N ls" and "r = ''VOTEYES'' \<Longrightarrow> h \<in> V (txid cfg)"
    and "knows k cfg V os N ls"
  shows "knows (learn_log (participants cfg) h r k) cfg V os N ls"
proof (cases "r = ''VOTEYES''")
  case True
  with assms knows_learn_vote show ?thesis by (simp add: learn_log_def)
next
  case False
  with assms show ?thesis by (simp add: learn_log_def knows_def supported_def)
qed

text \<open>A log entry is written and the others stay as they are.\<close>

lemma good_logs_write:
  assumes later: "later V os N ls V' os' N' ls'" and logs: "good_logs V os N ls"
    and D': "decisions ls' = (decisions ls)((t, h) := d)"
    and entry: "good_entry d t h V' os' N' ls'"
    and voters: "\<And>t' h'. (t', h') \<noteq> (t, h) \<Longrightarrow> h' \<in> V' t' \<Longrightarrow> h' \<in> V t'"
  shows "good_logs V' os' N' ls'"
  unfolding good_logs_entries
proof (intro allI)
  fix t' h'
  show "good_entry (decisions ls' (t', h')) t' h' V' os' N' ls'"
  proof (cases "(t', h') = (t, h)")
    case True
    with entry show ?thesis by (simp add: D')
  next
    case False
    have "good_entry (decisions ls (t', h')) t' h' V os N ls" using logs by (simp add: good_logs_entries)
    from later_good_entry [OF later this] voters [OF False] False show ?thesis by (auto simp: D')
  qed
qed

text \<open>The termination protocol closes or reads the log of a participant.\<close>

lemma invariant_log_once:
  assumes inv: "paper_invariant nds os N ls V" and i: "i < length os" and ob: "os ! i = (ob, k)"
    and h: "h \<in> set (participants (ob_config ob))"
    and call: "dbms_call (LOG_ONCE ''ABORT'' (ob_txid ob) h TRANSACTION) ls = (Inr r, ls')"
    and disc: "disciplined (ob_config ob) (ob_host ob) (learn_log (participants (ob_config ob)) h r k) p"
  shows "\<exists>k'. paper_invariant nds (os[i := (ob\<lparr>ob_proc := p\<rparr>, k')]) N ls' V"
proof -
  let ?cfg = "ob_config ob" and ?t = "ob_txid ob"
  let ?k = "learn_log (participants ?cfg) h r k"
  let ?ob = "ob\<lparr>ob_proc := p\<rparr>"
  let ?os = "os[i := (?ob, ?k)]"
  let ?D = "decisions ls"
  note g = invariant_object [OF inv i ob]
  have "no_slash h" using orderly_no_slash [OF g(3) h] .
  then have r: "r = (if ?D (?t, h) = ''WORKING'' then ''ABORT'' else ?D (?t, h))"
    and D': "decisions ls' = (if ?D (?t, h) = ''WORKING'' then ?D((?t, h) := ''ABORT'') else ?D)"
    using dbms_call_once [of h "''ABORT''" ?t ls] call
    by (auto simp: no_slash_def valid_decision_def)
  have same: "same_object ob ?ob" by (simp add: same_object_def)
  have v: "votes_of t (?ob, ?k) \<le> votes_of t (ob, k)" "tickets_of t h' (?ob, ?k) \<le> tickets_of t h' (ob, k)" for t h'
    by (simp_all add: votes_of_def tickets_of_def queued_votes_def learn_log_def learn_vote_def)
  note counts = counts_update [OF inv i ob v same]
  have later: "later V os N ls V ?os N ls'"
    using counts(2) by (intro laterI) (auto simp: is_coordinated_update [OF i] ob same D')
  have closed: "?D (?t, h) = ''WORKING'' \<Longrightarrow> abort_ok ?cfg V ?os N ls'"
    using voted_is_logged [OF inv, of h ?t] h D' by (auto simp: abort_ok_def)
  have know: "knows ?k ?cfg V ?os N ls'"
  proof -
    have "supported r ?cfg V ?os N ls'"
      using closed later_supported [OF later g(2) logged_entry(2) [OF inv g(2), of h]] r
      by (cases "?D (?t, h) = ''WORKING''") (auto simp: supported_def)
    moreover have "r = ''VOTEYES'' \<Longrightarrow> h \<in> V ?t"
      using logged_entry(1) [OF inv g(2), of h] r by (auto split: if_splits)
    moreover have "knows k ?cfg V ?os N ls'"
      using later_knows [OF later g(2)] g(1) by (simp add: good_object_def)
    ultimately show ?thesis by (intro knows_learn_log)
  qed
  have logs: "good_logs V ?os N ls'"
  proof (cases "?D (?t, h) = ''WORKING''")
    case True
    then have "good_entry ''ABORT'' ?t h V ?os N ls'"
      using closed h later_coordinated [OF later g(2)] unfolding good_entry_def
      by (auto simp: supported_def intro!: exI [of _ ?cfg])
    with True D' good_logs_write [OF later g(8)] show ?thesis by simp
  next
    case False
    with D' g(8) later_good_entry [OF later] show ?thesis by (auto simp: good_logs_entries)
  qed
  have "paper_invariant nds ?os N ls' V"
    by (rule invariant_log [OF inv i ob disc later know _ _ logs counts(1)])
       (auto simp: learn_log_def learn_vote_def)
  then show ?thesis by blast
qed

text \<open>A participant without a vote gives up its ticket: nobody can vote for its host any more.\<close>

lemma invariant_give_up:
  assumes inv: "paper_invariant nds os N ls V" and i: "i < length os" and ob: "os ! i = (ob, k)"
    and ticket: "kn_ticket k" and D': "decisions ls' = decisions ls"
    and k': "k' = k\<lparr>kn_ticket := False, kn_fact := Some False\<rparr>"
    and disc: "disciplined (ob_config ob) (ob_host ob) k' p"
  shows "paper_invariant nds (os[i := (ob\<lparr>ob_proc := p\<rparr>, k')]) N ls' V"
proof -
  let ?cfg = "ob_config ob" and ?t = "ob_txid ob" and ?me = "ob_host ob"
  let ?ob = "ob\<lparr>ob_proc := p\<rparr>"
  let ?os = "os[i := (?ob, k')]"
  note g = invariant_object [OF inv i ob]
  have same: "same_object ob ?ob" by (simp add: same_object_def)
  have v: "votes_of t (?ob, k') \<le> votes_of t (ob, k)" "tickets_of t h' (?ob, k') \<le> tickets_of t h' (ob, k)" for t h'
    by (simp_all add: votes_of_def tickets_of_def queued_votes_def k')
  note counts = counts_update [OF inv i ob v same]
  have later: "later V os N ls V ?os N ls'"
    using counts(2) by (intro laterI) (auto simp: is_coordinated_update [OF i] ob same D')
  have tk: "tickets_of ?t ?me (os ! i) = tickets_of ?t ?me (?ob, k') + 1"
    using ticket ob by (simp add: tickets_of_def k')
  have one: "tickets ?t ?me os N = 1 \<and> ?me \<notin> V ?t"
    using tickets_of_le [OF i, of ?t ?me N] tk g(7) [of ?me] by (auto simp: of_bool_def split: if_splits)
  moreover have "tickets ?t ?me ?os N = 0"
    using tickets_update [OF i, of ?t ?me "(?ob, k')" N "{#}"] tk one by simp
  moreover have "?me \<in> set (participants ?cfg)" using g(1) ticket by (simp add: good_object_def)
  ultimately have "abort_ok ?cfg V ?os N ls'" by (auto simp: abort_ok_def)
  then have know: "knows k' ?cfg V ?os N ls'"
    using later_knows [OF later g(2)] g(1) by (simp add: good_object_def knows_def k')
  have logs: "good_logs V ?os N ls'"
    using g(8) later_good_entry [OF later] by (auto simp: good_logs_entries D')
  show ?thesis
    by (rule invariant_log [OF inv i ob disc later know _ _ logs counts(1)]) (simp_all add: k')
qed

text \<open>A participant's log takes its vote: the host joins the voters.\<close>

lemma good_counts_vote:
  assumes inv: "paper_invariant nds os N ls V" and cfg: "is_coordinated cfg os"
    and me: "me \<in> set (participants cfg)" and new: "me \<notin> V (txid cfg)"
    and vt: "\<And>t. votes t os' N \<le> votes t os N + of_bool (t = txid cfg)"
    and tk: "\<And>t h. tickets t h os' N + of_bool (t = txid cfg \<and> h = me) = tickets t h os N"
    and V': "V' = V(txid cfg := insert me (V (txid cfg)))"
    and same: "\<And>c. is_coordinated c os' \<longleftrightarrow> is_coordinated c os"
  shows "good_counts V' os' N"
  unfolding good_counts_def same
proof (intro allI impI conjI)
  fix c h
  assume c: "is_coordinated c os"
  have b: "votes (txid c) os N \<le> card (V (txid c))" "V (txid c) \<subseteq> set (participants c)"
    "tickets (txid c) h os N + of_bool (h \<in> V (txid c)) \<le> 1"
    using inv c by (auto simp: paper_invariant_def good_counts_def)
  have eq: "txid c = txid cfg \<Longrightarrow> c = cfg"
    using inv c cfg by (auto simp: paper_invariant_def good_configs_def)
  have "finite (V (txid c))" using b(2) finite_subset by blast
  with b(1) vt [of "txid c"] new show "votes (txid c) os' N \<le> card (V' (txid c))"
    by (auto simp: V' of_bool_def split: if_splits)
  show "V' (txid c) \<subseteq> set (participants c)"
    using b(2) eq me by (auto simp: V' split: if_splits)
  show "tickets (txid c) h os' N + of_bool (h \<in> V' (txid c)) \<le> 1"
    using b(3) tk [of "txid c" h] by (auto simp: V' of_bool_def split: if_splits)
qed

lemma invariant_vote_logged:
  assumes inv: "paper_invariant nds os N ls V" and i: "i < length os" and ob: "os ! i = (ob, k)"
    and ticket: "kn_ticket k" and open_log: "decisions ls (ob_txid ob, ob_host ob) = ''WORKING''"
    and D': "decisions ls' = (decisions ls)((ob_txid ob, ob_host ob) := ''VOTEYES'')"
    and k': "k' = (learn_vote (participants (ob_config ob)) (ob_host ob) k)\<lparr>kn_ticket := False, kn_yes := True\<rparr>"
    and V': "V' = V(ob_txid ob := insert (ob_host ob) (V (ob_txid ob)))"
    and disc: "disciplined (ob_config ob) (ob_host ob) k' p"
  shows "paper_invariant nds (os[i := (ob\<lparr>ob_proc := p\<rparr>, k')]) N ls' V'"
proof -
  let ?cfg = "ob_config ob" and ?t = "ob_txid ob" and ?me = "ob_host ob"
  let ?ob = "ob\<lparr>ob_proc := p\<rparr>"
  let ?os = "os[i := (?ob, k')]"
  note g = invariant_object [OF inv i ob]
  have same: "same_object (fst (os ! i)) (fst (?ob, k'))" using ob by (simp add: same_object_def)
  note coordinated = is_coordinated_update [OF i same]
  have me: "?me \<in> set (participants ?cfg)" using g(1) ticket by (simp add: good_object_def)
  have tk: "tickets t h ?os N + of_bool (t = ?t \<and> h = ?me) = tickets t h os N" for t h
    using tickets_update [OF i, of t h "(?ob, k')" N "{#}"] ob ticket
    by (auto simp: tickets_of_def k' learn_vote_def of_bool_def split: if_splits)
  have vt: "votes t ?os N \<le> votes t os N + of_bool (t = ?t)" for t
    using votes_update [OF i, of t "(?ob, k')" N "{#}"] ob
    by (auto simp: votes_of_def queued_votes_def k' learn_vote_def of_bool_def split: if_splits)
  have new: "?me \<notin> V ?t" using voted_is_logged [OF inv, of ?me ?t] open_log by auto
  have later: "later V os N ls V' ?os N ls'"
  proof (rule laterI)
    show "tickets (txid cfg) h ?os N \<le> tickets (txid cfg) h os N" for cfg h
      using tk [of "txid cfg" h] by linarith
    show "h \<in> V t \<or> decisions ls (t, h) \<noteq> ''ABORT'' \<and> 0 < tickets t h os N" if "h \<in> V' t" for t h
      using that tk [of t h] open_log by (auto simp: V' split: if_splits)
  qed (auto simp: coordinated D' V' open_log)
  have know: "knows k' ?cfg V' ?os N ls'"
  proof -
    have "knows k ?cfg V' ?os N ls'"
      using later_knows [OF later g(2)] g(1) by (simp add: good_object_def)
    then have "knows (learn_vote (participants ?cfg) ?me k) ?cfg V' ?os N ls'"
      by (rule knows_learn_vote) (simp add: V')
    then show ?thesis by (simp add: k' knows_def)
  qed
  have "good_entry ''VOTEYES'' ?t ?me V' ?os N ls'"
    using g(2) me unfolding good_entry_def coordinated
    by (auto simp: V' supported_def intro!: exI [of _ ?cfg])
  then have logs: "good_logs V' ?os N ls'"
    by (rule good_logs_write [OF later g(8) D']) (auto simp: V' split: if_splits)
  have counts: "good_counts V' ?os N"
    by (rule good_counts_vote [OF inv g(2) me new vt tk V' coordinated])
  show ?thesis
    by (rule invariant_log [OF inv i ob disc later know _ _ logs counts]) (simp_all add: k' learn_vote_def)
qed

lemma invariant_log_vote:
  assumes inv: "paper_invariant nds os N ls V" and i: "i < length os" and ob: "os ! i = (ob, k)"
    and ticket: "kn_ticket k"
    and call: "dbms_call (LOG_ONCE ''VOTEYES'' (ob_txid ob) (ob_host ob) TRANSACTION) ls = (Inr r, ls')"
    and disc: "disciplined (ob_config ob) (ob_host ob)
      (learn_own_vote (participants (ob_config ob)) (ob_host ob) r k) p"
  shows "\<exists>k' V'. paper_invariant nds (os[i := (ob\<lparr>ob_proc := p\<rparr>, k')]) N ls' V'"
proof -
  let ?t = "ob_txid ob" and ?me = "ob_host ob" and ?D = "decisions ls"
  note g = invariant_object [OF inv i ob]
  have me: "?me \<in> set (participants (ob_config ob))" using g(1) ticket by (simp add: good_object_def)
  then have "no_slash ?me" using orderly_no_slash [OF g(3)] by simp
  then have r: "r = (if ?D (?t, ?me) = ''WORKING'' then ''VOTEYES'' else ?D (?t, ?me))"
    and D': "decisions ls' = (if ?D (?t, ?me) = ''WORKING'' then ?D((?t, ?me) := ''VOTEYES'') else ?D)"
    using dbms_call_once [of ?me "''VOTEYES''" ?t ls] call
    by (auto simp: no_slash_def valid_decision_def)
  show ?thesis
  proof (cases "?D (?t, ?me) = ''WORKING''")
    case True
    with r D' disc show ?thesis
      by (intro exI) (rule invariant_vote_logged [OF inv i ob ticket True _ refl refl],
        auto simp: learn_own_vote_def)
  next
    case False
    have "tickets_of ?t ?me (os ! i) \<ge> 1" using ticket ob by (simp add: tickets_of_def)
    then have "?me \<notin> V ?t"
      using tickets_of_le [OF i, of ?t ?me N] g(7) [of ?me] by (auto simp: of_bool_def split: if_splits)
    then have "r \<noteq> ''VOTEYES''" using logged_entry(1) [OF inv g(2) False] r False by auto
    with False D' disc show ?thesis
      by (intro exI) (rule invariant_give_up [OF inv i ob ticket _ refl], auto simp: learn_own_vote_def)
  qed
qed

lemma invariant_log_decision:
  assumes inv: "paper_invariant nds os N ls V" and i: "i < length os" and ob: "os ! i = (ob, k)"
    and d: "d = ''COMMIT'' \<or> d = ''ABORT''" "justified d k" and me: "ob_host ob \<in> kn_seen k"
    and call: "dbms_call (LOG_WRITE d (ob_txid ob) (ob_host ob) TRANSACTION) ls = (Inr r, ls')"
    and disc: "disciplined (ob_config ob) (ob_host ob) k p"
  shows "paper_invariant nds (os[i := (ob\<lparr>ob_proc := p\<rparr>, k)]) N ls' V"
proof -
  let ?cfg = "ob_config ob" and ?t = "ob_txid ob" and ?me = "ob_host ob"
  let ?ob = "ob\<lparr>ob_proc := p\<rparr>"
  let ?os = "os[i := (?ob, k)]"
  note g = invariant_object [OF inv i ob]
  have voted: "?me \<in> V ?t" using g(1) me by (auto simp: good_object_def knows_def)
  then have ps: "?me \<in> set (participants ?cfg)" using g(6) by auto
  then have "no_slash ?me" using orderly_no_slash [OF g(3)] by simp
  then have D': "decisions ls' = (decisions ls)((?t, ?me) := d)"
    using dbms_call_write [of ?me d ?t ls] call d(1) by (auto simp: no_slash_def valid_decision_def)
  have same: "same_object ob ?ob" by (simp add: same_object_def)
  have v: "votes_of t (?ob, k) \<le> votes_of t (ob, k)" "tickets_of t h' (?ob, k) \<le> tickets_of t h' (ob, k)" for t h'
    by (simp_all add: votes_of_def tickets_of_def queued_votes_def)
  note counts = counts_update [OF inv i ob v same]
  have later: "later V os N ls V ?os N ls'"
    using counts(2) voted by (intro laterI) (auto simp: is_coordinated_update [OF i] ob same D')
  have know: "knows k ?cfg V ?os N ls'"
    using later_knows [OF later g(2)] g(1) by (simp add: good_object_def)
  then have sup: "supported d ?cfg V ?os N ls'" by (rule justified_supported [OF d(2)])
  have "good_entry d ?t ?me V ?os N ls'"
    using d(1) sup ps later_coordinated [OF later g(2)] unfolding good_entry_def
    by (auto intro!: exI [of _ ?cfg])
  then have logs: "good_logs V ?os N ls'" by (rule good_logs_write [OF later g(8) D'])
  show ?thesis
    by (rule invariant_log [OF inv i ob disc later know _ _ logs counts(1)]) simp_all
qed

section \<open>Every step of a thread keeps the invariant\<close>

lemma invariant_dbms_step:
  assumes inv: "paper_invariant nds os N ls V" and i: "i < length os" and ob: "os ! i = (ob, k)"
    and op: "ob_proc ob = Dbms op K" and call: "dbms_call op ls = (Inr r, ls')"
  shows "\<exists>k' V'. paper_invariant nds (os[i := (ob\<lparr>ob_proc := K r\<rparr>, k')]) N ls' V'"
proof -
  have "disciplined (ob_config ob) (ob_host ob) k (Dbms op K)"
    using invariant_object(4) [OF inv i ob] op by simp
  then show ?thesis
  proof cases
    case (d_log_once h)
    from invariant_log_once [OF inv i ob d_log_once(2) _ d_log_once(3)] call d_log_once(1)
    show ?thesis by auto
  next
    case d_log_vote
    from invariant_log_vote [OF inv i ob d_log_vote(2) _ d_log_vote(3)] call d_log_vote(1)
    show ?thesis by auto
  next
    case (d_log_decision d)
    from invariant_log_decision [OF inv i ob d_log_decision(2-4) _ d_log_decision(5)] call d_log_decision(1)
    show ?thesis by auto
  qed
qed

lemma invariant_vote_step:
  assumes inv: "paper_invariant nds os N ls V" and i: "i < length os" and ob: "os ! i = (ob, k)"
    and vote: "ob_proc ob = VoteReq s K"
  shows "\<exists>k'. paper_invariant nds (os[i := (ob\<lparr>ob_proc := K b\<rparr>, k')]) N ls V"
proof -
  have "disciplined (ob_config ob) (ob_host ob) k (VoteReq s K)"
    using invariant_object(4) [OF inv i ob] vote by simp
  then show ?thesis
  proof cases
    case d_vote
    with invariant_continue [OF inv i ob] invariant_give_up [OF inv i ob d_vote(1) refl refl]
    show ?thesis by (cases b) auto
  qed
qed

lemma invariant_thread_step:
  assumes inv: "paper_invariant nds os N ls V" and i: "i < length os" and ob: "os ! i = (ob, k)"
    and step: "thread_step ob ls ob' ls' out commits"
  shows "\<exists>k' V'. paper_invariant nds (os[i := (ob', k')]) (N + out) ls' V'"
proof -
  have disc: "disciplined (ob_config ob) (ob_host ob) k (ob_proc ob)"
    by (rule invariant_object(4) [OF inv i ob])
  have continue: "\<exists>k' V'. paper_invariant nds (os[i := (ob\<lparr>ob_proc := p\<rparr>, k')]) (N + {#}) ls V'"
    if "disciplined (ob_config ob) (ob_host ob) k p" for p
    using invariant_continue [OF inv i ob that] by auto
  show ?thesis
    using step
  proof cases
    case (take_message timeout K m q)
    from disc have "disciplined (ob_config ob) (ob_host ob)
        (learn_message (participants (ob_config ob)) (Some m) k) (K (Some m))"
      unfolding take_message(5) disciplined_wait_iff by blast
    from invariant_take_message [OF inv i ob take_message(6) this] take_message show ?thesis by auto
  next
    case (time_out timeout K)
    from disc have "disciplined (ob_config ob) (ob_host ob) (learn_message (participants (ob_config ob)) None k) (K None)"
      unfolding time_out(5) disciplined_wait_iff by blast
    with continue time_out show ?thesis by auto
  next
    case (send_request h req p)
    from disc obtain k' where "sound_request (ob_config ob) req"
      "may_send h (endpoint req) k = Some k'" "disciplined (ob_config ob) (ob_host ob) k' p"
      unfolding send_request(5) by (auto elim: disciplinedE)
    from invariant_send [OF inv i ob this] send_request show ?thesis by auto
  next
    case (dbms_operation op K r)
    with invariant_dbms_step [OF inv i ob] show ?thesis by auto
  next
    case (vote s K b)
    with invariant_vote_step [OF inv i ob vote(5), of b] show ?thesis by auto
  next
    case (return d)
    from disc have "justified d k" unfolding return(5) by (auto elim: disciplinedE)
    with invariant_return [OF inv i ob] return show ?thesis by auto
  qed (use disc continue in \<open>auto elim: disciplinedE\<close>)
qed

section \<open>New objects, arrivals and losses\<close>

lemma votes_append: "votes t (os @ [ok]) N = votes t os N + votes_of t ok"
  by (simp add: votes_def)

lemma tickets_append: "tickets t h (os @ [ok]) N = tickets t h os N + tickets_of t h ok"
  by (simp add: tickets_def)

lemma votes_add_mset: "votes t os (add_mset x N) = votes t os N + vote_message t x"
  by (simp add: votes_def)

lemma tickets_add_mset: "tickets t h os (add_mset x N) = tickets t h os N + ticket_message t h x"
  by (simp add: tickets_def)

lemma is_coordinated_append:
  "is_coordinated cfg (os @ [ok]) \<longleftrightarrow>
   is_coordinated cfg os \<or> ob_class (fst ok) = CoordinatorNode \<and> ob_config (fst ok) = cfg"
  by (auto simp: is_coordinated_def)

lemma good_nodes_append:
  "good_nodes nds os \<Longrightarrow> good_nodes nds (os @ [ok])"
  by (fastforce simp: good_nodes_def nth_append)

lemma invariant_loss:
  assumes inv: "paper_invariant nds os (add_mset x N) ls V"
  shows "paper_invariant nds os N ls V"
proof -
  have later: "later V os (add_mset x N) ls V os N ls"
    by (rule laterI) (simp_all add: tickets_add_mset)
  have "good_counts V os N"
    using inv by (auto simp: paper_invariant_def votes_add_mset tickets_add_mset intro: good_counts_le)
  with inv later show ?thesis
    by (auto simp: paper_invariant_def intro: later_good_object later_good_message later_good_logs)
qed

lemma invariant_append:
  assumes inv: "paper_invariant nds os N ls V"
    and later: "later V os N ls V (os @ [ok]) N' ls" and sub: "set_mset N' \<subseteq> set_mset N"
    and good: "good_object ok V (os @ [ok]) N' ls"
    and counts: "good_counts V (os @ [ok]) N'" and configs: "good_configs (os @ [ok])"
  shows "paper_invariant nds (os @ [ok]) N' ls V"
  using assms unfolding paper_invariant_def
  by (auto intro: later_good_object later_good_message later_good_logs good_nodes_append)

text \<open>A transaction id that no coordinator has is unknown everywhere.\<close>

definition fresh_txid :: "transaction_id \<Rightarrow> known_object list \<Rightarrow> bool" where
  "fresh_txid t os \<longleftrightarrow> (\<forall>cfg. is_coordinated cfg os \<longrightarrow> txid cfg \<noteq> t)"

lemma fresh_unknown:
  assumes inv: "paper_invariant nds os N ls V" and fresh: "fresh_txid t os"
  shows "votes t os N = 0" and "tickets t h os N = 0" and "V t = {}"
proof -
  have objs: "ob_txid (fst ok) \<noteq> t" if "ok \<in> set os" for ok
  proof -
    have "good_object ok V os N ls" using that inv by (simp add: paper_invariant_def)
    then have "is_coordinated (ob_config (fst ok)) os" by (cases ok) (simp add: good_object_def)
    with fresh show ?thesis by (simp add: fresh_txid_def)
  qed
  have msgs: "getTxId (snd x) \<noteq> Inr t" if "x \<in># N" for x
    using that inv fresh by (auto simp: paper_invariant_def good_message_def fresh_txid_def)
  have "votes_of t ok = 0" "tickets_of t h ok = 0" if "ok \<in> set os" for ok
    using objs [OF that] by (simp_all add: votes_of_def tickets_of_def)
  moreover have "vote_message t x = 0" "ticket_message t h x = 0" if "x \<in># N" for x
    using msgs [OF that] by (simp_all add: vote_message_def ticket_message_def)
  ultimately show "votes t os N = 0" and "tickets t h os N = 0"
    by (auto simp: votes_def tickets_def)
  show "V t = {}"
    using inv fresh unfolding paper_invariant_def good_logs_def fresh_txid_def by blast
qed

lemma invariant_new_coordinator:
  assumes inv: "paper_invariant nds os N ls V" and fresh: "fresh_txid (txid cfg) os"
    and orderly: "orderly_config cfg" and host: "plain_host h"
    and ob: "ob_class ob = CoordinatorNode" "ob_config ob = cfg" "ob_host ob = h"
      "mq_q (ob_messages ob) = []" "ob_returned ob = None"
      "ob_proc ob = PaperCoordinator_handleTransaction (PaperCoordinator cfg h hc)"
  shows "paper_invariant nds (os @ [(ob, coordinator_know cfg)]) N ls V"
proof -
  let ?k = "coordinator_know cfg"
  let ?os = "os @ [(ob, ?k)]"
  note unknown = fresh_unknown [OF inv fresh]
  note know_defs = coordinator_know_def votes_of_def tickets_of_def queued_votes_def
  have other: "is_coordinated c os \<Longrightarrow> txid c \<noteq> txid cfg" for c
    using fresh by (auto simp: fresh_txid_def)
  have "tickets_of (txid c) h' (ob, ?k) = 0" if "is_coordinated c os" for c h'
    using other [OF that] ob by (auto simp: tickets_of_def)
  then have later: "later V os N ls V ?os N ls"
    by (intro laterI) (simp_all add: is_coordinated_append tickets_append)
  have disc: "disciplined cfg h ?k (ob_proc ob)"
    using disciplined_coordinator [of "PaperCoordinator cfg h hc" h] orderly host ob
    by (simp add: PaperCoordinator_def Sender_def)
  then have good: "good_object (ob, ?k) V ?os N ls"
    using ob by (auto simp: good_object_def is_coordinated_append knows_def coordinator_know_def commit_ok_def)
  have counts: "good_counts V ?os N"
    unfolding good_counts_def
  proof (intro allI impI)
    fix c assume c: "is_coordinated c ?os"
    show "votes (txid c) ?os N \<le> card (V (txid c)) \<and> V (txid c) \<subseteq> set (participants c) \<and>
        (\<forall>h. tickets (txid c) h ?os N + of_bool (h \<in> V (txid c)) \<le> 1)"
    proof (cases "is_coordinated c os")
      case True
      with inv other [OF True] ob show ?thesis
        by (auto simp: paper_invariant_def good_counts_def votes_append tickets_append votes_of_def tickets_of_def)
    next
      case False
      then have "c = cfg" using c ob by (auto simp: is_coordinated_append)
      then show ?thesis
        using unknown ob by (auto simp: votes_append tickets_append know_defs)
    qed
  qed
  have "good_configs os" using inv by (simp add: paper_invariant_def)
  then have "good_configs ?os"
    using orderly ob fresh by (auto simp: good_configs_def is_coordinated_append fresh_txid_def)
  then show ?thesis by (intro invariant_append [OF inv later _ good counts]) simp_all
qed

lemma invariant_new_participant:
  assumes inv: "paper_invariant nds os (add_mset x N) ls V"
    and x: "endpoint (snd x) = ''VOTEREQ''" "getTxId (snd x) = Inr (txid cfg)" "fst x = h"
    and cfg: "is_coordinated cfg os" and h: "h \<in> set (participants cfg)"
    and ob: "ob_class ob = ParticipantNode" "ob_config ob = cfg" "ob_host ob = h"
      "mq_q (ob_messages ob) = []" "ob_returned ob = None"
      "ob_proc ob = PaperParticipant_handleTransaction self" "config self = cfg" "hostname self = h"
  shows "paper_invariant nds (os @ [(ob, participant_know)]) N ls V"
proof -
  let ?k = participant_know
  let ?os = "os @ [(ob, ?k)]"
  note know_defs = participant_know_def votes_of_def tickets_of_def queued_votes_def
  have orderly: "orderly_config cfg" using inv cfg by (auto simp: paper_invariant_def good_configs_def)
  have tk: "tickets t h' ?os N = tickets t h' os (add_mset x N)" for t h'
    using x ob by (auto simp: tickets_append tickets_add_mset know_defs ticket_message_def)
  have vt: "votes t ?os N = votes t os (add_mset x N)" for t
    using x ob by (auto simp: votes_append votes_add_mset know_defs vote_message_def)
  have coordinated: "is_coordinated c ?os \<longleftrightarrow> is_coordinated c os" for c
    using ob by (simp add: is_coordinated_append)
  have later: "later V os (add_mset x N) ls V ?os N ls"
    by (rule laterI) (simp_all add: coordinated tk)
  have "plain_host h" using orderly h by (simp add: orderly_config_def list_all_iff)
  then have "disciplined cfg h ?k (ob_proc ob)"
    using disciplined_participant [of self] orderly h ob by simp
  moreover have "kn_seen ?k = {}" "kn_fact ?k = None" "kn_req ?k = {}"
    by (simp_all add: participant_know_def)
  ultimately have good: "good_object (ob, ?k) V ?os N ls"
    using ob h cfg by (auto simp: good_object_def coordinated knows_def)
  have "good_counts V ?os N"
    using inv by (auto simp: paper_invariant_def coordinated vt tk intro: good_counts_le)
  moreover have "good_configs ?os"
    using inv by (simp add: paper_invariant_def good_configs_def coordinated)
  ultimately show ?thesis by (intro invariant_append [OF inv later _ good]) auto
qed

lemma invariant_message:
  assumes inv: "paper_invariant nds os (add_mset x N) ls V" and i: "i < length os" and ob: "os ! i = (ob, k)"
    and x: "getTxId (snd x) = Inr (ob_txid ob)"
    and type: "rq_type m = voteYes \<longrightarrow> endpoint (snd x) = ''VOTEYES''"
      "rq_type m = Commit \<longrightarrow> endpoint (snd x) = ''COMMIT''"
      "rq_type m = Abort \<longrightarrow> endpoint (snd x) = ''ABORT''"
    and ob': "ob' = ob\<lparr>ob_messages := push m (ob_messages ob)\<rparr>"
  shows "paper_invariant nds (os[i := (ob', k)]) N ls V"
proof -
  let ?cfg = "ob_config ob" and ?os = "os[i := (ob', k)]"
  note g = invariant_object [OF inv i ob]
  have same: "same_object (fst (os ! i)) (fst (ob', k))" using ob ob' by (simp add: same_object_def)
  note coordinated = is_coordinated_update [OF i same]
  have le: "votes_of t (ob', k) \<le> votes_of t (os ! i) + vote_message t x" for t
    using ob ob' x type by (auto simp: votes_of_def queued_votes_def vote_message_def push_def)
  have vt: "votes t ?os N \<le> votes t os (add_mset x N)" for t
  proof -
    have "votes t ?os N + votes_of t (os ! i) = votes t os N + votes_of t (ob', k)"
      using votes_update [OF i, of t "(ob', k)" N "{#}"] by simp
    with le [of t] show ?thesis unfolding votes_add_mset by linarith
  qed
  have "tickets_of t h (ob', k) = tickets_of t h (os ! i)" for t h
    using ob ob' by (simp add: tickets_of_def)
  then have tk: "tickets t h ?os N \<le> tickets t h os (add_mset x N)" for t h
    using tickets_update [OF i, of t h "(ob', k)" N "{#}"] by (simp add: tickets_add_mset)
  have later: "later V os (add_mset x N) ls V ?os N ls"
    by (rule laterI) (simp_all add: coordinated tk)
  have "good_message x V os (add_mset x N) ls" using inv by (simp add: paper_invariant_def)
  then obtain cfg' where "is_coordinated cfg' os" "txid cfg' = ob_txid ob"
    and sup': "supported (endpoint (snd x)) cfg' V os (add_mset x N) ls"
    using x by (auto simp: good_message_def)
  then have "cfg' = ?cfg" using inv g(2) by (auto simp: paper_invariant_def good_configs_def)
  then have sup: "supported (endpoint (snd x)) ?cfg V ?os N ls"
    using later_supported [OF later g(2)] sup' by simp
  have "good_object (ob', k) V ?os N ls"
    using later_good_object [OF later g(1)] sup type ob'
    by (auto simp: good_object_def push_def supported_def)
  moreover have "good_counts V ?os N"
    using inv vt tk by (auto simp: paper_invariant_def coordinated intro: good_counts_le)
  moreover have "good_logs V ?os N ls" using later_good_logs [OF later g(8)] .
  ultimately have "paper_invariant nds (os[i := (ob', k)]) (N + {#}) ls V"
    using inv i same later unfolding paper_invariant_def
    by (auto dest!: set_update_subset_insert [THEN subsetD]
        intro: later_good_object later_good_message good_nodes_update good_configs_update)
  then show ?thesis by simp
qed

end
