(* ===== verification/Cornus_Runs.thy ===== *)
theory Cornus_Runs
  imports Cornus_System
begin

text \<open>
  Concrete runs of the system, for the witnesses of the properties of runs: a scheduler that performs
  a list of actions, each of them a step of the system, and a small installation of two nodes.
\<close>

section \<open>A scheduler\<close>

datatype stimulus = Proceed | Expire | Refuse

text \<open>One interaction of a thread; a wait expires, and a worker refuses its vote, when told so.\<close>

definition advance ::
  "stimulus \<Rightarrow> handler_object \<Rightarrow> log_store \<Rightarrow>
   (handler_object \<times> log_store \<times> (host \<times> tcp_request) multiset \<times> (host \<times> transaction_id) list) option" where
  "advance st ob ls =
     (case ob_proc ob of
        Return d \<Rightarrow> if ob_returned ob = None then Some (ob\<lparr>ob_returned := Some d\<rparr>, ls, {#}, []) else None
      | Throw e \<Rightarrow> None
      | Record s p \<Rightarrow> Some (ob\<lparr>ob_proc := p\<rparr>, ls, {#}, [])
      | SetTimeoutStart p \<Rightarrow> Some (ob\<lparr>ob_proc := p\<rparr>, ls, {#}, [])
      | WaitForNextMessage timeout k \<Rightarrow>
          (case mq_q (ob_messages ob) of
             [] \<Rightarrow> if st = Expire then Some (ob\<lparr>ob_proc := k None\<rparr>, ls, {#}, []) else None
           | m # ms \<Rightarrow> Some (ob\<lparr>ob_proc := k (Some m),
               ob_messages := (ob_messages ob)\<lparr>mq_q := ms\<rparr>\<rparr>, ls, {#}, []))
      | Connect h p \<Rightarrow> Some (ob\<lparr>ob_proc := p\<rparr>, ls, {#}, [])
      | Send h req p \<Rightarrow> Some (ob\<lparr>ob_proc := p\<rparr>, ls, transmit h req, [])
      | AwaitReplies hs p \<Rightarrow> Some (ob\<lparr>ob_proc := p\<rparr>, ls, {#}, [])
      | Dbms op k \<Rightarrow> (case dbms_call op ls of (Inr r, ls') \<Rightarrow> Some (ob\<lparr>ob_proc := k r\<rparr>, ls', {#}, []) | _ \<Rightarrow> None)
      | VoteReq s k \<Rightarrow> Some (ob\<lparr>ob_proc := k (st \<noteq> Refuse)\<rparr>, ls, {#}, [])
      | WorkerCommit s p \<Rightarrow> Some (ob\<lparr>ob_proc := p\<rparr>, ls, {#}, [(ob_host ob, txid (ob_config ob))])
      | Detach d p \<Rightarrow> if ob_returned ob = None then Some (ob\<lparr>ob_proc := p, ob_returned := Some d\<rparr>, ls, {#}, []) else None)"

lemma advance_step:
  assumes "advance st ob ls = Some (ob', ls', out, commits)"
  shows "thread_step ob ls ob' ls' out commits"
  using assms
  by (cases "ob_proc ob")
    (auto simp: advance_def popFront_def split: if_splits list.splits sum.splits prod.splits intro: thread_step.intros)

datatype action = Client_request host string | Deliver host tcp_request | Step nat stimulus | Lose host tcp_request

fun act :: "version \<Rightarrow> action \<Rightarrow> cornus \<Rightarrow> cornus option" where
  "act ver (Client_request h cfg) s =
     (case nodes s h of
        None \<Rightarrow> None
      | Some nd \<Rightarrow>
          (case onClientRequest ver cfg nd (heap s) of
             Inl e \<Rightarrow> None
           | Inr (nd', hp) \<Rightarrow> Some (s\<lparr>nodes := (nodes s)(h \<mapsto> nd'), heap := hp\<rparr>)))"
| "act ver (Deliver h req) s =
     (if (h, req) \<in># net s
      then case nodes s h of
             None \<Rightarrow> None
           | Some nd \<Rightarrow>
               (case dispatch ver (\<lambda>_. Inr True) req nd (heap s) of
                  Inl e \<Rightarrow> None
                | Inr (nd', hp) \<Rightarrow> Some (s\<lparr>nodes := (nodes s)(h \<mapsto> nd'), heap := hp, net := net s - {#(h, req)#}\<rparr>))
      else None)"
| "act ver (Step i st) s =
     (if i < length (heap s) \<and> nodes s (ob_host (heap s ! i)) \<noteq> None
      then case advance st (heap s ! i) (store s) of
             None \<Rightarrow> None
           | Some (ob', ls', out, commits) \<Rightarrow>
               Some (s\<lparr>heap := (heap s)[i := ob'], store := ls', net := net s + out,
                       done_commits := done_commits s @ commits\<rparr>)
      else None)"
| "act ver (Lose h req) s =
     (if (h, req) \<in># net s then Some (s\<lparr>net := net s - {#(h, req)#}\<rparr>) else None)"

fun acts :: "version \<Rightarrow> action list \<Rightarrow> cornus \<Rightarrow> cornus option" where
  "acts ver [] s = Some s"
| "acts ver (a # as) s = (case act ver a s of None \<Rightarrow> None | Some s' \<Rightarrow> acts ver as s')"

lemma act_step: "act ver a s = Some s' \<Longrightarrow> cornus_step ver s s'"
  by (cases a)
    (auto split: option.splits sum.splits prod.splits if_splits
      intro: client_request arrival [OF _ insert_DiffM [symmetric]] loss [OF insert_DiffM [symmetric]] thread advance_step)

lemma acts_reach: "acts ver as s = Some s' \<Longrightarrow> reach ver hosts s \<Longrightarrow> reach ver hosts s'"
  by (induction as arbitrary: s) (auto split: option.splits dest: act_step intro: reach_step)

section \<open>An installation of two nodes\<close>

definition run_host :: "host \<Rightarrow> 64 word \<Rightarrow> host_config" where
  "run_host h n =
     \<lparr>hc_id = h, hc_allOthers = [], hc_dbmsAddress = ''d:4'', hc_hostNum = n, hc_port = 1,
      hc_host = ''h'', hc_timeout = 100, hc_f = 0, hc_replicators = []\<rparr>"

definition run_hosts :: "host \<rightharpoonup> host_config" where
  "run_hosts = [''a:1'' \<mapsto> run_host ''a:1'' 1, ''b:2'' \<mapsto> run_host ''b:2'' 2]"

definition run_config :: transaction_config where
  "run_config = \<lparr>coordinator = ''a:1'', participants = [''b:2''], txid = 1\<rparr>"

definition run_handler :: "host \<Rightarrow> 64 word \<Rightarrow> host list \<Rightarrow> handler" where
  "run_handler h n cs = \<lparr>config = run_config, hostname = h, hostConfig = run_host h n, clients = cs\<rparr>"

text \<open>The requests of the run as the nodes build them.\<close>

definition run_request :: "string \<Rightarrow> string \<Rightarrow> tcp_request" where
  "run_request type ctext = group_request (run_handler ''a:1'' 1 []) type ctext"

definition run_vote :: tcp_request where
  "run_vote = coordinator_request (run_handler ''b:2'' 2 [''a:1'']) ''VOTEYES''"

lemma run_config_parsed: "TransactionConfig ''a:1 b:2 '' 1 = run_config"
  by code_simp

lemma run_config_text: "config_to_string run_config = ''a:1 b:2 ''"
  by code_simp

lemma run_config_simps [simp]:
  "coordinator run_config = ''a:1''" "participants run_config = [''b:2'']" "txid run_config = 1"
  by (simp_all add: run_config_def)

lemma run_txid: "next_transaction_id 0 1 = 1"
  by (simp add: next_transaction_id_def)

lemma group_request_run:
  "config self = run_config \<Longrightarrow> hostname self = ''a:1'' \<Longrightarrow>
   group_request self type ctext = run_request type ctext"
  by (simp add: run_request_def run_handler_def group_request_def)

lemma coordinator_request_run:
  "config self = run_config \<Longrightarrow> hostname self = ''b:2'' \<Longrightarrow> coordinator_request self ''VOTEYES'' = run_vote"
  by (simp add: run_vote_def run_handler_def coordinator_request_def)

lemma transmit_params:
  "wire_params ps \<Longrightarrow> clean_text ep \<Longrightarrow> encode_request (TCPRequest_of_params ep ps) \<noteq> None \<Longrightarrow>
   transmit h (TCPRequest_of_params ep ps) = {#(h, TCPRequest_of_params ep ps)#}"
  using wire_roundtrip [of ps ep] by (auto simp: transmit_def)

lemma wire_run:
  "wire_params [(''config'', ''a:1 b:2 ''), (''command'', ''''), (''txid'', ''1''), (''type'', ''VOTEREQ''), (''sender'', ''a:1'')]"
  "wire_params [(''config'', ''''), (''command'', ''''), (''txid'', ''1''), (''type'', ''COMMIT''), (''sender'', ''a:1'')]"
  "wire_params [(''config'', ''''), (''command'', ''''), (''txid'', ''1''), (''type'', ''ABORT''), (''sender'', ''a:1'')]"
  "wire_params [(''request'', ''''), (''txid'', ''1''), (''type'', ''VOTEYES''), (''sender'', ''b:2'')]"
  "clean_text ''VOTEREQ''" "clean_text ''COMMIT''" "clean_text ''ABORT''" "clean_text ''VOTEYES''"
  by code_simp+

lemma run_txid_text: "to_string_u64 1 = ''1''"
  by (simp add: to_string_u64_def to_string_nat_def nat_digits.simps digit_char_def char_of_def bit_0)

lemma run_request_params:
  "run_request type ctext = TCPRequest_of_params type
     [(''config'', ctext), (''command'', ''''), (''txid'', ''1''), (''type'', type), (''sender'', ''a:1'')]"
  "run_vote = TCPRequest_of_params ''VOTEYES''
     [(''request'', ''''), (''txid'', ''1''), (''type'', ''VOTEYES''), (''sender'', ''b:2'')]"
  by (simp_all add: run_request_def run_vote_def run_handler_def group_request_def coordinator_request_def
      param_emplace_def run_txid_text)

lemma run_encoded:
  "encode_request (run_request ''VOTEREQ'' ''a:1 b:2 '') \<noteq> None"
  "encode_request (run_request ''COMMIT'' '''') \<noteq> None"
  "encode_request (run_request ''ABORT'' '''') \<noteq> None"
  "encode_request run_vote \<noteq> None"
  unfolding run_request_params by code_simp+

lemma transmit_run:
  "transmit h (run_request ''VOTEREQ'' ''a:1 b:2 '') = {#(h, run_request ''VOTEREQ'' ''a:1 b:2 '')#}"
  "transmit h (run_request ''COMMIT'' '''') = {#(h, run_request ''COMMIT'' '''')#}"
  "transmit h (run_request ''ABORT'' '''') = {#(h, run_request ''ABORT'' '''')#}"
  "transmit h run_vote = {#(h, run_vote)#}"
  using run_encoded unfolding run_request_params by (intro transmit_params wire_run; simp)+

lemma stoul_1: "stoul ''1'' = Inr 1"
  using stoul_to_string [of 1] by (simp only: run_txid_text)

lemma run_request_simps:
  "endpoint (run_request type ctext) = type" "getTxId (run_request type ctext) = Inr 1"
  "getParam ''config'' (run_request type ctext) = Inr ctext"
  "endpoint run_vote = ''VOTEYES''" "getTxId run_vote = Inr 1"
  unfolding run_request_params
  by (simp_all add: TCPRequest_of_params_def getTxId_def getParam_def stoul_1)

section \<open>A committed transaction\<close>

text \<open>The voting loop unfolds only when its thread gets on.\<close>

lemma case_voting_loop:
  "(case voting_loop timeout n votes A D of
      Return d \<Rightarrow> f1 d | Throw e \<Rightarrow> f2 e | Record s p \<Rightarrow> f3 s p | SetTimeoutStart p \<Rightarrow> f4 p
    | WaitForNextMessage t k \<Rightarrow> f5 t k | Connect h p \<Rightarrow> f6 h p | Send h req p \<Rightarrow> f7 h req p
    | AwaitReplies hs p \<Rightarrow> f8 hs p | Dbms op k \<Rightarrow> f9 op k | VoteReq s k \<Rightarrow> f10 s k
    | WorkerCommit s p \<Rightarrow> f11 s p | Detach d p \<Rightarrow> f12 d p) =
   f5 timeout (\<lambda>p_request.
       case p_request of
         None \<Rightarrow> A
       | Some m \<Rightarrow>
           (if rq_type m = voteYes then
              Record (''recv-vote-'' @ to_string_nat (Suc votes))
                (if Suc votes = n then D ''COMMIT'' else voting_loop timeout n (Suc votes) A D)
            else if rq_type m = Abort then D ''ABORT''
            else voting_loop timeout n votes A D))"
  by (subst voting_loop_code) simp

definition steps :: "nat \<Rightarrow> nat \<Rightarrow> action list" where
  "steps n i = replicate n (Step i Proceed)"

definition commit_run :: "action list" where
  "commit_run =
     Client_request ''a:1'' ''a:1 b:2 '' # steps 6 0 @
     Deliver ''b:2'' (run_request ''VOTEREQ'' ''a:1 b:2 '') # steps 8 1 @
     Deliver ''a:1'' run_vote # steps 7 0 @
     Deliver ''b:2'' (run_request ''COMMIT'' '''') # steps 6 1"

lemma run_start:
  "start run_hosts = \<lparr>nodes = [''a:1'' \<mapsto> start_node (run_host ''a:1'' 1), ''b:2'' \<mapsto> start_node (run_host ''b:2'' 2)],
     heap = [], net = {#}, store = Map.empty, done_commits = []\<rparr>"
  by (auto simp: start_def run_hosts_def)

lemma run_start_node: "start_node (run_host h n) =
  \<lparr>nd_hostConfig = run_host h n, nd_nodeId = ucast n, nd_counter = 0,
   nd_handlers = Map.empty, nd_replicators = Map.empty, nd_committers = Map.empty\<rparr>"
  by (simp add: start_node_def run_host_def)

lemma run_host_simps [simp]:
  "hc_id (run_host h n) = h" "hc_hostNum (run_host h n) = n" "hc_timeout (run_host h n) = 100" "hc_replicators (run_host h n) = []"
  by (simp_all add: run_host_def)

lemmas run_simps = advance_def onClientRequest_def getUniqueTransactionId_def createNode_def Let_def
  run_start_node run_txid run_config_parsed run_config_text PaperCoordinator_def PaperParticipant_def Sender_def
  PaperCoordinator_handleTransaction_def PaperParticipant_handleTransaction_def sendToParticipants_def
  send_def sendToCoordinator_def Paper_terminationProtocol_def paper_coordinator_decided_def
  paper_participant_decided_def paper_participant_execution_def group_request_run coordinator_request_run
  transmit_run run_request_simps dispatch_def onNewRequest_def onOldRequest_def sendMessage_def push_def
  case_voting_loop steps_def numeral_eq_Suc

definition run_store :: "string \<Rightarrow> log_store" where
  "run_store v = [1 \<mapsto> [''b:2'' \<mapsto> new_log_pair\<lparr>transactionLog := v\<rparr>]]"

lemmas run_dbms_simps = dbms_call_manager server_log_type_def LogManager_LOG_ONCE_def LogManager_LOG_WRITE_def
  apply_log_def getLogPair_def setLogPair_def TransactionLog_LOG_ONCE_def TransactionLog_LOG_WRITE_def
  checkUndefinedInput_def new_log_pair_def http_result_def Let_def

lemma run_dbms:
  "dbms_call (LOG_ONCE ''VOTEYES'' 1 ''b:2'' TRANSACTION) Map.empty = (Inr ''VOTEYES'', run_store ''VOTEYES'')"
  "dbms_call (LOG_WRITE ''COMMIT'' 1 ''b:2'' TRANSACTION) (run_store ''VOTEYES'') = (Inr ''COMMIT'', run_store ''COMMIT'')"
  by (simp_all add: run_dbms_simps run_store_def)

text \<open>Both nodes return \<open>COMMIT\<close>, and the participant's log holds it.\<close>

lemma commit_run_works:
  "\<exists>s. acts PAPER_VERSION commit_run (start run_hosts) = Some s \<and>
     map ob_class (heap s) = [CoordinatorNode, ParticipantNode] \<and>
     map ob_config (heap s) = [run_config, run_config] \<and>
     map ob_host (heap s) = [''a:1'', ''b:2''] \<and>
     map ob_returned (heap s) = [Some ''COMMIT'', Some ''COMMIT''] \<and>
     store s = run_store ''COMMIT'' \<and> done_commits s = [(''b:2'', 1)] \<and> net s = {#} \<and>
     map ob_removed (heap s) = [False, False] \<and> nodes s ''a:1'' \<noteq> None"
  unfolding run_start commit_run_def
  by (simp add: run_simps LOG_ONCE_tx_def LOG_WRITE_tx_def run_dbms popFront_def)

text \<open>The same run up to the commit of the participant's worker.\<close>

definition worker_run :: "action list" where
  "worker_run =
     Client_request ''a:1'' ''a:1 b:2 '' # steps 6 0 @
     Deliver ''b:2'' (run_request ''VOTEREQ'' ''a:1 b:2 '') # steps 8 1 @
     Deliver ''a:1'' run_vote # steps 7 0 @
     Deliver ''b:2'' (run_request ''COMMIT'' '''') # steps 3 1"

lemma worker_run_works:
  "\<exists>s. acts PAPER_VERSION worker_run (start run_hosts) = Some s \<and>
     map ob_class (heap s) = [CoordinatorNode, ParticipantNode] \<and>
     map ob_config (heap s) = [run_config, run_config] \<and>
     map ob_host (heap s) = [''a:1'', ''b:2''] \<and> (\<exists>p. ob_proc (heap s ! 1) = WorkerCommit ''b:2'' p)"
  unfolding run_start worker_run_def
  by (simp add: run_simps LOG_ONCE_tx_def LOG_WRITE_tx_def run_dbms popFront_def)

end
