(* ===== verification/Paper_Agreement.thy ===== *)
theory Paper_Agreement
  imports Paper_Safety Cornus_Runs
begin

text \<open>
  The agreement properties of the paper version, for every run of the system: the invariant of
  \<open>Paper_Safety\<close> holds in every reachable state in which the clients' configurations are orderly and
  no node has used up its transaction ids.
\<close>

section \<open>Transaction ids in a run\<close>

type_synonym signature = "node_class \<times> host \<times> transaction_config"

definition sig :: "handler_object \<Rightarrow> signature" where
  "sig ob = (ob_class ob, ob_host ob, ob_config ob)"

text \<open>The ids of the client requests that came to a host, in order.\<close>

definition coordinator_ids :: "host \<Rightarrow> signature list \<Rightarrow> transaction_id list" where
  "coordinator_ids h sg =
     map (\<lambda>(c, h', cfg). txid cfg) (filter (\<lambda>(c, h', cfg). c = CoordinatorNode \<and> h' = h) sg)"

abbreviation sigs :: "cornus \<Rightarrow> signature list" where
  "sigs s \<equiv> map sig (heap s)"

definition node_number :: "(host \<rightharpoonup> host_config) \<Rightarrow> host \<Rightarrow> 16 word" where
  "node_number hosts h = ucast (hc_hostNum (the (hosts h)))"

text \<open>
  A sensible installation: every node is listed under its own id, with a name that needs no
  escaping anywhere, and the nodes differ in the low 16 bits of their numbers.
\<close>

definition good_hosts :: "(host \<rightharpoonup> host_config) \<Rightarrow> bool" where
  "good_hosts hosts \<longleftrightarrow>
     (\<forall>h hc. hosts h = Some hc \<longrightarrow> hc_id hc = h \<and> plain_host h) \<and>
     inj_on (node_number hosts) (dom hosts)"

text \<open>
  What is asked of the clients: orderly configurations, and at most 65536 requests to each node.
\<close>

definition orderly :: "cornus \<Rightarrow> bool" where
  "orderly s \<longleftrightarrow>
     (\<forall>ob \<in> set (heap s). ob_class ob = CoordinatorNode \<longrightarrow> orderly_config (ob_config ob)) \<and>
     (\<forall>h. length (coordinator_ids h (sigs s)) \<le> 65536)"

definition counted :: "(host \<rightharpoonup> host_config) \<Rightarrow> (host \<rightharpoonup> node) \<Rightarrow> signature list \<Rightarrow> bool" where
  "counted hosts nds sg \<longleftrightarrow>
     (\<forall>h nd. nds h = Some nd \<longrightarrow> hosts h = Some (nd_hostConfig nd) \<and> nd_nodeId nd = node_number hosts h \<and>
        nd_counter nd = word_of_nat (length (coordinator_ids h sg))) \<and>
     (\<forall>h cfg. (CoordinatorNode, h, cfg) \<in> set sg \<longrightarrow> h \<in> dom hosts) \<and>
     (\<forall>h. coordinator_ids h sg =
        map (\<lambda>i. next_transaction_id (word_of_nat i) (node_number hosts h))
          [0 ..< length (coordinator_ids h sg)])"

text \<open>Changes of the nodes that keep their numbers and counters.\<close>

definition same_counters :: "(host \<rightharpoonup> node) \<Rightarrow> (host \<rightharpoonup> node) \<Rightarrow> bool" where
  "same_counters nds nds' \<longleftrightarrow>
     (\<forall>h nd'. nds' h = Some nd' \<longrightarrow> (\<exists>nd. nds h = Some nd \<and> nd_hostConfig nd' = nd_hostConfig nd \<and>
        nd_nodeId nd' = nd_nodeId nd \<and> nd_counter nd' = nd_counter nd))"

lemma coordinator_ids_append [simp]:
  "coordinator_ids h (sg @ sg') = coordinator_ids h sg @ coordinator_ids h sg'"
  by (simp add: coordinator_ids_def)

lemma coordinator_ids_single:
  "coordinator_ids h [(c, h', cfg)] = (if c = CoordinatorNode \<and> h' = h then [txid cfg] else [])"
  by (simp add: coordinator_ids_def)

lemma coordinator_ids_Nil [simp]: "coordinator_ids h [] = []"
  by (simp add: coordinator_ids_def)

lemma counted_same:
  "counted hosts nds sg \<Longrightarrow> same_counters nds nds' \<Longrightarrow> counted hosts nds' sg"
  unfolding counted_def same_counters_def by fastforce

lemma counted_other:
  "counted hosts nds sg \<Longrightarrow> c \<noteq> CoordinatorNode \<Longrightarrow> counted hosts nds (sg @ [(c, h, cfg)])"
  by (simp add: counted_def coordinator_ids_single)

lemma counted_new:
  assumes "counted hosts nds sg" and nd: "nds h = Some nd"
    and "txid cfg = next_transaction_id (nd_counter nd) (nd_nodeId nd)"
    and "nd_hostConfig nd' = nd_hostConfig nd" "nd_nodeId nd' = nd_nodeId nd"
      "nd_counter nd' = nd_counter nd + 1"
  shows "counted hosts (nds(h \<mapsto> nd')) (sg @ [(CoordinatorNode, h, cfg)])"
  using assms unfolding counted_def
  by (auto simp: coordinator_ids_single)

lemma word_of_nat_mod_2_16:
  assumes "i < 65536"
  shows "unat (word_of_nat i :: 32 word) mod 2 ^ 16 = i"
  using assms by (simp add: unsigned_of_nat take_bit_nat_eq_self)

lemma fresh_next_id:
  assumes counted: "counted hosts nds sg" and good: "good_hosts hosts" and nd: "nds h = Some nd"
    and few: "length (coordinator_ids h sg) < 65536" "\<And>h'. length (coordinator_ids h' sg) \<le> 65536"
    and old: "(CoordinatorNode, h', cfg) \<in> set sg"
  shows "txid cfg \<noteq> next_transaction_id (nd_counter nd) (nd_nodeId nd)"
proof
  assume eq: "txid cfg = next_transaction_id (nd_counter nd) (nd_nodeId nd)"
  let ?n = "length (coordinator_ids h sg)"
  have "txid cfg \<in> set (coordinator_ids h' sg)" using old by (force simp: coordinator_ids_def)
  moreover have "coordinator_ids h' sg = map (\<lambda>i. next_transaction_id (word_of_nat i) (node_number hosts h'))
      [0 ..< length (coordinator_ids h' sg)]"
    using counted unfolding counted_def by blast
  ultimately have "txid cfg \<in> set (map (\<lambda>i. next_transaction_id (word_of_nat i) (node_number hosts h'))
      [0 ..< length (coordinator_ids h' sg)])" by (simp only:)
  then obtain i where i: "i < length (coordinator_ids h' sg)"
    and t: "txid cfg = next_transaction_id (word_of_nat i) (node_number hosts h')" by auto
  have nd': "nd_nodeId nd = node_number hosts h" "nd_counter nd = word_of_nat ?n" "h \<in> dom hosts"
    using counted nd unfolding counted_def by auto
  have "h' \<in> dom hosts" using counted old unfolding counted_def by blast
  have e: "unat (word_of_nat i :: 32 word) mod 2 ^ 16 = unat (word_of_nat ?n :: 32 word) mod 2 ^ 16"
    "node_number hosts h' = node_number hosts h"
    using t eq nd' by (simp_all add: next_transaction_id_eq_iff)
  then have "h' = h"
    using good \<open>h' \<in> dom hosts\<close> nd'(3) by (auto simp: good_hosts_def dest: inj_onD)
  then have "i < ?n" and "i < 65536" using i few by simp_all
  moreover have "i = ?n"
    using e(1) by (simp only: word_of_nat_mod_2_16 [OF \<open>i < 65536\<close>] word_of_nat_mod_2_16 [OF few(1)])
  ultimately show False by simp
qed

section \<open>Safe states\<close>

definition safe :: "cornus \<Rightarrow> bool" where
  "safe s \<longleftrightarrow> (\<exists>os V. map fst os = heap s \<and> paper_invariant (nodes s) os (net s) (store s) V)"

definition ordered :: "signature list \<Rightarrow> bool" where
  "ordered sg \<longleftrightarrow>
     (\<forall>(c, h, cfg) \<in> set sg. c = CoordinatorNode \<longrightarrow> orderly_config cfg) \<and>
     (\<forall>h. length (coordinator_ids h sg) \<le> 65536)"

lemma orderly_ordered: "orderly s \<longleftrightarrow> ordered (sigs s)"
  by (auto simp: orderly_def ordered_def sig_def)

lemma ordered_prefix: "ordered (sg @ sg') \<Longrightarrow> ordered sg"
  unfolding ordered_def by (auto intro: le_trans [OF le_add1])

lemma invariant_nodes:
  "paper_invariant nds os N ls V \<Longrightarrow> good_nodes nds' os \<Longrightarrow> paper_invariant nds' os N ls V"
  by (simp add: paper_invariant_def)

lemma invariant_good_nodes: "paper_invariant nds os N ls V \<Longrightarrow> good_nodes nds os"
  by (simp add: paper_invariant_def)

lemma safeI: "paper_invariant (nodes s) os (net s) (store s) V \<Longrightarrow> map fst os = heap s \<Longrightarrow> safe s"
  unfolding safe_def by blast

lemma safeE:
  assumes "safe s"
  obtains os V where "map fst os = heap s" and "paper_invariant (nodes s) os (net s) (store s) V"
  using assms unfolding safe_def by blast

subsection \<open>The start\<close>

lemma start_counted: "good_hosts hosts \<Longrightarrow> counted hosts (nodes (start hosts)) (sigs (start hosts))"
  by (auto simp: counted_def start_def start_node_def node_number_def)

lemma start_safe:
  assumes "good_hosts hosts"
  shows "safe (start hosts)"
proof (rule safeI)
  have "good_nodes (nodes (start hosts)) []"
    using assms by (auto simp: good_nodes_def start_def start_node_def good_hosts_def)
  then show "paper_invariant (nodes (start hosts)) [] (net (start hosts)) (store (start hosts)) (\<lambda>_. {})"
    by (simp add: paper_invariant_def good_logs_def good_counts_def good_configs_def is_coordinated_def
        start_def decisions_def new_log_pair_def)
qed (simp add: start_def)

subsection \<open>A client request\<close>

lemma createNode_InrE:
  assumes "createNode ver tcp cls cfg t m nd hp = Inr (nd', hp')"
  obtains p where
    "construct ver tcp cls (TransactionConfig cfg t) (hc_id (nd_hostConfig nd)) (nd_hostConfig nd) = Inr p"
    and "nd' = set_map m ((the_map m nd)(t \<mapsto> length hp)) nd"
    and "hp' = hp @ [\<lparr>ob_host = hc_id (nd_hostConfig nd), ob_class = cls, ob_map = m,
                      ob_config = TransactionConfig cfg t, ob_messages = \<lparr>mq_q = [], mq_timeoutStart = 0\<rparr>,
                      ob_proc = handle_transaction ver cls p, ob_returned = None, ob_removed = False\<rparr>]"
  using assms by (auto simp: createNode_def Let_def bind_result_Inr_iff split: if_splits)

lemma good_nodes_new:
  assumes "good_nodes nds os" and "nds h = Some nd" and "ob_txid (fst ok) = t"
    and "nd_hostConfig nd' = nd_hostConfig nd" and "nd_handlers nd' = (nd_handlers nd)(t \<mapsto> length os)"
  shows "good_nodes (nds(h \<mapsto> nd')) (os @ [ok])"
  using assms by (fastforce simp: good_nodes_def nth_append split: if_splits)

lemma txid_TransactionConfig [simp]: "txid (TransactionConfig cfg t) = t"
  by (simp add: TransactionConfig_def split: option.split)

lemma client_request_effect:
  assumes "onClientRequest PAPER_VERSION cfg nd hp = Inr (nd', hp')"
  obtains ob where "hp' = hp @ [ob]" and "ob_class ob = CoordinatorNode"
    and "ob_host ob = hc_id (nd_hostConfig nd)"
    and "ob_txid ob = next_transaction_id (nd_counter nd) (nd_nodeId nd)"
    and "mq_q (ob_messages ob) = []" and "ob_returned ob = None"
    and "ob_proc ob = PaperCoordinator_handleTransaction
      (PaperCoordinator (ob_config ob) (hc_id (nd_hostConfig nd)) (nd_hostConfig nd))"
    and "nd_hostConfig nd' = nd_hostConfig nd" and "nd_nodeId nd' = nd_nodeId nd"
    and "nd_counter nd' = nd_counter nd + 1"
    and "nd_handlers nd' = (nd_handlers nd)(ob_txid ob \<mapsto> length hp)"
  using assms unfolding onClientRequest_def getUniqueTransactionId_def
  by (auto elim!: createNode_InrE)

lemma known_signature:
  assumes "map fst os = heap s" and "is_coordinated c os"
  obtains h where "(CoordinatorNode, h, c) \<in> set (sigs s)"
proof -
  obtain ok where "ok \<in> set os" "ob_class (fst ok) = CoordinatorNode" "ob_config (fst ok) = c"
    using assms(2) by (auto simp: is_coordinated_def)
  then have "(CoordinatorNode, ob_host (fst ok), c) \<in> set (map sig (map fst os))"
    by (force simp: sig_def)
  then show thesis using that assms(1) by simp
qed

lemma fresh_request:
  assumes "counted hosts (nodes s) (sigs s)" and "good_hosts hosts" and "nodes s h = Some nd"
    and os: "map fst os = heap s" and ordered: "ordered (sigs s @ [(CoordinatorNode, h, cfg)])"
  shows "fresh_txid (next_transaction_id (nd_counter nd) (nd_nodeId nd)) os"
  unfolding fresh_txid_def
proof (intro allI impI)
  fix c assume "is_coordinated c os"
  then obtain h' where "(CoordinatorNode, h', c) \<in> set (sigs s)" by (rule known_signature [OF os])
  moreover have "length (coordinator_ids h (sigs s)) < 65536"
    using ordered by (auto simp: ordered_def coordinator_ids_single dest: spec [of _ h])
  moreover have "length (coordinator_ids h' (sigs s)) \<le> 65536" for h'
    using ordered_prefix [OF ordered] by (simp add: ordered_def)
  ultimately show "txid c \<noteq> next_transaction_id (nd_counter nd) (nd_nodeId nd)"
    by (intro fresh_next_id [OF assms(1-3)])
qed

lemma add_object_safe:
  assumes os: "map fst os = heap s" and nd: "nodes s h = Some nd"
    and nodes_ok: "good_nodes (nodes s) os"
    and inv: "paper_invariant (nodes s) (os @ [(ob, k)]) N (store s) V"
    and nd': "nd_hostConfig nd' = nd_hostConfig nd" "nd_handlers nd' = (nd_handlers nd)(ob_txid ob \<mapsto> length (heap s))"
    and s': "nodes s' = (nodes s)(h \<mapsto> nd')" "heap s' = heap s @ [ob]" "net s' = N" "store s' = store s"
  shows "safe s'"
proof (rule safeI)
  have "length os = length (heap s)" using os by (metis length_map)
  then have "good_nodes (nodes s') (os @ [(ob, k)])"
    unfolding s'(1) by (intro good_nodes_new [OF nodes_ok nd _ nd'(1)]) (simp_all add: nd'(2))
  then show "paper_invariant (nodes s') (os @ [(ob, k)]) (net s') (store s') V"
    unfolding s'(3,4) by (rule invariant_nodes [OF inv])
  show "map fst (os @ [(ob, k)]) = heap s'" by (simp add: s' os)
qed

lemma client_request_keeps:
  assumes counted: "counted hosts (nodes s) (sigs s)" and good: "good_hosts hosts"
    and nd: "nodes s h = Some nd"
    and req: "onClientRequest PAPER_VERSION cfg nd (heap s) = Inr (nd', hp')"
    and s': "nodes s' = (nodes s)(h \<mapsto> nd')" "heap s' = hp'" "net s' = net s" "store s' = store s"
  shows "counted hosts (nodes s') (sigs s') \<and> (safe s \<longrightarrow> orderly s' \<longrightarrow> safe s')"
proof -
  obtain ob where hp': "hp' = heap s @ [ob]" and ob: "ob_class ob = CoordinatorNode"
      "ob_host ob = hc_id (nd_hostConfig nd)"
      "mq_q (ob_messages ob) = []" "ob_returned ob = None"
      "ob_proc ob = PaperCoordinator_handleTransaction
        (PaperCoordinator (ob_config ob) (hc_id (nd_hostConfig nd)) (nd_hostConfig nd))"
    and t: "ob_txid ob = next_transaction_id (nd_counter nd) (nd_nodeId nd)"
    and nd': "nd_hostConfig nd' = nd_hostConfig nd" "nd_nodeId nd' = nd_nodeId nd"
      "nd_counter nd' = nd_counter nd + 1" "nd_handlers nd' = (nd_handlers nd)(ob_txid ob \<mapsto> length (heap s))"
    by (rule client_request_effect [OF req])
  have h: "hc_id (nd_hostConfig nd) = h" "plain_host h"
    using counted nd good by (auto simp: counted_def good_hosts_def)
  have sigs': "sigs s' = sigs s @ [(CoordinatorNode, h, ob_config ob)]"
    using s' hp' ob h by (simp add: sig_def)
  have "safe s'" if "safe s" and "orderly s'"
  proof -
    obtain os V where os: "map fst os = heap s"
      and inv: "paper_invariant (nodes s) os (net s) (store s) V"
      by (rule safeE [OF \<open>safe s\<close>])
    have ordered: "ordered (sigs s @ [(CoordinatorNode, h, ob_config ob)])"
      using \<open>orderly s'\<close> sigs' by (simp add: orderly_ordered)
    have fresh: "fresh_txid (ob_txid ob) os"
      unfolding t by (rule fresh_request [OF counted good nd os ordered])
    have "orderly_config (ob_config ob)" using ordered by (simp add: ordered_def)
    then have "paper_invariant (nodes s) (os @ [(ob, coordinator_know (ob_config ob))]) (net s) (store s) V"
      by (rule invariant_new_coordinator [OF inv fresh _ h(2) ob(1) refl _ ob(3,4)]) (simp_all add: ob h)
    then show ?thesis
      by (rule add_object_safe [OF os nd invariant_good_nodes [OF inv] _ nd'(1,4)]) (simp_all add: s' hp')
  qed
  with counted_new [OF counted nd t nd'(1-3)] show ?thesis by (simp add: sigs' s'(1))
qed

subsection \<open>An arrival\<close>

lemma no_other_nodes:
  "onNewRequest PAPER_VERSION tcp ReplicatorNode req ty m nd hp = Inr x \<Longrightarrow> P"
  "onNewRequest PAPER_VERSION tcp CommitterNode req ty m nd hp = Inr x \<Longrightarrow> P"
  by (auto simp: onNewRequest_def createNode_def Let_def bind_result_Inr_iff)

lemma dispatch_at:
  "endpoint req = ''VOTEREQ'' \<Longrightarrow> dispatch ver tcp req nd hp = onNewRequest ver tcp ParticipantNode req voteReq Handlers nd hp"
  "endpoint req = ''VOTEYES'' \<Longrightarrow> dispatch ver tcp req nd hp = onOldRequest req voteYes Handlers nd hp"
  "endpoint req = ''ABORT'' \<Longrightarrow> dispatch ver tcp req nd hp = onOldRequest req Abort Handlers nd hp"
  "endpoint req = ''COMMIT'' \<Longrightarrow> dispatch ver tcp req nd hp = onOldRequest req Commit Handlers nd hp"
  "endpoint req = ''WILLCOMMIT'' \<Longrightarrow> dispatch ver tcp req nd hp = onNewRequest ver tcp ReplicatorNode req willCommit Replicators nd hp"
  "endpoint req = ''DECISIONCOMPLETED'' \<Longrightarrow> dispatch ver tcp req nd hp = onOldRequest req decisionCompleted Replicators nd hp"
  "endpoint req = ''OVERRIDECOMMIT'' \<Longrightarrow> dispatch ver tcp req nd hp = onNewRequest ver tcp CommitterNode req Commit Committers nd hp"
  by (simp_all add: dispatch_def)

lemma dispatch_unknown:
  assumes "dispatch ver tcp req nd hp \<noteq> Inr (nd, hp)"
  shows "endpoint req \<in> {''VOTEREQ'', ''VOTEYES'', ''ABORT'', ''COMMIT'', ''WILLCOMMIT'',
    ''DECISIONCOMPLETED'', ''OVERRIDECOMMIT''}"
proof (rule ccontr)
  assume "\<not> ?thesis"
  then have "dispatch ver tcp req nd hp = Inr (nd, hp)"
    unfolding dispatch_def by (simp only: insert_iff empty_iff de_Morgan_disj if_False simp_thms)
  with assms show False by simp
qed

lemma onOldRequest_effect:
  assumes "onOldRequest req ty m nd hp = Inr (nd', hp')"
  obtains t where "getTxId req = Inr t" and "nd' = nd" and "hp' = sendMessage t \<lparr>rq_type = ty, rq_txid = t\<rparr> m nd hp"
  using assms by (auto simp: onOldRequest_def bind_result_Inr_iff)

lemma new_participant_effect:
  assumes "onNewRequest PAPER_VERSION tcp ParticipantNode req ty Handlers nd hp = Inr (nd', hp')"
  obtains ob p t ctext where "getTxId req = Inr t" and "getParam ''config'' req = Inr ctext"
    and "config p = TransactionConfig ctext t" and "hostname p = hc_id (nd_hostConfig nd)"
    and "hp' = hp @ [ob]" and "ob_class ob = ParticipantNode" and "ob_config ob = TransactionConfig ctext t"
    and "ob_host ob = hc_id (nd_hostConfig nd)" and "mq_q (ob_messages ob) = []"
    and "ob_returned ob = None" and "ob_proc ob = PaperParticipant_handleTransaction p"
    and "nd_hostConfig nd' = nd_hostConfig nd" and "nd_nodeId nd' = nd_nodeId nd"
    and "nd_counter nd' = nd_counter nd" and "nd_handlers nd' = (nd_handlers nd)(t \<mapsto> length hp)"
proof -
  from assms obtain t ctext where 1: "getTxId req = Inr t" "getParam ''config'' req = Inr ctext"
    and c: "createNode PAPER_VERSION tcp ParticipantNode ctext t Handlers nd hp = Inr (nd', hp')"
    by (auto simp: onNewRequest_def bind_result_Inr_iff)
  from c obtain p where p: "PaperParticipant tcp (TransactionConfig ctext t) (hc_id (nd_hostConfig nd)) (nd_hostConfig nd) = Inr p"
    and eq: "nd' = set_map Handlers ((the_map Handlers nd)(t \<mapsto> length hp)) nd"
      "hp' = hp @ [\<lparr>ob_host = hc_id (nd_hostConfig nd), ob_class = ParticipantNode, ob_map = Handlers,
                    ob_config = TransactionConfig ctext t, ob_messages = \<lparr>mq_q = [], mq_timeoutStart = 0\<rparr>,
                    ob_proc = handle_transaction PAPER_VERSION ParticipantNode p, ob_returned = None, ob_removed = False\<rparr>]"
    by (elim createNode_InrE) simp
  have "config p = TransactionConfig ctext t" "hostname p = hc_id (nd_hostConfig nd)"
    using p by (auto simp: PaperParticipant_def Sender_def bind_result_Inr_iff)
  then show thesis by (rule that [OF 1 _ _ eq(2)]) (simp_all add: eq(1))
qed

lemma dispatch_effect:
  assumes "dispatch PAPER_VERSION tcp req nd hp = Inr (nd', hp')"
  obtains (participant) "endpoint req = ''VOTEREQ''"
      and "onNewRequest PAPER_VERSION tcp ParticipantNode req voteReq Handlers nd hp = Inr (nd', hp')"
  | (message) ty where "onOldRequest req ty Handlers nd hp = Inr (nd', hp')"
      and "ty = voteYes \<longrightarrow> endpoint req = ''VOTEYES''" and "ty = Commit \<longrightarrow> endpoint req = ''COMMIT''"
      and "ty = Abort \<longrightarrow> endpoint req = ''ABORT''"
  | (replicator) "onOldRequest req decisionCompleted Replicators nd hp = Inr (nd', hp')"
  | (no_callback) "nd' = nd" and "hp' = hp"
proof (cases "dispatch PAPER_VERSION tcp req nd hp = Inr (nd, hp)")
  case True
  with assms show thesis by (intro no_callback) simp_all
next
  case False
  from dispatch_unknown [OF this] show thesis
    using assms by (auto simp only: insert_iff empty_iff dispatch_at RequestType.distinct simp_thms
        elim: no_other_nodes participant message replicator)
qed

lemma map_list_update_same: "f x = f (xs ! i) \<Longrightarrow> map f (xs[i := x]) = map f xs"
  by (cases "i < length xs") (simp_all add: map_update list_update_same_conv list_update_beyond)

lemma sig_sendMessage [simp]: "map sig (sendMessage t m mp nd hp) = map sig hp"
  by (simp add: sendMessage_def map_list_update_same sig_def split: option.split)

lemma counted_cong:
  "map sig hp' = map sig hp \<Longrightarrow> counted hosts nds (map sig hp) \<Longrightarrow> counted hosts nds (map sig hp')"
  by simp

lemma good_configs_orderly: "paper_invariant nds os N ls V \<Longrightarrow> is_coordinated cfg os \<Longrightarrow> orderly_config cfg"
  by (simp add: paper_invariant_def good_configs_def)

lemma orderly_reparse:
  "orderly_config cfg \<Longrightarrow> TransactionConfig (config_to_string cfg) (txid cfg) = cfg"
  by (rule TransactionConfig_to_string)
    (auto simp: orderly_config_def wf_config_def plain_host_def list_all_iff)

lemma invariant_message_sound:
  "paper_invariant nds os (add_mset x N) ls V \<Longrightarrow> good_message x V os (add_mset x N) ls"
  by (simp add: paper_invariant_def)

lemma arrival_participant:
  assumes s: "safe s" and nd: "nodes s h = Some nd" and host: "hc_id (nd_hostConfig nd) = h"
    and net: "net s = add_mset (h, req) rest"
    and e: "endpoint req = ''VOTEREQ''"
    and new: "onNewRequest PAPER_VERSION tcp ParticipantNode req ty Handlers nd (heap s) = Inr (nd', hp')"
    and s': "nodes s' = (nodes s)(h \<mapsto> nd')" "heap s' = hp'" "net s' = rest" "store s' = store s"
  shows "safe s'"
proof -
  obtain os V where os: "map fst os = heap s"
    and inv: "paper_invariant (nodes s) os (add_mset (h, req) rest) (store s) V"
    using s net by (auto elim: safeE)
  obtain cfg where cfg: "is_coordinated cfg os" "getTxId req = Inr (txid cfg)"
      "h \<in> set (participants cfg)" "getParam ''config'' req = Inr (config_to_string cfg)"
    using invariant_message_sound [OF inv] e by (auto simp: good_message_def)
  obtain ob p where ob: "hp' = heap s @ [ob]" "ob_class ob = ParticipantNode" "ob_config ob = cfg"
      "ob_host ob = h" "mq_q (ob_messages ob) = []" "ob_returned ob = None"
      "ob_proc ob = PaperParticipant_handleTransaction p" "config p = cfg" "hostname p = h"
    and nd': "nd_hostConfig nd' = nd_hostConfig nd" "nd_handlers nd' = (nd_handlers nd)(txid cfg \<mapsto> length (heap s))"
    using new_participant_effect [OF new] cfg host orderly_reparse [OF good_configs_orderly [OF inv cfg(1)]]
    by (metis sum.inject(2))
  have "paper_invariant (nodes s) (os @ [(ob, participant_know)]) rest (store s) V"
    by (rule invariant_new_participant [OF inv _ _ _ cfg(1) cfg(3) ob(2-9)]) (simp_all add: e cfg)
  then show ?thesis
    by (rule add_object_safe [OF os nd invariant_good_nodes [OF inv] _ nd'(1)]) (simp_all add: nd' s' ob)
qed

lemma arrival_message:
  assumes s: "safe s" and nd: "nodes s h = Some nd"
    and net: "net s = add_mset (h, req) rest" and t: "getTxId req = Inr t"
    and m: "rq_type m = voteYes \<longrightarrow> endpoint req = ''VOTEYES''" "rq_type m = Commit \<longrightarrow> endpoint req = ''COMMIT''"
      "rq_type m = Abort \<longrightarrow> endpoint req = ''ABORT''"
    and s': "nodes s' = nodes s" "heap s' = sendMessage t m Handlers nd (heap s)" "net s' = rest" "store s' = store s"
  shows "safe s'"
proof -
  obtain os V where os: "map fst os = heap s"
    and inv: "paper_invariant (nodes s) os (add_mset (h, req) rest) (store s) V"
    using s net by (auto elim: safeE)
  show ?thesis
  proof (cases "nd_handlers nd t")
    case None
    with invariant_loss [OF inv] show ?thesis
      by (intro safeI [of s' os V]) (simp_all add: s' os sendMessage_def)
  next
    case (Some i)
    then have i: "i < length os" "ob_txid (fst (os ! i)) = t"
      using invariant_good_nodes [OF inv] nd by (auto simp: good_nodes_def)
    obtain ob k where ob: "os ! i = (ob, k)" by fastforce
    then have hp: "heap s ! i = ob" using os i(1) by (metis fst_conv nth_map)
    let ?os = "os[i := (ob\<lparr>ob_messages := push m (ob_messages ob)\<rparr>, k)]"
    have "paper_invariant (nodes s) ?os rest (store s) V"
      using i(2) ob t m by (intro invariant_message [OF inv i(1) ob]) simp_all
    then show ?thesis
      by (intro safeI [of s' ?os V]) (simp_all add: s' Some sendMessage_def map_update os hp)
  qed
qed

lemma arrival_safe:
  assumes s: "safe s" and nd: "nodes s h = Some nd" and host: "hc_id (nd_hostConfig nd) = h"
    and net: "net s = add_mset (h, req) rest"
    and d: "dispatch PAPER_VERSION tcp req nd (heap s) = Inr (nd', hp')"
    and s': "nodes s' = (nodes s)(h \<mapsto> nd')" "heap s' = hp'" "net s' = rest" "store s' = store s"
  shows "safe s'"
proof -
  obtain os V where "paper_invariant (nodes s) os (add_mset (h, req) rest) (store s) V"
    using s net by (auto elim: safeE)
  then have "endpoint req \<in> {''VOTEREQ'', ''VOTEYES'', ''COMMIT'', ''ABORT''}"
    by (auto simp: good_message_def dest: invariant_message_sound)
  then consider (r) "endpoint req = ''VOTEREQ''"
    | (m) ty where "onOldRequest req ty Handlers nd (heap s) = Inr (nd', hp')"
        "ty = voteYes \<longrightarrow> endpoint req = ''VOTEYES''" "ty = Commit \<longrightarrow> endpoint req = ''COMMIT''"
        "ty = Abort \<longrightarrow> endpoint req = ''ABORT''"
    using d by (auto simp only: insert_iff empty_iff dispatch_at RequestType.distinct simp_thms)
  then show ?thesis
  proof cases
    case r
    show ?thesis
      by (rule arrival_participant [OF s nd host net r _ s']) (use d r in \<open>simp only: dispatch_at\<close>)
  next
    case m
    from m(1) obtain t where t: "getTxId req = Inr t" "nd' = nd"
        "hp' = sendMessage t \<lparr>rq_type = ty, rq_txid = t\<rparr> Handlers nd (heap s)"
      by (rule onOldRequest_effect)
    have "nodes s' = nodes s" using s'(1) t(2) nd by (simp add: fun_upd_idem)
    then show ?thesis
      using t(3) s' m(2-4) by (intro arrival_message [OF s nd net t(1)]) simp_all
  qed
qed

lemma arrival_counted:
  assumes counted: "counted hosts (nodes s) (sigs s)" and nd: "nodes s h = Some nd"
    and d: "dispatch PAPER_VERSION tcp req nd (heap s) = Inr (nd', hp')"
    and s': "nodes s' = (nodes s)(h \<mapsto> nd')" "heap s' = hp'"
  shows "counted hosts (nodes s') (sigs s')"
  using d
proof (cases rule: dispatch_effect)
  case participant
  from participant(2) obtain ob where ob: "hp' = heap s @ [ob]" "ob_class ob = ParticipantNode"
    and nd': "nd_hostConfig nd' = nd_hostConfig nd" "nd_nodeId nd' = nd_nodeId nd" "nd_counter nd' = nd_counter nd"
    by (rule new_participant_effect)
  have "same_counters (nodes s) (nodes s')" using nd nd' s' by (simp add: same_counters_def)
  then have "counted hosts (nodes s') (sigs s @ [sig ob])"
    using counted_other [OF counted_same [OF counted]] ob by (simp add: sig_def)
  then show ?thesis by (simp add: s' ob)
qed (use counted nd s' in \<open>auto simp: fun_upd_idem elim!: onOldRequest_effect\<close>)

subsection \<open>Threads, and the loss of requests and nodes\<close>

lemma thread_step_keeps: "thread_step ob ls ob' ls' out commits \<Longrightarrow> sig ob' = sig ob"
  by (auto elim!: thread_stepE simp: sig_def)

lemma sigs_update: "sig ob = sig (heap s ! i) \<Longrightarrow> map sig ((heap s)[i := ob]) = sigs s"
  by (rule map_list_update_same)

lemma thread_safe:
  assumes s: "safe s" and i: "i < length (heap s)"
    and step: "thread_step (heap s ! i) (store s) ob' ls' out commits"
    and s': "nodes s' = nodes s" "heap s' = (heap s)[i := ob']" "net s' = net s + out" "store s' = ls'"
  shows "safe s'"
proof -
  obtain os V where os: "map fst os = heap s" and inv: "paper_invariant (nodes s) os (net s) (store s) V"
    by (rule safeE [OF s])
  have len: "i < length os" using i os by (metis length_map)
  obtain ob k where ob: "os ! i = (ob, k)" by fastforce
  then have "heap s ! i = ob" using os len by (metis fst_conv nth_map)
  with step have "thread_step ob (store s) ob' ls' out commits" by simp
  from invariant_thread_step [OF inv len ob this] obtain k' V' where
    "paper_invariant (nodes s) (os[i := (ob', k')]) (net s + out) ls' V'" by blast
  then show ?thesis by (intro safeI [of s' "os[i := (ob', k')]" V']) (simp_all add: s' map_update os)
qed

lemma invariant_removed:
  assumes inv: "paper_invariant nds os N ls V" and i: "i < length os" and ob: "os ! i = (ob, k)"
  shows "paper_invariant nds (os[i := (ob\<lparr>ob_removed := True\<rparr>, k)]) N ls V"
proof -
  have "paper_invariant nds (os[i := (ob\<lparr>ob_removed := True\<rparr>, k)]) (N + {#}) ls V"
  proof (rule invariant_quiet [OF inv i])
    assume later: "later V os N ls V (os[i := (ob\<lparr>ob_removed := True\<rparr>, k)]) (N + {#}) ls"
    have "good_object (ob, k) V (os[i := (ob\<lparr>ob_removed := True\<rparr>, k)]) (N + {#}) ls"
      by (rule later_good_object [OF later invariant_object(1) [OF inv i ob]])
    then show "good_object (ob\<lparr>ob_removed := True\<rparr>, k) V (os[i := (ob\<lparr>ob_removed := True\<rparr>, k)]) (N + {#}) ls \<and>
        (\<forall>x \<in># {#}. good_message x V (os[i := (ob\<lparr>ob_removed := True\<rparr>, k)]) (N + {#}) ls)"
      by (simp add: good_object_def)
  qed (simp_all add: ob same_object_def votes_of_def tickets_of_def queued_votes_def)
  then show ?thesis by simp
qed

lemma removeFromMap_keeps:
  "nd_hostConfig (removeFromMap t m nd) = nd_hostConfig nd" "nd_nodeId (removeFromMap t m nd) = nd_nodeId nd"
  "nd_counter (removeFromMap t m nd) = nd_counter nd"
  "nd_handlers (removeFromMap t m nd) t' = Some i \<Longrightarrow> nd_handlers nd t' = Some i"
  by (cases m; auto simp: removeFromMap_def split: if_splits)+

lemma good_nodes_fewer:
  assumes "good_nodes nds os" and "\<And>h nd'. nds' h = Some nd' \<Longrightarrow> \<exists>nd. nds h = Some nd \<and>
    nd_hostConfig nd' = nd_hostConfig nd \<and> (\<forall>t i. nd_handlers nd' t = Some i \<longrightarrow> nd_handlers nd t = Some i)"
  shows "good_nodes nds' os"
  unfolding good_nodes_def
proof (intro allI impI)
  fix h nd' assume "nds' h = Some nd'"
  with assms(2) obtain nd where "nds h = Some nd" "nd_hostConfig nd' = nd_hostConfig nd"
    "\<And>t i. nd_handlers nd' t = Some i \<Longrightarrow> nd_handlers nd t = Some i" by blast
  with assms(1) show "hc_id (nd_hostConfig nd') = h \<and> plain_host h \<and>
      (\<forall>t i. nd_handlers nd' t = Some i \<longrightarrow> i < length os \<and> ob_txid (fst (os ! i)) = t)"
    unfolding good_nodes_def by (metis (no_types, lifting))
qed

lemma unregister_safe:
  assumes s: "safe s" and i: "i < length (heap s)" and nd: "nodes s h = Some nd"
    and s': "nodes s' = (nodes s)(h \<mapsto> removeFromMap t m nd)"
      "heap s' = (heap s)[i := (heap s ! i)\<lparr>ob_removed := True\<rparr>]" "net s' = net s" "store s' = store s"
  shows "safe s'"
proof -
  obtain os V where os: "map fst os = heap s" and inv: "paper_invariant (nodes s) os (net s) (store s) V"
    by (rule safeE [OF s])
  have len: "i < length os" using i os by (metis length_map)
  obtain ob k where ob: "os ! i = (ob, k)" by fastforce
  then have hp: "heap s ! i = ob" using os len by (metis fst_conv nth_map)
  let ?os = "os[i := (ob\<lparr>ob_removed := True\<rparr>, k)]"
  have inv': "paper_invariant (nodes s) ?os (net s) (store s) V" by (rule invariant_removed [OF inv len ob])
  have "good_nodes (nodes s') ?os"
    by (rule good_nodes_fewer [OF invariant_good_nodes [OF inv']])
      (use nd in \<open>auto simp: s' removeFromMap_keeps(1) dest: removeFromMap_keeps(4) split: if_splits\<close>)
  from invariant_nodes [OF inv' this] show ?thesis
    by (intro safeI [of s' ?os V]) (simp_all add: s' map_update os hp)
qed

lemma crash_safe:
  assumes s: "safe s" and s': "nodes s' = (nodes s)(h := None)" "heap s' = heap s" "net s' = net s" "store s' = store s"
  shows "safe s'"
proof -
  obtain os V where os: "map fst os = heap s" and inv: "paper_invariant (nodes s) os (net s) (store s) V"
    by (rule safeE [OF s])
  have "good_nodes (nodes s') os"
    by (rule good_nodes_fewer [OF invariant_good_nodes [OF inv]]) (auto simp: s' split: if_splits)
  from invariant_nodes [OF inv this] show ?thesis by (intro safeI [of s' os V]) (simp_all add: s' os)
qed

section \<open>Every reachable state is safe\<close>

lemma step_signatures:
  assumes "cornus_step PAPER_VERSION s s'"
  obtains sg where "sigs s' = sigs s @ sg"
  using assms
proof (cases rule: cornus_step.cases)
  case (client_request h nd cfg nd' heap')
  from client_request(3) obtain ob where "heap' = heap s @ [ob]" by (rule client_request_effect)
  then show thesis using that client_request(1) by simp
next
  case (arrival h nd req rest tcp nd' heap')
  from arrival(4) show thesis
  proof (cases rule: dispatch_effect)
    case participant
    from participant(2) obtain ob where "heap' = heap s @ [ob]" by (rule new_participant_effect)
    then show thesis using that arrival(1) by simp
  next
    case (message ty)
    then show thesis using that [of "[]"] arrival(1) by (auto elim: onOldRequest_effect)
  next
    case replicator
    then show thesis using that [of "[]"] arrival(1) by (auto elim: onOldRequest_effect)
  qed (use that [of "[]"] arrival(1) in simp)
next
  case (thread i ob' ls' out commits)
  then show thesis using that [of "[]"] by (simp add: sigs_update thread_step_keeps)
next
  case (unregister i nd)
  then show thesis using that [of "[]"] by (simp add: sigs_update sig_def)
qed (use that [of "[]"] in simp_all)

lemma step_orderly: "cornus_step PAPER_VERSION s s' \<Longrightarrow> orderly s' \<Longrightarrow> orderly s"
  by (metis step_signatures orderly_ordered ordered_prefix)

lemma same_counters_removed:
  "nds h = Some nd \<Longrightarrow> same_counters nds (nds(h \<mapsto> removeFromMap t m nd))"
  by (simp add: same_counters_def removeFromMap_keeps)

lemma same_counters_crash: "same_counters nds (nds(h := None))"
  by (simp add: same_counters_def)

lemma step_keeps:
  assumes step: "cornus_step PAPER_VERSION s s'" and good: "good_hosts hosts"
    and counted: "counted hosts (nodes s) (sigs s)"
  shows "counted hosts (nodes s') (sigs s') \<and> (safe s \<longrightarrow> orderly s' \<longrightarrow> safe s')"
  using step
proof (cases rule: cornus_step.cases)
  case (client_request h nd cfg nd' heap')
  then show ?thesis by (intro client_request_keeps [OF counted good]) simp_all
next
  case (arrival h nd req rest tcp nd' heap')
  have "hc_id (nd_hostConfig nd) = h"
    using counted good arrival(2) by (auto simp: counted_def good_hosts_def)
  have "safe s'" if "safe s"
    by (rule arrival_safe [OF that arrival(2) \<open>hc_id (nd_hostConfig nd) = h\<close> arrival(3,4)])
      (simp_all add: arrival(1))
  moreover have "counted hosts (nodes s') (sigs s')"
    by (rule arrival_counted [OF counted arrival(2,4)]) (simp_all add: arrival(1))
  ultimately show ?thesis by simp
next
  case (loss h req rest)
  have "safe s'" if "safe s"
    using that loss invariant_loss by (auto elim!: safeE intro!: safeI)
  with loss counted show ?thesis by simp
next
  case (thread i ob' ls' out commits)
  have "safe s'" if "safe s"
    by (rule thread_safe [OF that thread(2,4)]) (simp_all add: thread(1))
  moreover have "counted hosts (nodes s') (sigs s')"
    using counted by (simp add: thread(1) sigs_update thread_step_keeps [OF thread(4)])
  ultimately show ?thesis by simp
next
  case (unregister i nd)
  have "safe s'" if "safe s"
    by (rule unregister_safe [OF that unregister(2,3)]) (simp_all add: unregister(1))
  moreover have "counted hosts (nodes s') (sigs s)"
    using counted_same [OF counted same_counters_removed [of "nodes s" "ob_host (heap s ! i)" nd]] unregister(3)
    by (simp add: unregister(1))
  moreover have "sigs s' = sigs s" by (simp add: unregister(1) sigs_update sig_def)
  ultimately show ?thesis by simp
next
  case (crash h)
  have "safe s'" if "safe s"
    by (rule crash_safe [OF that]) (simp_all add: crash)
  then show ?thesis using counted_same [OF counted same_counters_crash] by (simp add: crash)
qed

lemma reach_safe:
  assumes "reach PAPER_VERSION hosts s" and good: "good_hosts hosts"
  shows "counted hosts (nodes s) (sigs s) \<and> (orderly s \<longrightarrow> safe s)"
  using assms(1)
proof induction
  case reach_start
  show ?case using start_counted [OF good] start_safe [OF good] by simp
next
  case (reach_step s s')
  with step_keeps [OF reach_step.hyps(2) good] step_orderly [OF reach_step.hyps(2)] show ?case by blast
qed

section \<open>Agreement and validity\<close>

text \<open>A decision of a transaction: a handler has returned it, or it is in a log.\<close>

definition decided :: "cornus \<Rightarrow> transaction_id \<Rightarrow> decision \<Rightarrow> bool" where
  "decided s t d \<longleftrightarrow>
     (\<exists>ob \<in> set (heap s). ob_txid ob = t \<and> ob_returned ob = Some d) \<or> (\<exists>h. decisions (store s) (t, h) = d)"

lemma decided_supported:
  assumes inv: "paper_invariant nds os N (store s) V" and os: "map fst os = heap s"
    and d: "decided s t d" "d \<noteq> ''WORKING''"
  obtains cfg where "is_coordinated cfg os" and "txid cfg = t" and "supported d cfg V os N (store s)"
  using d(1) unfolding decided_def
proof (elim disjE bexE exE conjE)
  fix ob assume "ob \<in> set (heap s)" and ob: "ob_txid ob = t" "ob_returned ob = Some d"
  then obtain k where "(ob, k) \<in> set os" unfolding os [symmetric] by auto
  then have "good_object (ob, k) V os N (store s)" using inv by (auto simp: paper_invariant_def)
  then show thesis using ob that [of "ob_config ob"] by (simp add: good_object_def)
next
  fix h assume "decisions (store s) (t, h) = d"
  moreover have "good_logs V os N (store s)" using inv by (simp add: paper_invariant_def)
  ultimately show thesis using d(2) that unfolding good_logs_def by blast
qed

lemma same_coordinated:
  "paper_invariant nds os N ls V \<Longrightarrow> is_coordinated cfg os \<Longrightarrow> is_coordinated cfg' os \<Longrightarrow>
   txid cfg = txid cfg' \<Longrightarrow> cfg = cfg'"
  by (simp add: paper_invariant_def good_configs_def)

lemma not_both_supported:
  "commit_ok cfg V \<Longrightarrow> abort_ok cfg V os N ls \<Longrightarrow> False"
  by (auto simp: commit_ok_def abort_ok_def)

lemma reach_invariant:
  assumes "reach PAPER_VERSION hosts s" and "good_hosts hosts" and "orderly s"
  obtains os V where "map fst os = heap s" and "paper_invariant (nodes s) os (net s) (store s) V"
  using reach_safe [OF assms(1,2)] assms(3) by (auto elim: safeE)

lemma decisions_agree:
  assumes "reach PAPER_VERSION hosts s" and "good_hosts hosts" and "orderly s"
  shows "\<not> (decided s t ''COMMIT'' \<and> decided s t ''ABORT'')"
proof
  obtain os V where os: "map fst os = heap s" and inv: "paper_invariant (nodes s) os (net s) (store s) V"
    by (rule reach_invariant [OF assms])
  assume "decided s t ''COMMIT'' \<and> decided s t ''ABORT''"
  then have c: "decided s t ''COMMIT''" and a: "decided s t ''ABORT''" by simp_all
  from decided_supported [OF inv os c] obtain cfg where
    cfg: "is_coordinated cfg os" "txid cfg = t" "commit_ok cfg V" by (auto simp: supported_def)
  from decided_supported [OF inv os a] obtain cfg' where
    cfg': "is_coordinated cfg' os" "txid cfg' = t" "abort_ok cfg' V os (net s) (store s)"
    by (auto simp: supported_def)
  have "cfg = cfg'" using same_coordinated [OF inv cfg(1) cfg'(1)] cfg cfg' by simp
  then show False using not_both_supported cfg cfg' by blast
qed

text \<open>
  C1: agreement. In every reachable state of the paper version, whatever was delayed, lost or
  overtaken, whoever timed out and whichever nodes crashed, a transaction is not both committed and
  aborted: no two handlers return different decisions, no two logs hold different ones, and no
  handler's decision contradicts a log. This asks of the clients that configurations are orderly (host
  names that survive the encodings, every participant once) and that no node gets more than 65536
  requests, and of the installation that the node numbers differ.
\<close>

theorem paper_agreement:
  assumes "reach PAPER_VERSION hosts s" and "good_hosts hosts" and "orderly s"
  shows "\<not> (decided s t ''COMMIT'' \<and> decided s t ''ABORT'')"
  by (rule decisions_agree [OF assms])

lemma run_good_hosts: "good_hosts run_hosts"
proof -
  have "plain_host ''a:1''" "plain_host ''b:2''" by code_simp+
  then show ?thesis
    by (auto simp: good_hosts_def run_hosts_def node_number_def inj_on_def split: if_splits)
qed

lemma run_orderly_config: "orderly_config run_config"
  by code_simp

lemma commit_run_state:
  obtains s ob1 ob2 where "reach PAPER_VERSION run_hosts s" and "orderly s" and "heap s = [ob1, ob2]"
    and "ob_config ob1 = run_config" and "ob_config ob2 = run_config"
    and "ob_returned ob1 = Some ''COMMIT''" and "ob_returned ob2 = Some ''COMMIT''"
    and "store s = run_store ''COMMIT''"
proof -
  obtain s where s: "acts PAPER_VERSION commit_run (start run_hosts) = Some s"
      "map ob_class (heap s) = [CoordinatorNode, ParticipantNode]"
      "map ob_config (heap s) = [run_config, run_config]"
      "map ob_returned (heap s) = [Some ''COMMIT'', Some ''COMMIT'']" "store s = run_store ''COMMIT''"
    using commit_run_works by (elim exE conjE)
  obtain ob1 ob2 where hp: "heap s = [ob1, ob2]" using s(3) by (auto simp: map_eq_Cons_conv)
  have "length (coordinator_ids h (sigs s)) \<le> 65536" for h
    using s(2,3) hp by (simp add: coordinator_ids_def sig_def)
  moreover have "\<forall>ob \<in> set (heap s). orderly_config (ob_config ob)"
    using s(3) hp run_orderly_config by simp
  ultimately have "orderly s" by (simp add: orderly_def)
  moreover have "reach PAPER_VERSION run_hosts s" by (rule acts_reach [OF s(1) reach_start])
  moreover have "ob_config ob1 = run_config" "ob_config ob2 = run_config"
    "ob_returned ob1 = Some ''COMMIT''" "ob_returned ob2 = Some ''COMMIT''"
    using s(3,4) hp by simp_all
  ultimately show thesis using that hp s(5) by blast
qed

theorem paper_agreement_witness:
  "\<exists>s. reach PAPER_VERSION run_hosts s \<and> decided s 1 ''COMMIT'' \<and> \<not> decided s 1 ''ABORT''"
proof -
  obtain s ob1 ob2 where s: "reach PAPER_VERSION run_hosts s" "orderly s" "heap s = [ob1, ob2]"
      "ob_config ob1 = run_config" "ob_returned ob1 = Some ''COMMIT''"
    by (rule commit_run_state)
  then have "decided s 1 ''COMMIT''" by (auto simp: decided_def)
  with paper_agreement [OF s(1) run_good_hosts s(2), of 1] s(1) show ?thesis by blast
qed

text \<open>
  C2: commit validity. When a transaction has been committed anywhere in a reachable state of the
  paper version, every participant of it has voted yes in its own log: no participant's log is still
  open or aborted.
\<close>

theorem paper_commit_valid:
  assumes "reach PAPER_VERSION hosts s" and "good_hosts hosts" and "orderly s"
    and "decided s t ''COMMIT''"
  shows "\<exists>ob \<in> set (heap s). ob_class ob = CoordinatorNode \<and> ob_txid ob = t \<and>
    (\<forall>h \<in> set (participants (ob_config ob)). decisions (store s) (t, h) \<notin> {''WORKING'', ''ABORT''})"
proof -
  obtain os V where os: "map fst os = heap s" and inv: "paper_invariant (nodes s) os (net s) (store s) V"
    by (rule reach_invariant [OF assms(1-3)])
  from decided_supported [OF inv os assms(4)] obtain cfg where
    cfg: "is_coordinated cfg os" "txid cfg = t" "commit_ok cfg V" by (auto simp: supported_def)
  then obtain ob k where ob: "(ob, k) \<in> set os" "ob_class ob = CoordinatorNode" "ob_config ob = cfg"
    by (auto simp: is_coordinated_def)
  have logs: "good_logs V os (net s) (store s)" using inv by (simp add: paper_invariant_def)
  have "decisions (store s) (t, h) \<notin> {''WORKING'', ''ABORT''}" if h: "h \<in> set (participants cfg)" for h
  proof -
    have open_log: "decisions (store s) (t, h) \<noteq> ''WORKING''"
      using cfg h logs by (auto simp: commit_ok_def good_logs_def)
    moreover have "decisions (store s) (t, h) \<noteq> ''ABORT''"
    proof
      assume a: "decisions (store s) (t, h) = ''ABORT''"
      then obtain cfg' where "is_coordinated cfg' os" "txid cfg' = t" "abort_ok cfg' V os (net s) (store s)"
        using logs open_log unfolding good_logs_def supported_def by metis
      then show False using same_coordinated [OF inv cfg(1)] cfg not_both_supported by metis
    qed
    ultimately show ?thesis by simp
  qed
  moreover have "ob \<in> set (heap s)" unfolding os [symmetric] using ob(1) by force
  ultimately show ?thesis using ob cfg by blast
qed

theorem paper_commit_valid_witness:
  "\<exists>s. reach PAPER_VERSION run_hosts s \<and> decided s 1 ''COMMIT'' \<and>
    (\<exists>ob \<in> set (heap s). ob_class ob = CoordinatorNode \<and> ob_txid ob = 1 \<and>
    (\<forall>h \<in> set (participants (ob_config ob)). decisions (store s) (1, h) \<notin> {''WORKING'', ''ABORT''}))"
proof -
  obtain s ob1 ob2 where s: "reach PAPER_VERSION run_hosts s" "orderly s" "heap s = [ob1, ob2]"
      "ob_config ob1 = run_config" "ob_returned ob1 = Some ''COMMIT''"
    by (rule commit_run_state)
  then have "decided s 1 ''COMMIT''" by (auto simp: decided_def)
  with paper_commit_valid [OF s(1) run_good_hosts s(2)] s(1) show ?thesis by blast
qed

text \<open>
  C6: no worker commits too early. When the thread of a handler does the commit of its worker in a
  reachable state of the paper version, all participants of its transaction have voted yes in their
  logs and the transaction is aborted nowhere.
\<close>

theorem paper_worker_commits:
  assumes "reach PAPER_VERSION hosts s" and "good_hosts hosts" and "orderly s"
    and ob: "ob \<in> set (heap s)" "thread_step ob (store s) ob' ls' out commits" "commits \<noteq> []"
  shows "commits = [(ob_host ob, ob_txid ob)] \<and> \<not> decided s (ob_txid ob) ''ABORT'' \<and>
    (\<forall>h \<in> set (participants (ob_config ob)). decisions (store s) (ob_txid ob, h) \<noteq> ''WORKING'')"
proof -
  obtain os V where os: "map fst os = heap s" and inv: "paper_invariant (nodes s) os (net s) (store s) V"
    by (rule reach_invariant [OF assms(1-3)])
  obtain k where k: "(ob, k) \<in> set os" using ob(1) unfolding os [symmetric] by auto
  then have good: "good_object (ob, k) V os (net s) (store s)" using inv by (auto simp: paper_invariant_def)
  obtain st p where proc: "ob_proc ob = WorkerCommit st p" "commits = [(ob_host ob, ob_txid ob)]"
    using ob(2,3) by (auto elim: thread_stepE)
  then have cfg: "is_coordinated (ob_config ob) os" and commit: "commit_ok (ob_config ob) V"
    using good by (auto simp: good_object_def knows_def elim: disciplinedE)
  have "\<not> decided s (ob_txid ob) ''ABORT''"
  proof
    assume "decided s (ob_txid ob) ''ABORT''"
    from decided_supported [OF inv os this] obtain cfg' where
      "is_coordinated cfg' os" "txid cfg' = ob_txid ob" "abort_ok cfg' V os (net s) (store s)"
      by (auto simp: supported_def)
    then show False using same_coordinated [OF inv cfg] commit not_both_supported by metis
  qed
  moreover have "decisions (store s) (ob_txid ob, h) \<noteq> ''WORKING''"
    if "h \<in> set (participants (ob_config ob))" for h
    using inv commit that by (auto simp: paper_invariant_def good_logs_def commit_ok_def)
  ultimately show ?thesis using proc(2) by blast
qed

theorem paper_worker_commits_witness:
  "\<exists>s ob ob' ls' out. reach PAPER_VERSION run_hosts s \<and> ob \<in> set (heap s) \<and>
     thread_step ob (store s) ob' ls' out [(''b:2'', 1)] \<and> \<not> decided s 1 ''ABORT''"
proof -
  obtain s p where s: "acts PAPER_VERSION worker_run (start run_hosts) = Some s"
      "map ob_class (heap s) = [CoordinatorNode, ParticipantNode]"
      "map ob_config (heap s) = [run_config, run_config]" "map ob_host (heap s) = [''a:1'', ''b:2'']"
      "ob_proc (heap s ! 1) = WorkerCommit ''b:2'' p"
    using worker_run_works by (elim exE conjE)
  obtain ob1 ob2 where hp: "heap s = [ob1, ob2]" using s(3) by (auto simp: map_eq_Cons_conv)
  have reach: "reach PAPER_VERSION run_hosts s" by (rule acts_reach [OF s(1) reach_start])
  have orderly: "orderly s"
    using s(2,3) hp run_orderly_config by (simp add: orderly_def coordinator_ids_def sig_def)
  have step: "thread_step ob2 (store s) (ob2\<lparr>ob_proc := p\<rparr>) (store s) {#} [(''b:2'', 1)]"
    using worker_commit [of ob2 "''b:2''" p "store s"] s(3-5) hp by simp
  have "ob2 \<in> set (heap s)" and "ob_txid ob2 = 1" using hp s(3) by simp_all
  with paper_worker_commits [OF reach run_good_hosts orderly _ step] reach step show ?thesis by fastforce
qed

end
