(* ===== verification/New_Disagreement.thy ===== *)
theory New_Disagreement
  imports Paper_Agreement
begin

text \<open>
  The second version does not have the agreement that \<open>Paper_Agreement\<close> proves of the paper version:
  a run of two nodes in which the coordinator answers its client \<open>COMMIT\<close> and the participant aborts.
\<close>

definition disagreement_run :: "action list" where
  "disagreement_run =
     Client_request ''a:1'' ''a:1 b:2 '' # steps 6 0 @
     Deliver ''b:2'' (run_request ''VOTEREQ'' ''a:1 b:2 '') # steps 7 1 @
     Step 1 Expire # steps 3 1 @
     Deliver ''a:1'' run_vote # steps 5 0"

lemma run_dbms_abort:
  "dbms_call (LOG_READ 1 ''b:2'' TRANSACTION) Map.empty = (Inr ''WORKING'', run_store ''WORKING'')"
  "dbms_call (LOG_WRITE ''ABORT'' 1 ''b:2'' TRANSACTION) (run_store ''WORKING'') = (Inr ''ABORT'', run_store ''ABORT'')"
  by (simp_all add: run_dbms_simps run_store_def LogManager_LOG_READ_def TransactionLog_LOG_READ_def)

lemmas new_run_simps = run_simps NewCoordinator_def NewParticipant_def NewCoordinator_run_def
  NewCoordinator_handleTransaction_def new_coordinator_decided_def NewParticipant_handleTransaction_def
  new_participant_execution_def New_terminationProtocol_def new_participant_decided_def
  sendToReplicators_def finishTransaction_def LOG_READ_tx_def LOG_WRITE_tx_def run_dbms_abort popFront_def

lemma disagreement_run_works:
  "\<exists>s. acts NEW_VERSION disagreement_run (start run_hosts) = Some s \<and>
     map ob_class (heap s) = [CoordinatorNode, ParticipantNode] \<and>
     map ob_config (heap s) = [run_config, run_config] \<and>
     map ob_returned (heap s) = [Some ''COMMIT'', Some ''ABORT''] \<and>
     store s = run_store ''ABORT''"
  unfolding run_start disagreement_run_def
  by (simp add: new_run_simps)

text \<open>
  C5: the second version can disagree. There is a run of two nodes, with a well-formed configuration
  and no crash and no loss, in which the same transaction is both committed (the coordinator has
  answered its client) and aborted (the participant, which has voted yes, has aborted and logged it).
\<close>

theorem new_version_disagrees:
  "\<exists>s. reach NEW_VERSION run_hosts s \<and> good_hosts run_hosts \<and> orderly s \<and>
     decided s 1 ''COMMIT'' \<and> decided s 1 ''ABORT''"
proof -
  obtain s where s: "acts NEW_VERSION disagreement_run (start run_hosts) = Some s"
      "map ob_class (heap s) = [CoordinatorNode, ParticipantNode]"
      "map ob_config (heap s) = [run_config, run_config]"
      "map ob_returned (heap s) = [Some ''COMMIT'', Some ''ABORT'']"
    using disagreement_run_works by (elim exE conjE)
  obtain ob1 ob2 where hp: "heap s = [ob1, ob2]" using s(3) by (auto simp: map_eq_Cons_conv)
  have "decided s 1 ''COMMIT''" "decided s 1 ''ABORT''"
    using s(3,4) hp unfolding decided_def by simp_all
  moreover have "orderly s"
    using s(2,3) hp run_orderly_config by (simp add: orderly_def coordinator_ids_def sig_def)
  moreover have "reach NEW_VERSION run_hosts s" by (rule acts_reach [OF s(1) reach_start])
  ultimately show ?thesis using run_good_hosts by blast
qed

end
