(* ===== verification/Paper_Progress.thy ===== *)
theory Paper_Progress
  imports Paper_Agreement
begin

text \<open>
  The paper version does not block on crashes: a handler whose node is alive comes to a decision by its
  own steps alone, if the hosts that it still has to reach answer, whatever has become of all the other
  nodes and of the requests on their way. A participant that waits for the decision has to reach no host
  at all. \<open>ends\<close> says that a thread comes to a decision if it takes at most so many messages and the
  named hosts answer; both handlers have it for every number, and every step keeps it. The one premise
  about the clients beside orderly configurations is that a coordinator is not among its own
  participants; a run shows what happens otherwise.
\<close>

section \<open>Threads that come to a decision\<close>

text \<open>
  For a thread of the transaction \<open>cfg\<close>, which is a participant or not, that connects to and waits for
  the replies of the hosts \<open>H\<close> only, and takes at most \<open>n\<close> more messages. A participant is ready for
  decisions only, and from its wait for the decision on it needs no other host. The answers of the DBMS
  are those of well-formed logs, and votes go to the coordinator.
\<close>

inductive ends :: "transaction_config \<Rightarrow> bool \<Rightarrow> host set \<Rightarrow> nat \<Rightarrow> proc \<Rightarrow> bool" for cfg participant where
  ends_return: "d = ''COMMIT'' \<or> d = ''ABORT'' \<Longrightarrow> ends cfg participant H n (Return d)"
| ends_record: "ends cfg participant H n p \<Longrightarrow> ends cfg participant H n (Record s p)"
| ends_start: "ends cfg participant H n p \<Longrightarrow> ends cfg participant H n (SetTimeoutStart p)"
| ends_wait:
    "H' = (if participant then {} else H) \<Longrightarrow> ends cfg participant H' n (K None) \<Longrightarrow>
     (\<And>m. 0 < n \<Longrightarrow> participant \<longrightarrow> rq_type m \<in> {Commit, Abort} \<Longrightarrow> ends cfg participant H' (n - 1) (K (Some m))) \<Longrightarrow>
     ends cfg participant H n (WaitForNextMessage timeout K)"
| ends_connect: "h \<in> H \<Longrightarrow> ends cfg participant H n p \<Longrightarrow> ends cfg participant H n (Connect h p)"
| ends_send:
    "endpoint req = ''VOTEYES'' \<longrightarrow> h = coordinator cfg \<Longrightarrow> ends cfg participant H n p \<Longrightarrow>
     ends cfg participant H n (Send h req p)"
| ends_replies: "set hs \<subseteq> H \<Longrightarrow> ends cfg participant H n p \<Longrightarrow> ends cfg participant H n (AwaitReplies hs p)"
| ends_once:
    "no_slash h \<Longrightarrow> valid_decision d \<Longrightarrow> (\<And>r. valid_decision r \<Longrightarrow> ends cfg participant H n (K r)) \<Longrightarrow>
     ends cfg participant H n (Dbms (LOG_ONCE d (txid cfg) h TRANSACTION) K)"
| ends_write:
    "no_slash h \<Longrightarrow> valid_decision d \<Longrightarrow> ends cfg participant H n (K d) \<Longrightarrow>
     ends cfg participant H n (Dbms (LOG_WRITE d (txid cfg) h TRANSACTION) K)"
| ends_vote: "(\<And>b. ends cfg participant H n (K b)) \<Longrightarrow> ends cfg participant H n (VoteReq s K)"
| ends_commit: "ends cfg participant H n p \<Longrightarrow> ends cfg participant H n (WorkerCommit s p)"

inductive_cases endsE: "ends cfg participant H n p"

lemmas ends_intros = ends_return ends_record ends_start ends_connect ends_send ends_replies ends_vote ends_commit

lemma ends_more_hosts: "ends cfg part H n p \<Longrightarrow> H \<subseteq> H2 \<Longrightarrow> ends cfg part H2 n p"
proof (induction arbitrary: H2 rule: ends.induct)
  case (ends_wait H' H n K timeout)
  then have "H' \<subseteq> (if part then {} else H2)" by auto
  with ends_wait show ?case by (intro ends.ends_wait [OF refl]) blast+
qed (auto intro!: ends_intros ends_once ends_write)

lemma ends_send_each:
  assumes "endpoint req \<noteq> ''VOTEYES''" and "set hs \<subseteq> H"
    and "\<And>self'. config self' = config self \<Longrightarrow> hostname self' = hostname self \<Longrightarrow>
      hostConfig self' = hostConfig self \<Longrightarrow> ends cfg part H n (K self')"
  shows "ends cfg part H n (send_each req hs self K)"
  using assms by (induction req hs self K rule: send_each.induct) (auto intro!: ends_intros)

lemma ends_termination:
  assumes "config self = cfg" and "list_all no_slash (participants cfg)"
    and "\<And>d. d = ''COMMIT'' \<or> d = ''ABORT'' \<Longrightarrow> ends cfg part H n (K d)"
  shows "ends cfg part H n (Paper_terminationProtocol self K)"
proof -
  have "ends cfg part H n (paper_termination_loop self ps K)" if "list_all no_slash ps" for ps
    using that
  proof (induction ps)
    case Nil
    then show ?case by (simp add: assms(3))
  next
    case (Cons p ps)
    have "ends cfg part H n (paper_termination_loop self ps K)" using Cons by simp
    moreover have "ends cfg part H n (K ''ABORT'')" and "ends cfg part H n (K ''COMMIT'')" by (simp_all add: assms(3))
    ultimately have "ends cfg part H n (if r = ''ABORT'' then K ''ABORT'' else if r = ''COMMIT'' then K ''COMMIT''
        else if r = ''VOTEYES'' then paper_termination_loop self ps K
        else Throw (Runtime_error (''Unknown response from transaction log: '' @ r)))" if "valid_decision r" for r
      using that by (simp only: valid_decision_def insert_iff empty_iff if_True if_False simp_thms split: if_split) blast
    with Cons.prems show ?case
      unfolding paper_termination_loop.simps LOG_ONCE_tx_def assms(1)
      by (intro ends_once) (simp_all add: valid_decision_def)
  qed
  with assms(1,2) show ?thesis by (simp add: Paper_terminationProtocol_def)
qed

lemma ends_voting:
  assumes "\<And>n. ends cfg False H n on_timeout"
    and "\<And>n d. d = ''COMMIT'' \<or> d = ''ABORT'' \<Longrightarrow> ends cfg False H n (dec d)"
  shows "ends cfg False H n (voting False timeout k v on_timeout dec)"
proof (induction n arbitrary: v)
  case 0
  show ?case by (subst voting.code) (auto intro!: ends_wait assms(1))
next
  case (Suc n)
  have "ends cfg False H n (voting True timeout k v on_timeout dec)" for v
    unfolding voting_True using Suc by (auto intro!: ends_record assms(2))
  with Suc show ?case
    by (subst voting.code) (auto intro!: ends_wait assms)
qed

lemma plain_host_no_slash: "plain_host h \<Longrightarrow> no_slash h"
  by (simp add: plain_host_def)

lemma participants_no_slash: "orderly_config cfg \<Longrightarrow> list_all no_slash (participants cfg)"
  by (simp add: list_all_iff orderly_no_slash)

lemma ends_coordinator:
  assumes "orderly_config (config self)" and "H = set (participants (config self))"
  shows "ends (config self) False H n (PaperCoordinator_handleTransaction self)"
proof -
  have decided: "ends (config self) False H n (paper_coordinator_decided self' d)"
    if "d = ''COMMIT'' \<or> d = ''ABORT''" and "config self' = config self" for n d self'
    using that assms(2) by (auto simp: paper_coordinator_decided_def sendToParticipants_def send_def
        intro!: ends_intros ends_send_each)
  have "ends (config self) False H n (voting_loop T k 0
      (Paper_terminationProtocol self' (paper_coordinator_decided self')) (paper_coordinator_decided self'))"
    if "config self' = config self" for self' T k
    unfolding voting_loop_def
    by (intro ends_voting ends_termination decided that participants_no_slash assms)
  then show ?thesis
    using assms(2) by (auto simp: PaperCoordinator_handleTransaction_def sendToParticipants_def send_def
        intro!: ends_intros ends_send_each)
qed

lemma ends_to_coordinator:
  assumes "coordinator (config self) \<in> set (clients self)" and "ends (config self) part H n (K self)"
    and "coordinator (config self) \<in> H"
  shows "ends (config self) part H n (sendToCoordinator self type K)"
  using assms by (auto simp: sendToCoordinator_def Let_def intro!: ends_intros)

lemma ends_participant:
  assumes "orderly_config (config self)" and "no_slash (hostname self)"
    and "coordinator (config self) \<in> set (clients self)"
  shows "ends (config self) True {coordinator (config self)} n (PaperParticipant_handleTransaction self)"
proof -
  let ?ends = "\<lambda>H. ends (config self) True H n" and ?c = "{coordinator (config self)}"
  have decided: "ends (config self) True H n (paper_participant_decided self d)"
    if "d = ''COMMIT'' \<or> d = ''ABORT''" for H n d
    using that assms(2) unfolding paper_participant_decided_def LOG_WRITE_tx_def
    by (intro ends_write) (auto simp: valid_decision_def intro!: ends_intros)
  have "?ends {} (Paper_terminationProtocol self (paper_participant_decided self))"
    by (intro ends_termination decided participants_no_slash assms(1) refl)
  then have "?ends ?c (paper_participant_execution self)"
    unfolding paper_participant_execution_def
    by (intro ends_start ends_wait) (auto intro!: ends_record decided)
  moreover have no: "?ends ?c (sendToCoordinator self ''ABORT'' (\<lambda>self. Return ''ABORT''))"
    by (intro ends_to_coordinator assms(3)) (simp_all add: ends_return)
  ultimately have "?ends ?c (if resp = ''VOTEYES'' then Record ''responding-yes''
        (sendToCoordinator self ''VOTEYES'' (\<lambda>self. Record ''sent-yes'' (paper_participant_execution self)))
      else sendToCoordinator self ''ABORT'' (\<lambda>self. Return ''ABORT''))" for resp
    using assms(3) by (simp add: ends_record ends_to_coordinator)
  moreover have "valid_decision ''VOTEYES''" by (simp add: valid_decision_def)
  ultimately show ?thesis
    using assms(2) no unfolding PaperParticipant_handleTransaction_def LOG_ONCE_tx_def
    by (intro ends_record ends_vote) (auto intro: ends_once)
qed

section \<open>A thread on its own\<close>

text \<open>
  The other hosts matter to a thread in two places: \<open>TCPClient\<close>'s constructor resolves the name of the
  host (and throws if it cannot), and \<open>sendRequest\<close> blocks in \<open>recv\<close>, without any time-out, until the
  host replies or closes the connection. \<open>answers h\<close> says that neither stops the thread: the name of \<open>h\<close>
  resolves, and every exchange with \<open>h\<close> comes to its end, by a reply or because \<open>h\<close> refuses the
  connection or closes it in order. A host that accepts and then hangs does not answer, nor does one
  whose replies are lost, or one that resets an open connection: the error of \<open>recv\<close> is undefined
  behaviour of \<open>sendRequest\<close>.
\<close>

definition ready :: "(host \<Rightarrow> bool) \<Rightarrow> proc \<Rightarrow> bool" where
  "ready answers p \<longleftrightarrow>
     (case p of Connect h p' \<Rightarrow> answers h | AwaitReplies hs p' \<Rightarrow> list_all answers hs | _ \<Rightarrow> True)"

definition own_step :: "(host \<Rightarrow> bool) \<Rightarrow> nat \<Rightarrow> stimulus \<Rightarrow> cornus \<Rightarrow> cornus option" where
  "own_step answers i st s =
     (if i < length (heap s) \<and> ready answers (ob_proc (heap s ! i)) then act PAPER_VERSION (Step i st) s else None)"

text \<open>
  \<open>decides_alone answers i s\<close>: whatever steps of its own the thread \<open>i\<close> takes from \<open>s\<close>, with no step of
  anybody else, it gets to a decision and is not stopped before.
\<close>

inductive decides_alone :: "(host \<Rightarrow> bool) \<Rightarrow> nat \<Rightarrow> cornus \<Rightarrow> bool" for answers i where
  has_decided: "ob_returned (heap s ! i) \<in> {Some ''COMMIT'', Some ''ABORT''} \<Longrightarrow> decides_alone answers i s"
| goes_on:
    "own_step answers i st s = Some s1 \<Longrightarrow>
     (\<And>st' s2. own_step answers i st' s = Some s2 \<Longrightarrow> decides_alone answers i s2) \<Longrightarrow>
     decides_alone answers i s"

text \<open>So there is a run to the decision, made of steps of the thread alone.\<close>

lemma decides_alone_run:
  "decides_alone answers i s \<Longrightarrow>
   \<exists>sts s'. acts PAPER_VERSION (map (Step i) sts) s = Some s' \<and>
     ob_returned (heap s' ! i) \<in> {Some ''COMMIT'', Some ''ABORT''}"
proof (induction rule: decides_alone.induct)
  case (has_decided s)
  then show ?case by (intro exI [of _ "[]"] exI [of _ s]) simp
next
  case (goes_on st s s1)
  then obtain sts s' where "acts PAPER_VERSION (map (Step i) sts) s1 = Some s'"
      "ob_returned (heap s' ! i) \<in> {Some ''COMMIT'', Some ''ABORT''}"
    by blast
  moreover have "act PAPER_VERSION (Step i st) s = Some s1"
    using goes_on.hyps(1) by (simp add: own_step_def split: if_splits)
  ultimately show ?case by (intro exI [of _ "st # sts"] exI [of _ s']) simp
qed

text \<open>The thread \<open>i\<close> is at \<open>p\<close>, with at most \<open>n\<close> messages in its queue, and has not decided yet.\<close>

definition at_proc :: "nat \<Rightarrow> transaction_config \<Rightarrow> bool \<Rightarrow> nat \<Rightarrow> proc \<Rightarrow> cornus \<Rightarrow> bool" where
  "at_proc i cfg part n p s \<longleftrightarrow>
     i < length (heap s) \<and> nodes s (ob_host (heap s ! i)) \<noteq> None \<and>
     ob_config (heap s ! i) = cfg \<and> ob_proc (heap s ! i) = p \<and> ob_returned (heap s ! i) = None \<and>
     length (mq_q (ob_messages (heap s ! i))) \<le> n \<and>
     (part \<longrightarrow> (\<forall>m \<in> set (mq_q (ob_messages (heap s ! i))). rq_type m \<in> {Commit, Abort})) \<and>
     wf_store (store s)"

text \<open>The object and the logs after a step of the thread, which is at \<open>p\<close> then and has taken messages at most.\<close>

definition moved :: "handler_object \<Rightarrow> nat \<Rightarrow> proc \<Rightarrow> handler_object \<times> log_store \<times> 'a \<times> 'b \<Rightarrow> bool" where
  "moved ob n p r \<longleftrightarrow>
     (case r of (ob', ls', out, commits) \<Rightarrow>
        same_object ob ob' \<and> ob_proc ob' = p \<and> ob_returned ob' = None \<and>
        set (mq_q (ob_messages ob')) \<subseteq> set (mq_q (ob_messages ob)) \<and>
        length (mq_q (ob_messages ob')) \<le> n \<and> wf_store ls')"

lemma at_proc_choice:
  assumes at: "at_proc i cfg part n p s"
    and then_decides: "\<And>st s'. at_proc i cfg part n' (f st) s' \<Longrightarrow> decides_alone answers i s'"
    and "ready answers p" and "advance st (heap s ! i) (store s) \<noteq> None"
    and moved: "\<And>st r. advance st (heap s ! i) (store s) = Some r \<Longrightarrow> moved (heap s ! i) n' (f st) r"
  shows "decides_alone answers i s"
proof -
  let ?s = "\<lambda>(ob', ls', out, commits). s\<lparr>heap := (heap s)[i := ob'], store := ls', net := net s + out,
      done_commits := done_commits s @ commits\<rparr>"
  have own: "own_step answers i st s = map_option ?s (advance st (heap s ! i) (store s))" for st
    using at assms(3) by (auto simp: own_step_def at_proc_def split: option.splits)
  have decides: "decides_alone answers i (?s r)" if r: "advance st (heap s ! i) (store s) = Some r" for st r
  proof -
    have "at_proc i cfg part n' (f st) (?s r)"
      using at moved [OF r] by (auto simp: at_proc_def moved_def same_object_def)
    then show ?thesis by (rule then_decides)
  qed
  obtain r where "own_step answers i st s = Some (?s r)" using assms(4) own by auto
  then show ?thesis
    by (rule goes_on) (use own decides in \<open>auto simp only: map_option_eq_Some\<close>)
qed

lemmas at_proc_advance = at_proc_choice [where f = "\<lambda>_. p'" for p']

lemma once_answer:
  assumes "no_slash h" and "valid_decision d" and "wf_store ls"
  obtains r ls' where "dbms_call (LOG_ONCE d t h TRANSACTION) ls = (Inr r, ls')" and "valid_decision r"
    and "wf_store ls'"
proof -
  have h: "CHR ''/'' \<notin> set h" using assms(1) by (simp add: no_slash_def)
  let ?D = "decisions ls"
  let ?r = "if ?D (t, h) = ''WORKING'' then d else ?D (t, h)"
  obtain ls' where "dbms_call (LOG_ONCE d t h TRANSACTION) ls = (Inr ?r, ls')"
    and ls': "decisions ls' = (if ?D (t, h) = ''WORKING'' then ?D((t, h) := d) else ?D)"
    using dbms_call_once [OF h assms(2), of t ls] by blast
  moreover have "valid_decision ?r"
    using wf_store_cases [OF assms(3), of "(t, h)"] assms(2) by (auto simp: valid_decision_def)
  moreover have "wf_store ls'"
    using assms(2,3) ls' by (auto simp: wf_store_def range_entry_string valid_decision_def)
  ultimately show thesis using that by blast
qed

lemma write_answer:
  assumes "no_slash h" and "valid_decision d" and "wf_store ls"
  obtains ls' where "dbms_call (LOG_WRITE d t h TRANSACTION) ls = (Inr d, ls')" and "wf_store ls'"
  using dbms_call_write [of h d t ls] assms
  by (auto simp: no_slash_def wf_store_def range_entry_string valid_decision_def)

lemmas step_facts = at_proc_def advance_def same_object_def moved_def ready_def list_all_iff

lemma ends_alone:
  "ends cfg part H n p \<Longrightarrow> \<forall>h \<in> H. answers h \<Longrightarrow> at_proc i cfg part n p s \<Longrightarrow> decides_alone answers i s"
proof (induction arbitrary: s rule: ends.induct)
  case (ends_return d H n)
  let ?ob = "(heap s ! i)\<lparr>ob_returned := Some d\<rparr>"
  let ?s = "s\<lparr>heap := (heap s)[i := ?ob], store := store s, net := net s + {#}, done_commits := done_commits s @ []\<rparr>"
  have own: "own_step answers i st s = Some ?s" for st
    using ends_return.prems(2) by (simp add: own_step_def ready_def at_proc_def advance_def)
  have "ob_returned (heap ?s ! i) \<in> {Some ''COMMIT'', Some ''ABORT''}"
    using ends_return.hyps ends_return.prems(2) by (auto simp: at_proc_def)
  then have "decides_alone answers i ?s" by (rule has_decided)
  with own show ?case by (metis goes_on option.inject)
next
  case (ends_wait H' H n K timeout)
  have H': "\<forall>h \<in> H'. answers h" using ends_wait.prems(1) ends_wait.hyps(1) by auto
  note at = ends_wait.prems(2)
  show ?case
  proof (cases "mq_q (ob_messages (heap s ! i))")
    case Nil
    show ?thesis
      by (rule at_proc_advance [OF at ends_wait.IH(1) [OF H'], where st = Expire])
        (use Nil at in \<open>auto simp: step_facts split: if_splits\<close>)
  next
    case (Cons m ms)
    with at have "0 < n" "part \<longrightarrow> rq_type m \<in> {Commit, Abort}" by (auto simp: at_proc_def)
    note then_m = ends_wait.IH(2) [OF this H']
    show ?thesis
      by (rule at_proc_advance [OF at then_m, where st = Proceed]) (use Cons at in \<open>auto simp: step_facts\<close>)
  qed
next
  case (ends_once h d H n K)
  note at = ends_once.prems(2)
  then have "wf_store (store s)" by (simp add: at_proc_def)
  with ends_once.hyps(1,2) obtain r ls' where
    db: "dbms_call (LOG_ONCE d (txid cfg) h TRANSACTION) (store s) = (Inr r, ls')" "valid_decision r" "wf_store ls'"
    by (rule once_answer)
  show ?case
    by (rule at_proc_advance [OF at ends_once.IH [OF db(2) ends_once.prems(1)], where st = Proceed])
      (use db at in \<open>auto simp: step_facts\<close>)
next
  case (ends_write h d H n K)
  note at = ends_write.prems(2)
  then have "wf_store (store s)" by (simp add: at_proc_def)
  with ends_write.hyps(1,2) obtain ls' where
    db: "dbms_call (LOG_WRITE d (txid cfg) h TRANSACTION) (store s) = (Inr d, ls')" "wf_store ls'"
    by (rule write_answer)
  show ?case
    by (rule at_proc_advance [OF at ends_write.IH [OF ends_write.prems(1)], where st = Proceed])
      (use db at in \<open>auto simp: step_facts\<close>)
next
  case (ends_vote H n K str)
  show ?case
    by (rule at_proc_choice [OF ends_vote.prems(2) ends_vote.IH [OF ends_vote.prems(1)], where st = Proceed])
      (use ends_vote.prems(2) in \<open>auto simp: step_facts\<close>)
next
  case (ends_record H n p str)
  show ?case
    by (rule at_proc_advance [OF ends_record.prems(2) ends_record.IH [OF ends_record.prems(1)], where st = Proceed])
      (use ends_record.prems(2) in \<open>auto simp: step_facts\<close>)
next
  case (ends_start H n p)
  show ?case
    by (rule at_proc_advance [OF ends_start.prems(2) ends_start.IH [OF ends_start.prems(1)], where st = Proceed])
      (use ends_start.prems(2) in \<open>auto simp: step_facts\<close>)
next
  case (ends_connect h H n p)
  show ?case
    by (rule at_proc_advance [OF ends_connect.prems(2) ends_connect.IH [OF ends_connect.prems(1)], where st = Proceed])
      (use ends_connect in \<open>auto simp: step_facts\<close>)
next
  case (ends_send req h H n p)
  show ?case
    by (rule at_proc_advance [OF ends_send.prems(2) ends_send.IH [OF ends_send.prems(1)], where st = Proceed])
      (use ends_send.prems(2) in \<open>auto simp: step_facts\<close>)
next
  case (ends_replies hs H n p)
  show ?case
    by (rule at_proc_advance [OF ends_replies.prems(2) ends_replies.IH [OF ends_replies.prems(1)], where st = Proceed])
      (use ends_replies in \<open>auto simp: step_facts\<close>)
next
  case (ends_commit H n p str)
  show ?case
    by (rule at_proc_advance [OF ends_commit.prems(2) ends_commit.IH [OF ends_commit.prems(1)], where st = Proceed])
      (use ends_commit.prems(2) in \<open>auto simp: step_facts\<close>)
qed

section \<open>What every reachable state has\<close>

text \<open>The other hosts that a handler connects to.\<close>

definition peers :: "handler_object \<Rightarrow> host set" where
  "peers ob =
     (if ob_class ob = ParticipantNode then {coordinator (ob_config ob)} else set (participants (ob_config ob)))"

lemma peers_update [simp]:
  "peers (ob\<lparr>ob_proc := p\<rparr>) = peers ob" "peers (ob\<lparr>ob_messages := q\<rparr>) = peers ob"
  "peers (ob\<lparr>ob_returned := d\<rparr>) = peers ob" "peers (ob\<lparr>ob_removed := b\<rparr>) = peers ob"
  by (simp_all add: peers_def)

inductive_simps ends_simps:
  "ends cfg part H n (Return d)" "ends cfg part H n (Record s p)" "ends cfg part H n (SetTimeoutStart p)"
  "ends cfg part H n (WaitForNextMessage timeout K)" "ends cfg part H n (Connect h p)"
  "ends cfg part H n (Send h req p)" "ends cfg part H n (AwaitReplies hs p)" "ends cfg part H n (VoteReq s K)"
  "ends cfg part H n (WorkerCommit s p)" "ends cfg part H n (Detach d p)"

definition progress_object :: "handler_object \<Rightarrow> bool" where
  "progress_object ob \<longleftrightarrow>
     (\<forall>n. ends (ob_config ob) (ob_class ob = ParticipantNode) (peers ob) n (ob_proc ob)) \<and>
     ob_returned ob \<in> {None, Some ''COMMIT'', Some ''ABORT''} \<and>
     (ob_class ob = ParticipantNode \<longrightarrow> ob_host ob \<in> set (participants (ob_config ob)) \<and>
        (\<forall>m \<in> set (mq_q (ob_messages ob)). rq_type m \<in> {Commit, Abort}))"

lemma ends_take_message:
  assumes "\<forall>n. ends cfg part H n (WaitForNextMessage timeout K)" and "part \<longrightarrow> rq_type m \<in> {Commit, Abort}"
  shows "ends cfg part H n (K (Some m))"
proof -
  have "ends cfg part (if part then {} else H) n (K (Some m))"
    using assms(1) [THEN spec, of "Suc n"] assms(2) by (simp add: ends_simps)
  then show ?thesis by (rule ends_more_hosts) simp
qed

lemma ends_time_out:
  "ends cfg part H n (WaitForNextMessage timeout K) \<Longrightarrow> ends cfg part H n (K None)"
  by (auto simp: ends_simps intro: ends_more_hosts split: if_splits)

lemma ends_waiting_participant:
  "ends cfg True H n (WaitForNextMessage timeout K) \<Longrightarrow> ends cfg True {} n (WaitForNextMessage timeout K)"
  by (simp add: ends_simps)

lemma ends_answer:
  assumes "\<forall>n. ends cfg part H n (Dbms op K)" and "wf_store ls" and "dbms_call op ls = (Inr r, ls')"
  shows "(\<forall>n. ends cfg part H n (K r)) \<and> wf_store ls'"
proof -
  have "ends cfg part H 0 (Dbms op K)" using assms(1) by simp
  then consider (once) h d where "op = LOG_ONCE d (txid cfg) h TRANSACTION" "no_slash h" "valid_decision d"
    | (overwrite) h d where "op = LOG_WRITE d (txid cfg) h TRANSACTION" "no_slash h" "valid_decision d"
    by (auto elim: endsE)
  then show ?thesis
  proof cases
    case once
    from once(2,3) assms(2) have "valid_decision r \<and> wf_store ls'"
      by (rule once_answer [of h d ls "txid cfg"]) (use assms(3) once(1) in simp)
    then show ?thesis using assms(1) once(1) by (fastforce elim: endsE)
  next
    case overwrite
    from overwrite(2,3) assms(2) have "r = d \<and> wf_store ls'"
      by (rule write_answer [of h d ls "txid cfg"]) (use assms(3) overwrite(1) in simp)
    then show ?thesis using assms(1) overwrite(1) by (fastforce elim: endsE)
  qed
qed

lemma thread_step_progress:
  assumes "thread_step ob ls ob' ls' out commits" and "progress_object ob" and "wf_store ls"
  shows "progress_object ob' \<and> wf_store ls'"
proof -
  have same: "peers ob' = peers ob" "ob_config ob' = ob_config ob" "ob_class ob' = ob_class ob"
      "ob_host ob' = ob_host ob"
    using assms(1) by (auto elim!: thread_stepE simp: peers_def)
  have ends: "\<forall>n. ends (ob_config ob) (ob_class ob = ParticipantNode) (peers ob) n (ob_proc ob)"
    and part: "ob_class ob = ParticipantNode \<longrightarrow> (\<forall>m \<in> set (mq_q (ob_messages ob)). rq_type m \<in> {Commit, Abort})"
    using assms(2) by (simp_all add: progress_object_def)
  show ?thesis
    using assms(1)
  proof cases
    case (take_message timeout K m q)
    have "ends (ob_config ob) (ob_class ob = ParticipantNode) (peers ob) n (K (Some m))" for n
      by (rule ends_take_message [of _ _ _ timeout])
        (use ends part take_message in \<open>auto simp: popFront_def split: list.splits\<close>)
    with take_message assms(2,3) same show ?thesis
      by (auto simp: progress_object_def popFront_def split: list.splits)
  next
    case (time_out timeout K)
    have "ends (ob_config ob) (ob_class ob = ParticipantNode) (peers ob) n (K None)" for n
      by (rule ends_time_out [of _ _ _ _ timeout]) (use ends time_out in simp)
    with time_out assms(2,3) same show ?thesis by (auto simp: progress_object_def)
  next
    case (dbms_operation op K r)
    from ends_answer [of _ _ _ op K, OF _ assms(3) dbms_operation(5)] ends dbms_operation assms(2) same show ?thesis
      by (auto simp: progress_object_def)
  qed (use assms(2,3) same in \<open>auto simp: progress_object_def ends_simps\<close>)
qed

text \<open>The coordinators of a state take no part in their own transactions.\<close>

definition separate :: "cornus \<Rightarrow> bool" where
  "separate s \<longleftrightarrow>
     (\<forall>ob \<in> set (heap s). ob_class ob = CoordinatorNode \<longrightarrow>
        coordinator (ob_config ob) \<notin> set (participants (ob_config ob)))"

definition vote_for_coordinator :: "handler_object list \<Rightarrow> host \<times> tcp_request \<Rightarrow> bool" where
  "vote_for_coordinator hp x \<longleftrightarrow> (endpoint (snd x) = ''VOTEYES'' \<longrightarrow>
     (\<exists>cfg. (CoordinatorNode, cfg) \<in> set (map (\<lambda>ob. (ob_class ob, ob_config ob)) hp) \<and>
        getTxId (snd x) = Inr (txid cfg) \<and> fst x = coordinator cfg))"

definition own_handlers :: "(host \<rightharpoonup> node) \<Rightarrow> handler_object list \<Rightarrow> bool" where
  "own_handlers nds hp \<longleftrightarrow>
     (\<forall>h nd t i. nds h = Some nd \<longrightarrow> nd_handlers nd t = Some i \<longrightarrow> i < length hp \<and> ob_host (hp ! i) = h)"

definition progressing :: "cornus \<Rightarrow> bool" where
  "progressing s \<longleftrightarrow>
     (\<forall>ob \<in> set (heap s). progress_object ob) \<and> own_handlers (nodes s) (heap s) \<and>
     (\<forall>x \<in># net s. vote_for_coordinator (heap s) x) \<and> wf_store (store s)"

lemma vote_for_coordinator_later:
  "vote_for_coordinator hp x \<Longrightarrow> map sig hp' = map sig hp @ sg \<Longrightarrow> vote_for_coordinator hp' x"
proof -
  assume x: "vote_for_coordinator hp x" and hp: "map sig hp' = map sig hp @ sg"
  have eq: "map (\<lambda>ob. (ob_class ob, ob_config ob)) hp = map (\<lambda>(c, h, cfg). (c, cfg)) (map sig hp)" for hp
    by (simp add: sig_def)
  show ?thesis using x unfolding vote_for_coordinator_def eq hp by auto
qed

lemma separate_sigs:
  "separate s \<longleftrightarrow> (\<forall>(c, h, cfg) \<in> set (sigs s). c = CoordinatorNode \<longrightarrow> coordinator cfg \<notin> set (participants cfg))"
  by (auto simp: separate_def sig_def)

lemma step_separate: "cornus_step PAPER_VERSION s s' \<Longrightarrow> separate s' \<Longrightarrow> separate s"
  by (erule step_signatures) (auto simp: separate_sigs)

text \<open>A request that a thread sends.\<close>

lemma sent_vote:
  assumes "safe s" and i: "i < length (heap s)" and "progress_object (heap s ! i)"
    and "thread_step (heap s ! i) (store s) ob' ls' out commits" and "x \<in># out"
  shows "vote_for_coordinator (heap s) x"
proof -
  let ?ob = "heap s ! i"
  obtain h req p where p: "ob_proc ?ob = Send h req p" and out: "out = transmit h req"
    using assms(4,5) by cases auto
  obtain os V where os: "map fst os = heap s" and inv: "paper_invariant (nodes s) os (net s) (store s) V"
    by (rule safeE [OF assms(1)])
  have "i < length os" using i os by (metis length_map)
  moreover obtain k where "os ! i = (?ob, k)" using os calculation by (metis nth_map prod.collapse)
  ultimately have good: "good_object (?ob, k) V os (net s) (store s)"
    using inv by (auto simp: paper_invariant_def dest: nth_mem)
  then have sound: "sound_request (ob_config ?ob) req"
    using p by (auto simp: good_object_def elim: disciplinedE)
  then have x: "x = (h, req)"
    using out assms(5) by (auto simp: transmit_def sound_request_def split: option.splits sum.splits)
  have "is_coordinated (ob_config ?ob) os" using good by (simp add: good_object_def)
  then have "(CoordinatorNode, ob_config ?ob) \<in> set (map (\<lambda>ob. (ob_class ob, ob_config ob)) (heap s))"
    unfolding os [symmetric] map_map o_def by (simp only: is_coordinated_map)
  moreover have "endpoint req = ''VOTEYES'' \<longrightarrow> h = coordinator (ob_config ?ob)"
    using assms(3) p by (auto simp: progress_object_def ends_simps)
  moreover have "getTxId req = Inr (ob_txid ?ob)" using sound by (simp add: sound_request_def)
  ultimately show ?thesis
    unfolding x vote_for_coordinator_def fst_conv snd_conv by blast
qed

lemma no_vote_for_participant:
  assumes "safe s" and "separate s" and prog: "progressing s" and nd: "nodes s h = Some nd"
    and i: "nd_handlers nd t = Some i" and x: "(h, req) \<in># net s" "endpoint req = ''VOTEYES''" "getTxId req = Inr t"
  shows "ob_class (heap s ! i) \<noteq> ParticipantNode"
proof
  assume part: "ob_class (heap s ! i) = ParticipantNode"
  obtain os V where os: "map fst os = heap s" and inv: "paper_invariant (nodes s) os (net s) (store s) V"
    by (rule safeE [OF assms(1)])
  have i_os: "i < length os" "ob_txid (fst (os ! i)) = t"
    using invariant_good_nodes [OF inv] nd i by (auto simp: good_nodes_def)
  then have ob: "fst (os ! i) = heap s ! i" using os by (metis nth_map)
  have "good_object (os ! i) V os (net s) (store s)"
    using inv i_os(1) by (simp add: paper_invariant_def)
  then have own: "is_coordinated (ob_config (heap s ! i)) os"
    by (simp add: good_object_def ob [symmetric] case_prod_beta)
  have "vote_for_coordinator (heap s) (h, req)" using prog x(1) by (simp add: progressing_def)
  then obtain cfg where cfg: "(CoordinatorNode, cfg) \<in> set (map (\<lambda>ob. (ob_class ob, ob_config ob)) (heap s))"
      "txid cfg = t" "h = coordinator cfg"
    using x(2,3) unfolding vote_for_coordinator_def by auto
  have "is_coordinated cfg os"
    using cfg(1) unfolding os [symmetric] map_map o_def by (simp only: is_coordinated_map)
  then have "cfg = ob_config (heap s ! i)"
    using same_coordinated [OF inv _ own] cfg(2) i_os(2) ob by simp
  moreover have "i < length (heap s)" "ob_host (heap s ! i) = h"
    using prog nd i by (auto simp: progressing_def own_handlers_def)
  moreover from this have "h \<in> set (participants (ob_config (heap s ! i)))"
    using prog part by (auto simp: progressing_def progress_object_def)
  ultimately show False using cfg(1,3) assms(2) by (auto simp: separate_def)
qed

text \<open>The objects of new handlers.\<close>

lemma new_coordinator_progress:
  assumes "onClientRequest PAPER_VERSION cfg nd hp = Inr (nd', hp')" and "hp' = hp @ [ob]"
    and "orderly_config (ob_config ob)"
  shows "progress_object ob"
proof -
  obtain ob' where ob': "hp' = hp @ [ob']" "ob_class ob' = CoordinatorNode" "ob_returned ob' = None"
    "ob_proc ob' = PaperCoordinator_handleTransaction
      (PaperCoordinator (ob_config ob') (hc_id (nd_hostConfig nd)) (nd_hostConfig nd))"
    using client_request_effect [OF assms(1)] by metis
  then have "ob' = ob" using assms(2) by simp
  with ob' assms(3) ends_coordinator [of "PaperCoordinator (ob_config ob) (hc_id (nd_hostConfig nd)) (nd_hostConfig nd)"]
  show ?thesis by (simp add: progress_object_def peers_def PaperCoordinator_def Sender_def)
qed

lemma new_participant_progress:
  assumes "onNewRequest PAPER_VERSION tcp ParticipantNode req ty Handlers nd hp = Inr (nd', hp')"
    and "getTxId req = Inr (txid cfg)" and "getParam ''config'' req = Inr (config_to_string cfg)"
    and "orderly_config cfg" and "plain_host (hc_id (nd_hostConfig nd))"
    and "hc_id (nd_hostConfig nd) \<in> set (participants cfg)"
  obtains ob where "hp' = hp @ [ob]" and "progress_object ob" and "ob_host ob = hc_id (nd_hostConfig nd)"
    and "nd_handlers nd' = (nd_handlers nd)(txid cfg \<mapsto> length hp)"
proof -
  have cfg: "TransactionConfig (config_to_string cfg) (txid cfg) = cfg"
    by (rule orderly_reparse [OF assms(4)])
  from assms(1-3) have "createNode PAPER_VERSION tcp ParticipantNode (config_to_string cfg) (txid cfg) Handlers nd hp
      = Inr (nd', hp')" by (simp add: onNewRequest_def)
  then obtain p where p: "PaperParticipant tcp cfg (hc_id (nd_hostConfig nd)) (nd_hostConfig nd) = Inr p"
    and nd': "nd' = set_map Handlers ((the_map Handlers nd)(txid cfg \<mapsto> length hp)) nd"
    and hp': "hp' = hp @ [\<lparr>ob_host = hc_id (nd_hostConfig nd), ob_class = ParticipantNode, ob_map = Handlers,
        ob_config = cfg, ob_messages = \<lparr>mq_q = [], mq_timeoutStart = 0\<rparr>,
        ob_proc = PaperParticipant_handleTransaction p, ob_returned = None, ob_removed = False\<rparr>]"
    by (elim createNode_InrE) (simp add: cfg)
  have "config p = cfg" "hostname p = hc_id (nd_hostConfig nd)" "clients p = [coordinator cfg]"
    using p by (auto simp: PaperParticipant_def Sender_def bind_result_Inr_iff)
  with ends_participant [of p] assms(4-6) plain_host_no_slash show thesis
    by (intro that [OF hp']) (simp_all add: progress_object_def peers_def nd')
qed

lemma progressingI:
  assumes "\<And>ob. ob \<in> set (heap s) \<Longrightarrow> progress_object ob" and "own_handlers (nodes s) (heap s)"
    and "\<And>x. x \<in># net s \<Longrightarrow> vote_for_coordinator (heap s) x" and "wf_store (store s)"
  shows "progressing s"
  using assms by (simp add: progressing_def)

lemma own_handlers_new:
  assumes "own_handlers nds hp" and "nds h = Some nd" and "ob_host ob = h"
    and "nd_handlers nd' = (nd_handlers nd)(t \<mapsto> length hp)"
  shows "own_handlers (nds(h \<mapsto> nd')) (hp @ [ob])"
  unfolding own_handlers_def
proof (intro allI impI)
  fix h' nd1 t' i
  assume "(nds(h \<mapsto> nd')) h' = Some nd1" and "nd_handlers nd1 t' = Some i"
  then have "h' = h \<and> i = length hp \<or> (\<exists>nd2. nds h' = Some nd2 \<and> nd_handlers nd2 t' = Some i)"
    using assms(2,4) by (cases "h' = h"; cases "t' = t") simp_all
  moreover have "i < length hp \<and> ob_host (hp ! i) = h'" if "nds h' = Some nd2" "nd_handlers nd2 t' = Some i" for nd2
    using assms(1) that by (simp add: own_handlers_def)
  ultimately show "i < length (hp @ [ob]) \<and> ob_host ((hp @ [ob]) ! i) = h'"
    using assms(3) by (auto simp: nth_append)
qed

lemma own_handlers_fewer:
  assumes "own_handlers nds hp" and "map ob_host hp' = map ob_host hp"
    and "\<And>h nd'. nds' h = Some nd' \<Longrightarrow> \<exists>nd. nds h = Some nd \<and>
      (\<forall>t i. nd_handlers nd' t = Some i \<longrightarrow> nd_handlers nd t = Some i)"
  shows "own_handlers nds' hp'"
  unfolding own_handlers_def
proof (intro allI impI)
  fix h nd' t i
  assume "nds' h = Some nd'" and "nd_handlers nd' t = Some i"
  with assms(3) obtain nd where "nds h = Some nd" "nd_handlers nd t = Some i" by blast
  then have "i < length hp" "ob_host (hp ! i) = h" using assms(1) by (auto simp: own_handlers_def)
  then show "i < length hp' \<and> ob_host (hp' ! i) = h"
    using assms(2) by (metis length_map nth_map)
qed

lemma add_object_progress:
  assumes prog: "progressing s" and nd: "nodes s h = Some nd" and ob: "progress_object ob" "ob_host ob = h"
    and nd': "nd_handlers nd' = (nd_handlers nd)(t \<mapsto> length (heap s))"
    and s': "nodes s' = (nodes s)(h \<mapsto> nd')" "heap s' = heap s @ [ob]" "net s' \<subseteq># net s" "store s' = store s"
  shows "progressing s'"
proof (rule progressingI)
  have "own_handlers (nodes s) (heap s)" using prog by (simp add: progressing_def)
  from own_handlers_new [where nds = "nodes s" and hp = "heap s", OF this nd ob(2) nd']
  show "own_handlers (nodes s') (heap s')" unfolding s' .
  show "vote_for_coordinator (heap s') x" if "x \<in># net s'" for x
    by (rule vote_for_coordinator_later [of "heap s"])
      (use prog that s' in \<open>auto simp: progressing_def dest: mset_subset_eqD\<close>)
qed (use prog ob s' in \<open>auto simp: progressing_def\<close>)

lemma change_object_progress:
  assumes prog: "progressing s" and ob': "progress_object ob'" "sig ob' = sig (heap s ! i)"
    and s': "heap s' = (heap s)[i := ob']" "wf_store (store s')"
    and nds: "\<And>h nd'. nodes s' h = Some nd' \<Longrightarrow> \<exists>nd. nodes s h = Some nd \<and>
      (\<forall>t i. nd_handlers nd' t = Some i \<longrightarrow> nd_handlers nd t = Some i)"
    and net: "\<And>x. x \<in># net s' \<Longrightarrow> vote_for_coordinator (heap s) x"
  shows "progressing s'"
proof (rule progressingI)
  have sigs: "sigs s' = sigs s" unfolding s' by (rule sigs_update [OF ob'(2)])
  show "progress_object ob" if "ob \<in> set (heap s')" for ob
    using that prog ob'(1) set_update_subset_insert [of "heap s" i ob'] by (auto simp: s' progressing_def)
  have "map ob_host hp = map (\<lambda>(c, h, cfg). h) (map sig hp)" for hp by (simp add: sig_def)
  then have hosts: "map ob_host (heap s') = map ob_host (heap s)" by (simp only: sigs)
  have own: "own_handlers (nodes s) (heap s)" using prog unfolding progressing_def by blast
  show "own_handlers (nodes s') (heap s')" by (rule own_handlers_fewer [OF own hosts nds])
  show "vote_for_coordinator (heap s') x" if "x \<in># net s'" for x
    using net [OF that] by (rule vote_for_coordinator_later [where sg = "[]"]) (simp add: sigs)
qed (rule s'(2))

lemma progress_facts:
  assumes "progressing s"
  shows "ob \<in> set (heap s) \<Longrightarrow> progress_object ob" and "wf_store (store s)"
    and "x \<in># net s \<Longrightarrow> vote_for_coordinator (heap s) x"
    and "nodes s h = Some nd \<Longrightarrow> nd_handlers nd t = Some i \<Longrightarrow> i < length (heap s)"
  using assms by (simp_all add: progressing_def own_handlers_def)

lemma arrival_progress:
  assumes s: "safe s" "separate s" and prog: "progressing s" and nd: "nodes s h = Some nd"
    and host: "hc_id (nd_hostConfig nd) = h" "plain_host h"
    and net: "net s = add_mset (h, req) rest"
    and d: "dispatch PAPER_VERSION tcp req nd (heap s) = Inr (nd', hp')"
    and s': "nodes s' = (nodes s)(h \<mapsto> nd')" "heap s' = hp'" "net s' = rest" "store s' = store s"
  shows "progressing s'"
proof -
  obtain os V where inv: "paper_invariant (nodes s) os (add_mset (h, req) rest) (store s) V"
    using s(1) net by (auto elim: safeE)
  then obtain cfg where cfg: "is_coordinated cfg os" "getTxId req = Inr (txid cfg)"
      "endpoint req \<in> {''VOTEREQ'', ''VOTEYES'', ''COMMIT'', ''ABORT''}"
      "endpoint req = ''VOTEREQ'' \<longrightarrow> h \<in> set (participants cfg) \<and> getParam ''config'' req = Inr (config_to_string cfg)"
    using invariant_message_sound [OF inv] unfolding good_message_def fst_conv snd_conv by blast
  show ?thesis
  proof (cases "endpoint req = ''VOTEREQ''")
    case True
    then have new: "onNewRequest PAPER_VERSION tcp ParticipantNode req voteReq Handlers nd (heap s) = Inr (nd', hp')"
      using d by (simp only: dispatch_at)
    have "orderly_config cfg" by (rule good_configs_orderly [OF inv cfg(1)])
    with new cfg(2,4) True host obtain ob where ob: "hp' = heap s @ [ob]" "progress_object ob" "ob_host ob = h"
        "nd_handlers nd' = (nd_handlers nd)(txid cfg \<mapsto> length (heap s))"
      by (elim new_participant_progress [of tcp req voteReq nd "heap s" nd' hp' cfg]) simp_all
    then show ?thesis
      by (intro add_object_progress [OF prog nd ob(2-4)]) (simp_all add: s' net)
  next
    case False
    then obtain ty where old: "onOldRequest req ty Handlers nd (heap s) = Inr (nd', hp')"
      and ty: "ty = voteYes \<and> endpoint req = ''VOTEYES'' \<or> ty = Commit \<or> ty = Abort"
      using d cfg(3) by (auto simp only: insert_iff empty_iff dispatch_at simp_thms)
    let ?m = "\<lparr>rq_type = ty, rq_txid = txid cfg\<rparr>"
    have nd': "nd' = nd" and hp': "hp' = sendMessage (txid cfg) ?m Handlers nd (heap s)"
      using old cfg(2) by (auto simp: onOldRequest_def)
    have nodes': "nodes s' = nodes s" using s'(1) nd nd' by (simp add: fun_upd_idem)
    have sub: "vote_for_coordinator (heap s) x" if "x \<in># net s'" for x
      using progress_facts(3) [OF prog, of x] that s'(3) net by simp
    have same: "progressing s'" if "heap s' = heap s"
      using prog that nodes' s'(4) sub by (simp add: progressing_def)
    show ?thesis
    proof (cases "nd_handlers nd (txid cfg)")
      case None
      then show ?thesis using same s'(2) hp' by (simp add: sendMessage_def)
    next
      case (Some i)
      let ?ob = "(heap s ! i)\<lparr>ob_messages := push ?m (ob_messages (heap s ! i))\<rparr>"
      have "i < length (heap s)" by (rule progress_facts(4) [OF prog nd Some])
      then have "progress_object (heap s ! i)" by (intro progress_facts(1) [OF prog] nth_mem)
      moreover have "ty = voteYes \<longrightarrow> ob_class (heap s ! i) \<noteq> ParticipantNode"
        using no_vote_for_participant [OF s prog nd Some, of req] net ty cfg(2) by auto
      ultimately have "progress_object ?ob" using ty by (auto simp: progress_object_def push_def)
      then show ?thesis
        by (rule change_object_progress [OF prog])
          (use Some hp' s'(2-4) nodes' sub progress_facts(2) [OF prog] in \<open>simp_all add: sendMessage_def sig_def\<close>)
    qed
  qed
qed

lemma step_progress:
  assumes step: "cornus_step PAPER_VERSION s s'" and good: "good_hosts hosts"
    and counted: "counted hosts (nodes s) (sigs s)" and s: "safe s" "separate s" "orderly s'"
    and prog: "progressing s"
  shows "progressing s'"
  using step
proof (cases rule: cornus_step.cases)
  case (client_request h nd cfg nd' heap')
  have h: "hc_id (nd_hostConfig nd) = h" using counted good client_request(2) by (auto simp: counted_def good_hosts_def)
  obtain ob where ob: "heap' = heap s @ [ob]" "ob_class ob = CoordinatorNode" "ob_host ob = h"
      "nd_handlers nd' = (nd_handlers nd)(ob_txid ob \<mapsto> length (heap s))"
    using client_request_effect [OF client_request(3)] h by metis
  then have "orderly_config (ob_config ob)" using s(3) client_request(1) by (simp add: orderly_def)
  then have "progress_object ob" by (rule new_coordinator_progress [OF client_request(3) ob(1)])
  from add_object_progress [OF prog client_request(2) this ob(3,4)] show ?thesis
    by (simp add: client_request(1) ob(1))
next
  case (arrival h nd req rest tcp nd' heap')
  have "hc_id (nd_hostConfig nd) = h" "plain_host h"
    using counted good arrival(2) by (auto simp: counted_def good_hosts_def)
  from arrival_progress [OF s(1,2) prog arrival(2) this arrival(3,4)] show ?thesis by (simp add: arrival(1))
next
  case (loss h req rest)
  with prog show ?thesis by (simp add: progressing_def)
next
  case (thread i ob' ls' out commits)
  have "progress_object (heap s ! i)" using thread(2) by (intro progress_facts(1) [OF prog] nth_mem)
  from thread_step_progress [OF thread(4) this progress_facts(2) [OF prog]]
    sent_vote [OF s(1) thread(2) this thread(4)] show ?thesis
    by (intro change_object_progress [OF prog])
      (auto simp: thread(1) thread_step_keeps [OF thread(4)] progress_facts(3) [OF prog])
next
  case (unregister i nd)
  have "progress_object (heap s ! i)" using unregister(2) by (intro progress_facts(1) [OF prog] nth_mem)
  then show ?thesis
    by (intro change_object_progress [OF prog, of "(heap s ! i)\<lparr>ob_removed := True\<rparr>" i])
      (use unregister(3) in \<open>auto simp: unregister(1) progress_object_def sig_def progress_facts [OF prog]
        dest: removeFromMap_keeps(4) split: if_splits\<close>)
next
  case (crash h)
  have "own_handlers (nodes s') (heap s')"
    using prog by (auto simp: crash progressing_def own_handlers_def split: if_splits)
  with prog show ?thesis by (simp add: crash progressing_def)
qed

lemma reach_progressing:
  assumes "reach PAPER_VERSION hosts s" and good: "good_hosts hosts"
  shows "orderly s \<longrightarrow> separate s \<longrightarrow> progressing s"
  using assms(1)
proof induction
  case reach_start
  show ?case by (auto simp: progressing_def start_def own_handlers_def start_node_def wf_store_empty)
next
  case (reach_step s s')
  show ?case
  proof (intro impI)
    assume s': "orderly s'" "separate s'"
    have s: "orderly s" "separate s"
      using step_orderly step_separate reach_step.hyps(2) s' by blast+
    with reach_step.IH have "progressing s" by simp
    with s s' show "progressing s'"
      using step_progress [OF reach_step.hyps(2) good] reach_safe [OF reach_step.hyps(1) good] by blast
  qed
qed

text \<open>
  C4: the paper version does not block when nodes crash. The configurations are orderly, the hosts of the
  installation good and no coordinator is among the participants of its transaction. Then in every
  reachable state, whatever was lost and whichever nodes have crashed, a handler whose own node is alive
  comes to a decision by its own steps alone, and no choice of them (the expiry of its waits, the vote of
  its worker) keeps it from that, as long as its peers answer: the participants of the transaction for
  the coordinator, the coordinator for a participant. \<open>answers\<close> excludes what blocks \<open>sendRequest\<close> for
  ever, a host that takes a request and neither replies nor closes the connection, and an error of
  \<open>recv\<close>; a host that is down and refuses the connection answers in this sense. A participant that waits for the decision, the state in
  which two-phase commit blocks, decides alone whatever has become of its peers. The DBMS answers always.
\<close>

theorem paper_nonblocking:
  assumes "reach PAPER_VERSION hosts s" and "good_hosts hosts" and "orderly s" and "separate s"
    and i: "i < length (heap s)" and alive: "nodes s (ob_host (heap s ! i)) \<noteq> None"
    and peers_answer: "(\<forall>h \<in> peers (heap s ! i). answers h) \<or>
      ob_class (heap s ! i) = ParticipantNode \<and>
        (\<exists>timeout K. ob_proc (heap s ! i) = WaitForNextMessage timeout K)"
  shows "decides_alone answers i s"
proof -
  let ?ob = "heap s ! i" and ?part = "ob_class (heap s ! i) = ParticipantNode"
  let ?n = "length (mq_q (ob_messages ?ob))"
  have prog: "progressing s" using reach_progressing [OF assms(1,2)] assms(3,4) by simp
  then have ob: "progress_object ?ob" by (rule progress_facts(1) [OF _ nth_mem [OF i]])
  show ?thesis
  proof (cases "ob_returned ?ob")
    case None
    have "ends (ob_config ?ob) ?part (peers ?ob) ?n (ob_proc ?ob)" using ob by (simp add: progress_object_def)
    moreover from this have "ends (ob_config ?ob) ?part {} ?n (ob_proc ?ob)"
      if "?part" "ob_proc ?ob = WaitForNextMessage timeout K" for timeout K
      using that ends_waiting_participant by simp
    ultimately obtain H where "ends (ob_config ?ob) ?part H ?n (ob_proc ?ob)" "\<forall>h \<in> H. answers h"
      using peers_answer by blast
    then show ?thesis
      by (rule ends_alone)
        (use None ob i alive progress_facts(2) [OF prog] in \<open>auto simp: at_proc_def progress_object_def\<close>)
  next
    case (Some d)
    with ob show ?thesis by (intro has_decided) (simp add: progress_object_def)
  qed
qed

text \<open>The run of the witness leaves the coordinator at its wait for votes and the participant at its wait for the decision.\<close>

definition waiting_run :: "action list" where
  "waiting_run =
     Client_request ''a:1'' ''a:1 b:2 '' # steps 6 0 @
     Deliver ''b:2'' (run_request ''VOTEREQ'' ''a:1 b:2 '') # steps 8 1"

lemma waiting_run_works:
  "\<exists>s. acts PAPER_VERSION waiting_run (start run_hosts) = Some s \<and>
     map ob_class (heap s) = [CoordinatorNode, ParticipantNode] \<and>
     map ob_config (heap s) = [run_config, run_config] \<and> map ob_host (heap s) = [''a:1'', ''b:2''] \<and>
     map ob_returned (heap s) = [None, None] \<and> nodes s ''a:1'' \<noteq> None \<and> nodes s ''b:2'' \<noteq> None \<and>
     (\<exists>timeout K. ob_proc (heap s ! 1) = WaitForNextMessage timeout K)"
  unfolding run_start waiting_run_def
  by (simp add: run_simps LOG_ONCE_tx_def run_dbms popFront_def)

theorem paper_nonblocking_witness:
  "\<exists>s. acts PAPER_VERSION waiting_run (start run_hosts) = Some s \<and> map ob_returned (heap s) = [None, None] \<and>
     decides_alone (\<lambda>h. h = ''b:2'') 0 s \<and> decides_alone (\<lambda>h. False) 1 s"
proof -
  obtain s timeout K where s: "acts PAPER_VERSION waiting_run (start run_hosts) = Some s"
      "map ob_class (heap s) = [CoordinatorNode, ParticipantNode]" "map ob_config (heap s) = [run_config, run_config]"
      "map ob_host (heap s) = [''a:1'', ''b:2'']" "map ob_returned (heap s) = [None, None]"
      "nodes s ''a:1'' \<noteq> None" "nodes s ''b:2'' \<noteq> None"
      "ob_proc (heap s ! 1) = WaitForNextMessage timeout K"
    using waiting_run_works by (elim exE conjE)
  obtain a b where hp: "heap s = [a, b]" using s(2) by (auto simp: map_eq_Cons_conv)
  have reach: "reach PAPER_VERSION run_hosts s" by (rule acts_reach [OF s(1) reach_start])
  have ord: "orderly s" using s(2,3) hp run_orderly_config by (simp add: orderly_def coordinator_ids_def sig_def)
  have sep: "separate s" using s(3) hp by (simp add: separate_def)
  have "decides_alone (\<lambda>h. h = ''b:2'') 0 s"
    by (rule paper_nonblocking [OF reach run_good_hosts ord sep]) (use s hp in \<open>simp_all add: peers_def\<close>)
  moreover have "decides_alone (\<lambda>h. False) 1 s"
    by (rule paper_nonblocking [OF reach run_good_hosts ord sep]) (use s hp in \<open>simp_all add: peers_def\<close>)
  ultimately show ?thesis by (intro exI [of _ s] conjI s(1,5))
qed

section \<open>A coordinator among its own participants\<close>

definition self_config :: transaction_config where
  "self_config = \<lparr>coordinator = ''a:1'', participants = [''a:1''], txid = 1\<rparr>"

definition self_vote :: tcp_request where
  "self_vote = TCPRequest_of_params ''VOTEYES''
     [(''request'', ''''), (''txid'', ''1''), (''type'', ''VOTEYES''), (''sender'', ''a:1'')]"

definition self_run :: "action list" where
  "self_run =
     Client_request ''a:1'' ''a:1 a:1 '' # steps 6 0 @
     Deliver ''a:1'' (run_request ''VOTEREQ'' ''a:1 a:1 '') # steps 8 1 @
     Deliver ''a:1'' self_vote # steps 2 1"

lemma self_config_simps:
  "TransactionConfig ''a:1 a:1 '' 1 = self_config" "config_to_string self_config = ''a:1 a:1 ''"
  "coordinator self_config = ''a:1''" "participants self_config = [''a:1'']" "txid self_config = 1"
  by code_simp+

lemma self_requests:
  "config self = self_config \<Longrightarrow> hostname self = ''a:1'' \<Longrightarrow>
   group_request self type ctext = run_request type ctext"
  "config self = self_config \<Longrightarrow> hostname self = ''a:1'' \<Longrightarrow> coordinator_request self ''VOTEYES'' = self_vote"
  by (simp_all add: run_request_params self_vote_def group_request_def coordinator_request_def
      param_emplace_def run_txid_text self_config_simps)

lemma self_transmit:
  "transmit h (run_request ''VOTEREQ'' ''a:1 a:1 '') = {#(h, run_request ''VOTEREQ'' ''a:1 a:1 '')#}"
  "transmit h self_vote = {#(h, self_vote)#}"
proof -
  have w: "wire_params [(''config'', ''a:1 a:1 ''), (''command'', ''''), (''txid'', ''1''), (''type'', ''VOTEREQ''), (''sender'', ''a:1'')]"
    "wire_params [(''request'', ''''), (''txid'', ''1''), (''type'', ''VOTEYES''), (''sender'', ''a:1'')]"
    by code_simp+
  have e: "encode_request (run_request ''VOTEREQ'' ''a:1 a:1 '') \<noteq> None" "encode_request self_vote \<noteq> None"
    unfolding run_request_params self_vote_def by code_simp+
  from transmit_params [OF w(1) wire_run(5)] transmit_params [OF w(2) wire_run(8)] e
  show "transmit h (run_request ''VOTEREQ'' ''a:1 a:1 '') = {#(h, run_request ''VOTEREQ'' ''a:1 a:1 '')#}"
    "transmit h self_vote = {#(h, self_vote)#}"
    unfolding run_request_params self_vote_def by simp_all
qed

lemma self_vote_simps: "endpoint self_vote = ''VOTEYES''" "getTxId self_vote = Inr 1"
  by (simp_all add: self_vote_def TCPRequest_of_params_def getTxId_def getParam_def stoul_1)

lemma self_dbms:
  "dbms_call (LOG_ONCE ''VOTEYES'' 1 ''a:1'' TRANSACTION) Map.empty =
     (Inr ''VOTEYES'', [1 \<mapsto> [''a:1'' \<mapsto> new_log_pair\<lparr>transactionLog := ''VOTEYES''\<rparr>]])"
  by (simp add: run_dbms_simps)

text \<open>No request is lost and no wait expires or vote is refused.\<close>

fun undisturbed :: "action \<Rightarrow> bool" where
  "undisturbed (Lose h req) \<longleftrightarrow> False"
| "undisturbed (Step i st) \<longleftrightarrow> st = Proceed"
| "undisturbed (Client_request h cfg) \<longleftrightarrow> True"
| "undisturbed (Deliver h req) \<longleftrightarrow> True"

lemma self_run_works:
  "\<exists>s. acts PAPER_VERSION self_run (start run_hosts) = Some s \<and>
     map ob_class (heap s) = [CoordinatorNode, ParticipantNode] \<and>
     map ob_config (heap s) = [self_config, self_config] \<and> map ob_host (heap s) = [''a:1'', ''a:1''] \<and>
     ob_proc (heap s ! 1) = Throw Assertion_failed \<and> mq_q (ob_messages (heap s ! 0)) = [] \<and> net s = {#} \<and>
     (\<exists>nd. nodes s ''a:1'' = Some nd \<and> nd_handlers nd 1 = Some 1)"
  unfolding run_start self_run_def
  by (simp add: run_simps self_config_simps self_requests self_transmit self_vote_simps LOG_ONCE_tx_def
      self_dbms popFront_def)

text \<open>
  C7: a coordinator must not be a participant of its own transaction; nothing in the code prevents it. The
  participant then takes the coordinator's place in the handler map of the node, under the same
  transaction id. There is a run of the paper version, with an orderly configuration, in which no request
  is lost, no wait expires, no worker refuses and no node crashes: the participant's vote for the
  transaction arrives at the coordinator's node, whose handler map has the participant (object 1) under
  the transaction id; the participant takes the vote, fails its assertion, which ends the process of the
  node, and nothing has reached or is on its way to the coordinator's queue.
\<close>

theorem self_participant_fails:
  "\<exists>as s coord part nd vote.
     acts PAPER_VERSION as (start run_hosts) = Some s \<and> list_all undisturbed as \<and> orderly s \<and>
     heap s = [coord, part] \<and> ob_class coord = CoordinatorNode \<and> ob_class part = ParticipantNode \<and>
     ob_config part = ob_config coord \<and>
     coordinator (ob_config coord) \<in> set (participants (ob_config coord)) \<and>
     Deliver (coordinator (ob_config coord)) vote \<in> set as \<and>
     endpoint vote = ''VOTEYES'' \<and> getTxId vote = Inr (ob_txid coord) \<and>
     nodes s (coordinator (ob_config coord)) = Some nd \<and> nd_handlers nd (ob_txid coord) = Some 1 \<and>
     ob_proc part = Throw Assertion_failed \<and> mq_q (ob_messages coord) = [] \<and> net s = {#}"
proof -
  obtain s nd where s: "acts PAPER_VERSION self_run (start run_hosts) = Some s"
      "map ob_class (heap s) = [CoordinatorNode, ParticipantNode]" "map ob_config (heap s) = [self_config, self_config]"
      "map ob_host (heap s) = [''a:1'', ''a:1'']"
      "ob_proc (heap s ! 1) = Throw Assertion_failed" "mq_q (ob_messages (heap s ! 0)) = []" "net s = {#}"
      "nodes s ''a:1'' = Some nd" "nd_handlers nd 1 = Some 1"
    using self_run_works by (elim exE conjE)
  obtain coord part where hp: "heap s = [coord, part]" using s(2) by (auto simp: map_eq_Cons_conv)
  have "orderly_config self_config" by code_simp
  then have "orderly s" using s(2,3) hp by (simp add: orderly_def coordinator_ids_def sig_def)
  moreover have "list_all undisturbed self_run" by (simp add: self_run_def steps_def list_all_iff)
  moreover have "Deliver ''a:1'' self_vote \<in> set self_run" by (simp add: self_run_def)
  moreover have "ob_class coord = CoordinatorNode" "ob_class part = ParticipantNode" "ob_config coord = self_config"
      "ob_config part = self_config" "ob_proc part = Throw Assertion_failed" "mq_q (ob_messages coord) = []"
    using s(2,3,5,6) hp by simp_all
  ultimately show ?thesis
    using hp s(1,7-9) self_config_simps(3-5) self_vote_simps
    by (intro exI [of _ self_run] exI [of _ s] exI [of _ coord] exI [of _ part] exI [of _ nd] exI [of _ self_vote])
      simp
qed

end
