(* ===== verification/Json_Lexer.thy ===== *)
theory Json_Lexer
  imports Json_Value "HOL-Library.Code_Target_Nat" "HOL-Library.Code_Target_Int"
begin

text \<open>
  The lexer of the bundled JSON library (\<open>class lexer\<close> of \<open>Cornus/include/lib/json.hpp\<close>), over a
  stream of bytes: its state, the input management (\<open>get\<close>, \<open>unget\<close>, \<open>add\<close>, \<open>reset\<close>), the scanners of
  strings, comments, numbers and literals, and \<open>scan\<close>. A method is a function from the lexer before
  to the lexer after it. The locale is the "C" locale of the start-up, so the decimal point is a dot.
\<close>

unbundle bit_operations_syntax

section \<open>State\<close>

datatype token_type =
    uninitialized | literal_true | literal_false | literal_null
  | value_string | value_unsigned | value_integer | value_float
  | begin_array | begin_object | end_array | end_object
  | name_separator | value_separator | parse_error | end_of_input | literal_or_value

fun token_type_name :: "token_type \<Rightarrow> string" where
  "token_type_name uninitialized = ''<uninitialized>''"
| "token_type_name literal_true = ''true literal''"
| "token_type_name literal_false = ''false literal''"
| "token_type_name literal_null = ''null literal''"
| "token_type_name value_string = ''string literal''"
| "token_type_name value_unsigned = ''number literal''"
| "token_type_name value_integer = ''number literal''"
| "token_type_name value_float = ''number literal''"
| "token_type_name begin_array = [CHR 0x27, CHR ''['', CHR 0x27]"
| "token_type_name begin_object = [CHR 0x27, CHR ''{'', CHR 0x27]"
| "token_type_name end_array = [CHR 0x27, CHR '']'', CHR 0x27]"
| "token_type_name end_object = [CHR 0x27, CHR ''}'', CHR 0x27]"
| "token_type_name name_separator = [CHR 0x27, CHR '':'', CHR 0x27]"
| "token_type_name value_separator = [CHR 0x27, CHR '','', CHR 0x27]"
| "token_type_name parse_error = ''<parse error>''"
| "token_type_name end_of_input = ''end of input''"
| "token_type_name literal_or_value =
     [CHR 0x27, CHR ''['', CHR 0x27] @ '', '' @ [CHR 0x27, CHR ''{'', CHR 0x27] @ '', or a literal''"

record position =
  chars_read_total :: nat
  chars_read_current_line :: nat
  lines_read :: nat

text \<open>
  The current character is \<open>None\<close> at the end of the file. The counters are natural numbers: no input
  has \<open>2 ^ 64\<close> bytes.
\<close>

record lexer =
  lx_input :: string                       \<comment> \<open>what the stream still holds\<close>
  lx_ignore_comments :: bool
  lx_current :: "char option"
  lx_next_unget :: bool
  lx_position :: position
  lx_token_string :: string
  lx_token_buffer :: string
  lx_error_message :: string
  lx_value_integer :: int
  lx_value_unsigned :: nat
  lx_value_float :: double

definition lexer_of :: "string \<Rightarrow> bool \<Rightarrow> lexer" where
  "lexer_of input ignore_comments =
     \<lparr>lx_input = input, lx_ignore_comments = ignore_comments, lx_current = None, lx_next_unget = False,
      lx_position = \<lparr>chars_read_total = 0, chars_read_current_line = 0, lines_read = 0\<rparr>,
      lx_token_string = [], lx_token_buffer = [], lx_error_message = [],
      lx_value_integer = 0, lx_value_unsigned = 0, lx_value_float = Finite False 0 0\<rparr>"

abbreviation code :: "char \<Rightarrow> nat" where
  "code c \<equiv> of_char c"

section \<open>Input management\<close>

text \<open>\<open>get_character\<close> of the stream adapter: at the end of the file every further read gives the end.\<close>

definition get_character :: "string \<Rightarrow> char option \<times> string" where
  "get_character input = (case input of [] \<Rightarrow> (None, []) | c # rest \<Rightarrow> (Some c, rest))"

definition count_char :: "char option \<Rightarrow> position \<Rightarrow> position" where
  "count_char c p =
     (let p = p\<lparr>chars_read_total := chars_read_total p + 1,
                chars_read_current_line := chars_read_current_line p + 1\<rparr>
      in if c = Some (CHR 0x0A) then p\<lparr>lines_read := lines_read p + 1, chars_read_current_line := 0\<rparr> else p)"

definition lexer_get :: "lexer \<Rightarrow> lexer" where
  "lexer_get lx =
     (let (c, rest) = (if lx_next_unget lx then (lx_current lx, lx_input lx) else get_character (lx_input lx))
      in lx\<lparr>lx_input := rest, lx_current := c, lx_next_unget := False,
            lx_position := count_char c (lx_position lx),
            lx_token_string := lx_token_string lx @ (case c of None \<Rightarrow> [] | Some ch \<Rightarrow> [ch])\<rparr>)"

definition uncount_char :: "position \<Rightarrow> position" where
  "uncount_char p =
     (let p = p\<lparr>chars_read_total := chars_read_total p - 1\<rparr>
      in if chars_read_current_line p = 0
         then (if 0 < lines_read p then p\<lparr>lines_read := lines_read p - 1\<rparr> else p)
         else p\<lparr>chars_read_current_line := chars_read_current_line p - 1\<rparr>)"

definition lexer_unget :: "lexer \<Rightarrow> lexer" where
  "lexer_unget lx =
     lx\<lparr>lx_next_unget := True, lx_position := uncount_char (lx_position lx),
        lx_token_string := (if lx_current lx = None then lx_token_string lx else butlast (lx_token_string lx))\<rparr>"

definition lexer_add :: "char \<Rightarrow> lexer \<Rightarrow> lexer" where
  "lexer_add c lx = lx\<lparr>lx_token_buffer := lx_token_buffer lx @ [c]\<rparr>"

text \<open>\<open>to_char_type\<close> of the current character; the end of the file, -1, becomes the byte \<open>0xFF\<close>.\<close>

definition current_char :: "lexer \<Rightarrow> char" where
  "current_char lx = (case lx_current lx of None \<Rightarrow> CHR 0xFF | Some c \<Rightarrow> c)"

abbreviation add_current :: "lexer \<Rightarrow> lexer" where
  "add_current lx \<equiv> lexer_add (current_char lx) lx"

definition lexer_reset :: "lexer \<Rightarrow> lexer" where
  "lexer_reset lx = lx\<lparr>lx_token_buffer := [], lx_token_string := [current_char lx]\<rparr>"

definition hex_digit_upper :: "nat \<Rightarrow> char" where
  "hex_digit_upper d = char_of (if d < 10 then 48 + d else 55 + d)"

text \<open>The token as error messages show it; \<open>%.4X\<close> of a control character.\<close>

definition get_token_string :: "lexer \<Rightarrow> string" where
  "get_token_string lx =
     concat (map (\<lambda>c. if code c \<le> 0x1F
                      then ''<U+00'' @ [hex_digit_upper (code c div 16), hex_digit_upper (code c mod 16)] @ ''>''
                      else [c]) (lx_token_string lx))"

abbreviation lexer_error :: "string \<Rightarrow> lexer \<Rightarrow> lexer" where
  "lexer_error msg lx \<equiv> lx\<lparr>lx_error_message := msg\<rparr>"

section \<open>What a scanner can still read\<close>

text \<open>
  The characters that the next calls of \<open>get\<close> return. Every scanner shortens them, so they give the
  termination of the loops below.
\<close>

definition pending :: "lexer \<Rightarrow> string" where
  "pending lx =
     (if lx_next_unget lx then (case lx_current lx of None \<Rightarrow> [] | Some c \<Rightarrow> [c]) else []) @ lx_input lx"

abbreviation remaining :: "lexer \<Rightarrow> nat" where
  "remaining lx \<equiv> length (pending lx)"

named_theorems lexer_simps "what the primitive operations do to a lexer"

lemma lexer_add_simps [simp, lexer_simps]:
  "lx_input (lexer_add c lx) = lx_input lx"
  "lx_ignore_comments (lexer_add c lx) = lx_ignore_comments lx"
  "lx_current (lexer_add c lx) = lx_current lx"
  "lx_next_unget (lexer_add c lx) = lx_next_unget lx"
  "lx_position (lexer_add c lx) = lx_position lx"
  "lx_token_buffer (lexer_add c lx) = lx_token_buffer lx @ [c]"
  "pending (lexer_add c lx) = pending lx"
  by (simp_all add: lexer_add_def pending_def)

lemma lexer_reset_simps [simp, lexer_simps]:
  "lx_input (lexer_reset lx) = lx_input lx"
  "lx_ignore_comments (lexer_reset lx) = lx_ignore_comments lx"
  "lx_current (lexer_reset lx) = lx_current lx"
  "lx_next_unget (lexer_reset lx) = lx_next_unget lx"
  "lx_position (lexer_reset lx) = lx_position lx"
  "lx_token_buffer (lexer_reset lx) = []"
  "pending (lexer_reset lx) = pending lx"
  by (simp_all add: lexer_reset_def pending_def)

lemma pending_update [simp]:
  "pending (lx\<lparr>lx_error_message := m\<rparr>) = pending lx"
  "pending (lx\<lparr>lx_value_integer := i\<rparr>) = pending lx"
  "pending (lx\<lparr>lx_value_unsigned := n\<rparr>) = pending lx"
  "pending (lx\<lparr>lx_value_float := f\<rparr>) = pending lx"
  by (simp_all add: pending_def)

lemma lexer_get_simps [simp, lexer_simps]:
  "lx_next_unget (lexer_get lx) = False"
  "lx_ignore_comments (lexer_get lx) = lx_ignore_comments lx"
  "lx_token_buffer (lexer_get lx) = lx_token_buffer lx"
  by (simp_all add: lexer_get_def Let_def split: prod.split)

lemma remaining_get: "remaining (lexer_get lx) = remaining lx - 1 \<or> remaining (lexer_get lx) = remaining lx \<and> lx_current (lexer_get lx) = None"
  by (auto simp: lexer_get_def pending_def get_character_def split: list.split option.split)

lemma remaining_get_le: "remaining (lexer_get lx) \<le> remaining lx"
  using remaining_get [of lx] by auto

lemma remaining_get_less:
  "lx_current (lexer_get lx) = Some c \<Longrightarrow> remaining (lexer_get lx) < remaining lx"
  by (auto simp: lexer_get_def pending_def get_character_def split: list.splits option.splits if_splits)

lemma remaining_unget:
  "\<not> lx_next_unget lx \<Longrightarrow> remaining (lexer_unget lx) = (if lx_current lx = None then 0 else 1) + remaining lx"
  by (auto simp: lexer_unget_def pending_def)

section \<open>Strings\<close>

text \<open>The value of a hexadecimal digit: the offset of its range is subtracted.\<close>

definition hex_value :: "char option \<Rightarrow> nat option" where
  "hex_value cur =
     (case cur of
        None \<Rightarrow> None
      | Some c \<Rightarrow>
          if 0x30 \<le> code c \<and> code c \<le> 0x39 then Some (code c - 0x30)
          else if 0x41 \<le> code c \<and> code c \<le> 0x46 then Some (code c - 0x37)
          else if 0x61 \<le> code c \<and> code c \<le> 0x66 then Some (code c - 0x57)
          else None)"

text \<open>The loop over the factors 12, 8, 4 and 0; \<open>None\<close> stands for the result -1.\<close>

fun get_codepoint_from :: "nat list \<Rightarrow> nat \<Rightarrow> lexer \<Rightarrow> nat option \<times> lexer" where
  "get_codepoint_from [] codepoint lx = (Some codepoint, lx)"
| "get_codepoint_from (factor # factors) codepoint lx =
     (let lx = lexer_get lx
      in case hex_value (lx_current lx) of
           None \<Rightarrow> (None, lx)
         | Some d \<Rightarrow> get_codepoint_from factors (codepoint + push_bit factor d) lx)"

definition get_codepoint :: "lexer \<Rightarrow> nat option \<times> lexer" where
  "get_codepoint lx = get_codepoint_from [12, 8, 4, 0] 0 lx"

fun check_ranges :: "(nat \<times> nat) list \<Rightarrow> lexer \<Rightarrow> bool \<times> lexer" where
  "check_ranges [] lx = (True, lx)"
| "check_ranges ((lo, hi) # ranges) lx =
     (let lx = lexer_get lx
      in if (case lx_current lx of None \<Rightarrow> False | Some c \<Rightarrow> lo \<le> code c \<and> code c \<le> hi)
         then check_ranges ranges (add_current lx)
         else (False, lexer_error ''invalid string: ill-formed UTF-8 byte'' lx))"

definition next_byte_in_range :: "(nat \<times> nat) list \<Rightarrow> lexer \<Rightarrow> bool \<times> lexer" where
  "next_byte_in_range ranges lx = check_ranges ranges (add_current lx)"

text \<open>The bytes of a code point in UTF-8.\<close>

definition codepoint_bytes :: "nat \<Rightarrow> nat list" where
  "codepoint_bytes cp =
     (if cp < 0x80 then [cp]
      else if cp \<le> 0x7FF then
        [0xC0 OR drop_bit 6 cp, 0x80 OR (cp AND 0x3F)]
      else if cp \<le> 0xFFFF then
        [0xE0 OR drop_bit 12 cp, 0x80 OR (drop_bit 6 cp AND 0x3F), 0x80 OR (cp AND 0x3F)]
      else
        [0xF0 OR drop_bit 18 cp, 0x80 OR (drop_bit 12 cp AND 0x3F),
         0x80 OR (drop_bit 6 cp AND 0x3F), 0x80 OR (cp AND 0x3F)])"

definition add_codepoint :: "nat \<Rightarrow> lexer \<Rightarrow> lexer" where
  "add_codepoint cp lx = fold (\<lambda>b. lexer_add (char_of b)) (codepoint_bytes cp) lx"

definition hex_error :: string where
  "hex_error = ''invalid string: '' @ [CHR 0x27, CHR 0x5C, CHR ''u'', CHR 0x27] @ '' must be followed by 4 hex digits''"

definition high_surrogate_error :: string where
  "high_surrogate_error = ''invalid string: surrogate U+D800..U+DBFF must be followed by U+DC00..U+DFFF''"

definition low_surrogate_error :: string where
  "low_surrogate_error = ''invalid string: surrogate U+DC00..U+DFFF must follow U+D800..U+DBFF''"

text \<open>
  The second half of a surrogate pair, read after a first half \<open>codepoint1\<close>. The source computes in
  \<open>unsigned int\<close>; the difference does not wrap.
\<close>

definition scan_low_surrogate :: "nat \<Rightarrow> lexer \<Rightarrow> bool \<times> lexer" where
  "scan_low_surrogate codepoint1 lx =
     (let lx = lexer_get lx
      in if lx_current lx \<noteq> Some (CHR 0x5C) then (False, lexer_error high_surrogate_error lx)
         else
           let lx = lexer_get lx
           in if lx_current lx \<noteq> Some (CHR ''u'') then (False, lexer_error high_surrogate_error lx)
              else
                case get_codepoint lx of
                  (None, lx) \<Rightarrow> (False, lexer_error hex_error lx)
                | (Some codepoint2, lx) \<Rightarrow>
                    if 0xDC00 \<le> codepoint2 \<and> codepoint2 \<le> 0xDFFF
                    then (True, add_codepoint (push_bit 10 codepoint1 + codepoint2 - 0x35FDC00) lx)
                    else (False, lexer_error high_surrogate_error lx))"

definition scan_unicode_escape :: "lexer \<Rightarrow> bool \<times> lexer" where
  "scan_unicode_escape lx =
     (case get_codepoint lx of
        (None, lx) \<Rightarrow> (False, lexer_error hex_error lx)
      | (Some codepoint1, lx) \<Rightarrow>
          if 0xD800 \<le> codepoint1 \<and> codepoint1 \<le> 0xDBFF then scan_low_surrogate codepoint1 lx
          else if 0xDC00 \<le> codepoint1 \<and> codepoint1 \<le> 0xDFFF
          then (False, lexer_error low_surrogate_error lx)
          else (True, add_codepoint codepoint1 lx))"

text \<open>An escape, after its backslash; the first component is false when the string is rejected.\<close>

definition scan_escape :: "lexer \<Rightarrow> bool \<times> lexer" where
  "scan_escape lx =
     (let lx = lexer_get lx; c = lx_current lx
      in if c = Some (CHR 0x22) then (True, lexer_add (CHR 0x22) lx)
         else if c = Some (CHR 0x5C) then (True, lexer_add (CHR 0x5C) lx)
         else if c = Some (CHR ''/'') then (True, lexer_add (CHR ''/'') lx)
         else if c = Some (CHR ''b'') then (True, lexer_add (CHR 0x08) lx)
         else if c = Some (CHR ''f'') then (True, lexer_add (CHR 0x0C) lx)
         else if c = Some (CHR ''n'') then (True, lexer_add (CHR 0x0A) lx)
         else if c = Some (CHR ''r'') then (True, lexer_add (CHR 0x0D) lx)
         else if c = Some (CHR ''t'') then (True, lexer_add (CHR 0x09) lx)
         else if c = Some (CHR ''u'') then scan_unicode_escape lx
         else (False, lexer_error ''invalid string: forbidden character after backslash'' lx))"

text \<open>The messages for the control characters, by their names.\<close>

definition control_names :: "string list" where
  "control_names =
     [''NUL'', ''SOH'', ''STX'', ''ETX'', ''EOT'', ''ENQ'', ''ACK'', ''BEL'', ''BS'', ''HT'', ''LF'', ''VT'',
      ''FF'', ''CR'', ''SO'', ''SI'', ''DLE'', ''DC1'', ''DC2'', ''DC3'', ''DC4'', ''NAK'', ''SYN'', ''ETB'',
      ''CAN'', ''EM'', ''SUB'', ''ESC'', ''FS'', ''GS'', ''RS'', ''US'']"

definition control_short_escape :: "nat \<Rightarrow> string" where
  "control_short_escape n =
     (if n = 0x08 then '' or '' @ [CHR 0x5C, CHR ''b'']
      else if n = 0x09 then '' or '' @ [CHR 0x5C, CHR ''t'']
      else if n = 0x0A then '' or '' @ [CHR 0x5C, CHR ''n'']
      else if n = 0x0C then '' or '' @ [CHR 0x5C, CHR ''f'']
      else if n = 0x0D then '' or '' @ [CHR 0x5C, CHR ''r''] else [])"

definition control_error :: "nat \<Rightarrow> string" where
  "control_error n =
     (let hex = ''00'' @ [hex_digit_upper (n div 16), hex_digit_upper (n mod 16)]
      in ''invalid string: control character U+'' @ hex @ '' ('' @ control_names ! n @
         '') must be escaped to '' @ [CHR 0x5C, CHR ''u''] @ hex @ control_short_escape n)"

text \<open>
  The byte ranges that must follow the first byte of a multi-byte character; none for the bytes that
  cannot start one.
\<close>

definition utf8_ranges :: "nat \<Rightarrow> (nat \<times> nat) list option" where
  "utf8_ranges b =
     (if 0xC2 \<le> b \<and> b \<le> 0xDF then Some [(0x80, 0xBF)]
      else if b = 0xE0 then Some [(0xA0, 0xBF), (0x80, 0xBF)]
      else if 0xE1 \<le> b \<and> b \<le> 0xEC \<or> b = 0xEE \<or> b = 0xEF then Some [(0x80, 0xBF), (0x80, 0xBF)]
      else if b = 0xED then Some [(0x80, 0x9F), (0x80, 0xBF)]
      else if b = 0xF0 then Some [(0x90, 0xBF), (0x80, 0xBF), (0x80, 0xBF)]
      else if 0xF1 \<le> b \<and> b \<le> 0xF3 then Some [(0x80, 0xBF), (0x80, 0xBF), (0x80, 0xBF)]
      else if b = 0xF4 then Some [(0x80, 0x8F), (0x80, 0xBF), (0x80, 0xBF)]
      else None)"

text \<open>A character of a string other than the closing quote and the backslash.\<close>

definition scan_plain :: "char \<Rightarrow> lexer \<Rightarrow> bool \<times> lexer" where
  "scan_plain c lx =
     (if code c \<le> 0x1F then (False, lexer_error (control_error (code c)) lx)
      else if code c \<le> 0x7F then (True, lexer_add c lx)
      else case utf8_ranges (code c) of
             Some ranges \<Rightarrow> next_byte_in_range ranges lx
           | None \<Rightarrow> (False, lexer_error ''invalid string: ill-formed UTF-8 byte'' lx))"

lemma remaining_get_codepoint_from:
  "get_codepoint_from fs n lx = (r, lx') \<Longrightarrow> remaining lx' \<le> remaining lx"
  by (induction fs n lx rule: get_codepoint_from.induct)
    (auto simp: Let_def remaining_get_le split: option.splits intro: order_trans [OF _ remaining_get_le])

lemma remaining_check_ranges: "check_ranges rs lx = (r, lx') \<Longrightarrow> remaining lx' \<le> remaining lx"
proof (induction rs lx arbitrary: r lx' rule: check_ranges.induct)
  case (2 lo hi rs lx)
  show ?case
    using "2.prems" "2.IH" [OF refl, of r lx'] remaining_get_le [of lx]
    by (auto simp: Let_def split: if_splits option.splits)
qed simp

lemma pending_add_codepoint [simp]: "pending (add_codepoint cp lx) = pending lx"
proof -
  have "pending (fold (\<lambda>b. lexer_add (char_of b)) bs lx) = pending lx" for bs :: "nat list"
    by (induction bs arbitrary: lx) simp_all
  then show ?thesis by (simp add: add_codepoint_def)
qed

lemma remaining_get_codepoint: "get_codepoint lx = (r, lx') \<Longrightarrow> remaining lx' \<le> remaining lx"
  by (simp only: get_codepoint_def remaining_get_codepoint_from)

lemma remaining_scan_low_surrogate:
  "scan_low_surrogate cp lx = (r, lx') \<Longrightarrow> remaining lx' \<le> remaining lx"
  using remaining_get_le [of lx] remaining_get_le [of "lexer_get lx"]
  by (auto simp: scan_low_surrogate_def Let_def split: if_splits prod.splits option.splits
      dest!: remaining_get_codepoint)

lemma remaining_scan_unicode_escape:
  "scan_unicode_escape lx = (r, lx') \<Longrightarrow> remaining lx' \<le> remaining lx"
  by (auto simp: scan_unicode_escape_def split: if_splits prod.splits option.splits
      dest!: remaining_get_codepoint remaining_scan_low_surrogate)

lemma remaining_scan_escape: "scan_escape lx = (r, lx') \<Longrightarrow> remaining lx' \<le> remaining lx"
  using remaining_get_le [of lx]
  by (auto simp: scan_escape_def Let_def split: if_splits dest!: remaining_scan_unicode_escape)

lemma remaining_scan_plain: "scan_plain c lx = (r, lx') \<Longrightarrow> remaining lx' \<le> remaining lx"
  by (auto simp: scan_plain_def next_byte_in_range_def split: if_splits option.splits
      dest!: remaining_check_ranges)

function scan_string_loop :: "lexer \<Rightarrow> token_type \<times> lexer" where
  "scan_string_loop lx =
     (let lx' = lexer_get lx
      in case lx_current lx' of
           None \<Rightarrow> (parse_error, lexer_error ''invalid string: missing closing quote'' lx')
         | Some c \<Rightarrow>
             if c = CHR 0x22 then (value_string, lx')
             else
               case (if c = CHR 0x5C then scan_escape lx' else scan_plain c lx') of
                 (False, lx'') \<Rightarrow> (parse_error, lx'')
               | (True, lx'') \<Rightarrow> scan_string_loop lx'')"
  by pat_completeness auto

termination
  by (relation "measure remaining")
    (auto split: if_splits dest!: remaining_get_less remaining_scan_escape remaining_scan_plain
      dest: sym simp: eq_commute [of _ "scan_escape _"] eq_commute [of _ "scan_plain _ _"])

declare scan_string_loop.simps [simp del]

definition json_scan_string :: "lexer \<Rightarrow> token_type \<times> lexer" where
  "json_scan_string lx = scan_string_loop (lexer_reset lx)"

section \<open>Comments\<close>

function scan_line_comment :: "lexer \<Rightarrow> bool \<times> lexer" where
  "scan_line_comment lx =
     (let lx' = lexer_get lx
      in case lx_current lx' of
           None \<Rightarrow> (True, lx')
         | Some c \<Rightarrow> if c \<in> {CHR 0x0A, CHR 0x0D, CHR 0x00} then (True, lx') else scan_line_comment lx')"
  by pat_completeness auto

termination
  by (relation "measure remaining") (auto dest!: remaining_get_less)

definition comment_unclosed :: string where
  "comment_unclosed = ''invalid comment; missing closing '' @ [CHR 0x27] @ ''*/'' @ [CHR 0x27]"

function scan_block_comment :: "lexer \<Rightarrow> bool \<times> lexer" where
  "scan_block_comment lx =
     (let lx' = lexer_get lx
      in case lx_current lx' of
           None \<Rightarrow> (False, lexer_error comment_unclosed lx')
         | Some c \<Rightarrow>
             if c = CHR 0x00 then (False, lexer_error comment_unclosed lx')
             else if c = CHR ''*'' then
               let lx'' = lexer_get lx'
               in if lx_current lx'' = Some (CHR ''/'') then (True, lx'')
                  else scan_block_comment (lexer_unget lx'')
             else scan_block_comment lx')"
  by pat_completeness auto

termination
proof (relation "measure remaining", goal_cases)
  case (2 lx lx' c lx'')
  have "remaining (lexer_unget lx'') \<le> remaining lx'"
    using remaining_get [of lx'] remaining_get_less [of lx'] 2(5)
    by (cases "lx_current lx''") (auto simp: remaining_unget)
  moreover have "remaining lx' < remaining lx" using 2 remaining_get_less by metis
  ultimately show ?case by simp
qed (auto dest!: remaining_get_less)

declare scan_line_comment.simps [simp del] scan_block_comment.simps [simp del]

definition comment_error :: string where
  "comment_error = ''invalid comment; expecting '' @ [CHR 0x27, CHR ''/'', CHR 0x27] @ '' or '' @
     [CHR 0x27, CHR ''*'', CHR 0x27] @ '' after '' @ [CHR 0x27, CHR ''/'', CHR 0x27]"

definition scan_comment :: "lexer \<Rightarrow> bool \<times> lexer" where
  "scan_comment lx =
     (let lx = lexer_get lx
      in if lx_current lx = Some (CHR ''/'') then scan_line_comment lx
         else if lx_current lx = Some (CHR ''*'') then scan_block_comment lx
         else (False, lexer_error comment_error lx))"

section \<open>Numbers\<close>

text \<open>
  The states of the number scanner, one function per label. The token type collected so far is an
  argument. A state returns the final token type, or \<open>parse_error\<close>, with the character behind the
  number still current.
\<close>

definition at_digit :: "lexer \<Rightarrow> bool" where
  "at_digit lx = (case lx_current lx of None \<Rightarrow> False | Some c \<Rightarrow> is_digit c)"

definition at_char :: "char set \<Rightarrow> lexer \<Rightarrow> bool" where
  "at_char cs lx = (case lx_current lx of None \<Rightarrow> False | Some c \<Rightarrow> c \<in> cs)"

lemma at_digit_less: "at_digit (lexer_get lx) \<Longrightarrow> remaining (lexer_get lx) < remaining lx"
  by (auto simp: at_digit_def split: option.splits dest: remaining_get_less)

abbreviation exponent_chars :: "char set" where
  "exponent_chars \<equiv> {CHR ''e'', CHR ''E''}"

text \<open>The end: the character behind the number is put back and the text is converted.\<close>

definition scan_number_done :: "token_type \<Rightarrow> lexer \<Rightarrow> token_type \<times> lexer" where
  "scan_number_done number_type lx =
     (let lx = lexer_unget lx; text = lx_token_buffer lx
      in if number_type = value_unsigned \<and> digits_value text < 2 ^ 64
         then (value_unsigned, lx\<lparr>lx_value_unsigned := digits_value text\<rparr>)
         else if number_type = value_integer \<and> digits_value (tl text) \<le> 2 ^ 63
         then (value_integer, lx\<lparr>lx_value_integer := - int (digits_value (tl text))\<rparr>)
         else (value_float, lx\<lparr>lx_value_float := strtod text\<rparr>))"

function scan_number_any2 :: "token_type \<Rightarrow> lexer \<Rightarrow> token_type \<times> lexer" where
  "scan_number_any2 number_type lx =
     (let lx' = lexer_get lx
      in if at_digit lx' then scan_number_any2 number_type (add_current lx')
         else scan_number_done number_type lx')"
  by pat_completeness auto

termination
  by (relation "measure (\<lambda>(t, lx). remaining lx)") (auto dest: at_digit_less)

definition scan_number_sign :: "token_type \<Rightarrow> lexer \<Rightarrow> token_type \<times> lexer" where
  "scan_number_sign number_type lx =
     (let lx = lexer_get lx
      in if at_digit lx then scan_number_any2 number_type (add_current lx)
         else (parse_error, lexer_error ''invalid number; expected digit after exponent sign'' lx))"

definition exponent_error :: string where
  "exponent_error = ''invalid number; expected '' @ [CHR 0x27, CHR ''+'', CHR 0x27] @ '', '' @
     [CHR 0x27, CHR ''-'', CHR 0x27] @ '', or digit after exponent''"

definition scan_number_exponent :: "lexer \<Rightarrow> token_type \<times> lexer" where
  "scan_number_exponent lx =
     (let number_type = value_float; lx = lexer_get lx
      in if at_char {CHR ''+'', CHR ''-''} lx then scan_number_sign number_type (add_current lx)
         else if at_digit lx then scan_number_any2 number_type (add_current lx)
         else (parse_error, lexer_error exponent_error lx))"

function scan_number_decimal2 :: "token_type \<Rightarrow> lexer \<Rightarrow> token_type \<times> lexer" where
  "scan_number_decimal2 number_type lx =
     (let lx' = lexer_get lx
      in if at_digit lx' then scan_number_decimal2 number_type (add_current lx')
         else if at_char exponent_chars lx' then scan_number_exponent (add_current lx')
         else scan_number_done number_type lx')"
  by pat_completeness auto

termination
  by (relation "measure (\<lambda>(t, lx). remaining lx)") (auto dest: at_digit_less)

definition scan_number_decimal1 :: "lexer \<Rightarrow> token_type \<times> lexer" where
  "scan_number_decimal1 lx =
     (let number_type = value_float; lx = lexer_get lx
      in if at_digit lx then scan_number_decimal2 number_type (add_current lx)
         else (parse_error, lexer_error (''invalid number; expected digit after '' @ [CHR 0x27, CHR ''.'', CHR 0x27]) lx))"

function scan_number_any1 :: "token_type \<Rightarrow> lexer \<Rightarrow> token_type \<times> lexer" where
  "scan_number_any1 number_type lx =
     (let lx' = lexer_get lx
      in if at_digit lx' then scan_number_any1 number_type (add_current lx')
         else if at_char {CHR ''.''} lx' then scan_number_decimal1 (lexer_add (CHR ''.'') lx')
         else if at_char exponent_chars lx' then scan_number_exponent (add_current lx')
         else scan_number_done number_type lx')"
  by pat_completeness auto

termination
  by (relation "measure (\<lambda>(t, lx). remaining lx)") (auto dest: at_digit_less)

definition scan_number_zero :: "token_type \<Rightarrow> lexer \<Rightarrow> token_type \<times> lexer" where
  "scan_number_zero number_type lx =
     (let lx = lexer_get lx
      in if at_char {CHR ''.''} lx then scan_number_decimal1 (lexer_add (CHR ''.'') lx)
         else if at_char exponent_chars lx then scan_number_exponent (add_current lx)
         else scan_number_done number_type lx)"

definition scan_number_minus :: "lexer \<Rightarrow> token_type \<times> lexer" where
  "scan_number_minus lx =
     (let number_type = value_integer; lx = lexer_get lx
      in if at_char {CHR ''0''} lx then scan_number_zero number_type (add_current lx)
         else if at_digit lx then scan_number_any1 number_type (add_current lx)
         else (parse_error, lexer_error (''invalid number; expected digit after '' @ [CHR 0x27, CHR ''-'', CHR 0x27]) lx))"

text \<open>The start; any other character is excluded by an assertion and by the caller.\<close>

definition json_scan_number :: "lexer \<Rightarrow> token_type \<times> lexer" where
  "json_scan_number lx =
     (let lx = lexer_reset lx; number_type = value_unsigned
      in if at_char {CHR ''-''} lx then scan_number_minus (add_current lx)
         else if at_char {CHR ''0''} lx then scan_number_zero number_type (add_current lx)
         else scan_number_any1 number_type (add_current lx))"

declare scan_number_any2.simps [simp del] scan_number_decimal2.simps [simp del]
  scan_number_any1.simps [simp del]

section \<open>Literals, white space and tokens\<close>

text \<open>The loop over the rest of the literal behind its first character.\<close>

fun scan_literal_rest :: "string \<Rightarrow> token_type \<Rightarrow> lexer \<Rightarrow> token_type \<times> lexer" where
  "scan_literal_rest [] return_type lx = (return_type, lx)"
| "scan_literal_rest (c # cs) return_type lx =
     (let lx = lexer_get lx
      in if current_char lx \<noteq> c then (parse_error, lexer_error ''invalid literal'' lx)
         else scan_literal_rest cs return_type lx)"

definition scan_literal :: "string \<Rightarrow> token_type \<Rightarrow> lexer \<Rightarrow> token_type \<times> lexer" where
  "scan_literal literal_text return_type lx = scan_literal_rest (tl literal_text) return_type lx"

definition skip_bom :: "lexer \<Rightarrow> bool \<times> lexer" where
  "skip_bom lx =
     (let lx = lexer_get lx
      in if lx_current lx = Some (CHR 0xEF) then
           let lx = lexer_get lx
           in if lx_current lx = Some (CHR 0xBB)
              then let lx = lexer_get lx in (lx_current lx = Some (CHR 0xBF), lx)
              else (False, lx)
         else (True, lexer_unget lx))"

abbreviation json_space :: "char set" where
  "json_space \<equiv> {CHR '' '', CHR 0x09, CHR 0x0A, CHR 0x0D}"

function skip_whitespace :: "lexer \<Rightarrow> lexer" where
  "skip_whitespace lx =
     (let lx' = lexer_get lx in if at_char json_space lx' then skip_whitespace lx' else lx')"
  by pat_completeness auto

termination
  by (relation "measure remaining")
    (auto simp: at_char_def split: option.splits dest: remaining_get_less)

declare skip_whitespace.simps [simp del]

text \<open>The loop over the comments, each with the white space behind it.\<close>

lemma remaining_skip_whitespace: "remaining (skip_whitespace lx) \<le> remaining lx"
proof (induction lx rule: skip_whitespace.induct)
  case (1 lx)
  then show ?case
    using remaining_get_le [of lx] by (subst skip_whitespace.simps) (auto simp: Let_def)
qed

lemma remaining_skip_whitespace_less:
  "lx_current (skip_whitespace lx) = Some c \<Longrightarrow> remaining (skip_whitespace lx) < remaining lx"
proof (induction lx rule: skip_whitespace.induct)
  case (1 lx)
  show ?case
  proof (cases "at_char json_space (lexer_get lx)")
    case True
    then have "remaining (skip_whitespace (lexer_get lx)) < remaining (lexer_get lx)"
      using 1 by (simp add: skip_whitespace.simps [of lx])
    with True show ?thesis
      using remaining_get_le [of lx] by (simp add: skip_whitespace.simps [of lx])
  next
    case False
    with "1.prems" show ?thesis
      by (simp add: skip_whitespace.simps [of lx] remaining_get_less)
  qed
qed

lemma remaining_scan_line_comment: "scan_line_comment lx = (r, lx') \<Longrightarrow> remaining lx' \<le> remaining lx"
proof (induction lx rule: scan_line_comment.induct)
  case (1 lx)
  show ?case
    using "1.prems" "1.IH" [OF refl] remaining_get_le [of lx]
    by (fastforce simp: scan_line_comment.simps [of lx] Let_def split: option.splits if_splits)
qed

lemma remaining_get_unget: "remaining (lexer_unget (lexer_get lx)) \<le> remaining lx"
  using remaining_get [of lx] remaining_get_less [of lx]
  by (cases "lx_current (lexer_get lx)") (auto simp: remaining_unget)

lemma remaining_scan_block_comment: "scan_block_comment lx = (r, lx') \<Longrightarrow> remaining lx' \<le> remaining lx"
proof (induction lx rule: scan_block_comment.induct)
  case (1 lx)
  show ?case
    using "1.prems" "1.IH" [OF refl] remaining_get_le [of lx] remaining_get_le [of "lexer_get lx"]
      remaining_get_unget [of "lexer_get lx"]
    by (fastforce simp: scan_block_comment.simps [of lx] Let_def split: option.splits if_splits)
qed

lemma remaining_scan_comment: "scan_comment lx = (r, lx') \<Longrightarrow> remaining lx' \<le> remaining lx"
  using remaining_get_le [of lx]
  by (auto simp: scan_comment_def Let_def split: if_splits
      dest!: remaining_scan_line_comment remaining_scan_block_comment)

function skip_comments :: "lexer \<Rightarrow> bool \<times> lexer" where
  "skip_comments lx =
     (if lx_ignore_comments lx \<and> lx_current lx = Some (CHR ''/'')
      then case scan_comment lx of
             (False, lx') \<Rightarrow> (False, lx')
           | (True, lx') \<Rightarrow>
               let lx'' = skip_whitespace lx'
               in if lx_current lx'' = Some (CHR ''/'') then skip_comments lx'' else (True, lx'')
      else (True, lx))"
  by pat_completeness auto

termination
  by (relation "measure remaining")
    (auto dest!: sym [of "(_, _)"] remaining_scan_comment remaining_skip_whitespace_less)

declare skip_comments.simps [simp del]

text \<open>The token that starts with the current character.\<close>

definition scan_token :: "lexer \<Rightarrow> token_type \<times> lexer" where
  "scan_token lx =
     (case lx_current lx of
        None \<Rightarrow> (end_of_input, lx)
      | Some c \<Rightarrow>
          if c = CHR ''['' then (begin_array, lx)
          else if c = CHR '']'' then (end_array, lx)
          else if c = CHR ''{'' then (begin_object, lx)
          else if c = CHR ''}'' then (end_object, lx)
          else if c = CHR '':'' then (name_separator, lx)
          else if c = CHR '','' then (value_separator, lx)
          else if c = CHR ''t'' then scan_literal ''true'' literal_true lx
          else if c = CHR ''f'' then scan_literal ''false'' literal_false lx
          else if c = CHR ''n'' then scan_literal ''null'' literal_null lx
          else if c = CHR 0x22 then json_scan_string lx
          else if c = CHR ''-'' \<or> is_digit c then json_scan_number lx
          else if c = CHR 0x00 then (end_of_input, lx)
          else (parse_error, lexer_error ''invalid literal'' lx))"

definition scan :: "lexer \<Rightarrow> token_type \<times> lexer" where
  "scan lx =
     (case (if chars_read_total (lx_position lx) = 0 then skip_bom lx else (True, lx)) of
        (False, lx) \<Rightarrow> (parse_error, lexer_error ''invalid BOM; must be 0xEF 0xBB 0xBF if given'' lx)
      | (True, lx) \<Rightarrow>
          (case skip_comments (skip_whitespace lx) of
             (False, lx) \<Rightarrow> (parse_error, lx)
           | (True, lx) \<Rightarrow> scan_token lx))"

section \<open>Every scanner gets on\<close>

lemma remaining_scan_string_loop:
  "scan_string_loop lx = (t, lx') \<Longrightarrow> remaining lx' \<le> remaining lx"
proof (induction lx rule: scan_string_loop.induct)
  case (1 lx)
  show ?case
    using "1.prems" "1.IH" [OF refl] remaining_get_le [of lx]
    by (fastforce simp: scan_string_loop.simps [of lx] Let_def
        split: option.splits if_splits prod.splits bool.splits
        dest: remaining_scan_escape remaining_scan_plain)
qed

lemma remaining_scan_number_done:
  "scan_number_done t lx = (r, lx') \<Longrightarrow> remaining lx' = remaining (lexer_unget lx)"
  by (auto simp: scan_number_done_def Let_def split: if_splits)

lemma remaining_done_get:
  "scan_number_done t (lexer_get lx) = (r, lx') \<Longrightarrow> remaining lx' \<le> remaining lx"
  using remaining_get_unget [of lx] by (auto dest!: remaining_scan_number_done)

lemma remaining_scan_number_any2: "scan_number_any2 t lx = (r, lx') \<Longrightarrow> remaining lx' \<le> remaining lx"
proof (induction t lx rule: scan_number_any2.induct)
  case (1 t lx)
  show ?case
    using "1.prems" "1.IH" [OF refl] remaining_get_le [of lx]
    by (auto simp: scan_number_any2.simps [of t lx] Let_def split: if_splits dest!: remaining_done_get)
qed

lemma remaining_scan_number_sign: "scan_number_sign t lx = (r, lx') \<Longrightarrow> remaining lx' \<le> remaining lx"
  using remaining_get_le [of lx]
  by (auto simp: scan_number_sign_def Let_def split: if_splits dest!: remaining_scan_number_any2)

lemma remaining_scan_number_exponent: "scan_number_exponent lx = (r, lx') \<Longrightarrow> remaining lx' \<le> remaining lx"
  using remaining_get_le [of lx]
  by (auto simp: scan_number_exponent_def Let_def split: if_splits
      dest!: remaining_scan_number_any2 remaining_scan_number_sign)

lemma remaining_scan_number_decimal2: "scan_number_decimal2 t lx = (r, lx') \<Longrightarrow> remaining lx' \<le> remaining lx"
proof (induction t lx rule: scan_number_decimal2.induct)
  case (1 t lx)
  show ?case
    using "1.prems" "1.IH" [OF refl] remaining_get_le [of lx]
    by (auto simp: scan_number_decimal2.simps [of t lx] Let_def split: if_splits
        dest!: remaining_done_get remaining_scan_number_exponent)
qed

lemma remaining_scan_number_decimal1: "scan_number_decimal1 lx = (r, lx') \<Longrightarrow> remaining lx' \<le> remaining lx"
  using remaining_get_le [of lx]
  by (auto simp: scan_number_decimal1_def Let_def split: if_splits dest!: remaining_scan_number_decimal2)

lemma remaining_scan_number_any1: "scan_number_any1 t lx = (r, lx') \<Longrightarrow> remaining lx' \<le> remaining lx"
proof (induction t lx rule: scan_number_any1.induct)
  case (1 t lx)
  show ?case
    using "1.prems" "1.IH" [OF refl] remaining_get_le [of lx]
    by (auto simp: scan_number_any1.simps [of t lx] Let_def split: if_splits
        dest!: remaining_done_get remaining_scan_number_exponent remaining_scan_number_decimal1)
qed

lemma remaining_scan_number_zero: "scan_number_zero t lx = (r, lx') \<Longrightarrow> remaining lx' \<le> remaining lx"
  using remaining_get_le [of lx]
  by (auto simp: scan_number_zero_def Let_def split: if_splits
      dest!: remaining_done_get remaining_scan_number_exponent remaining_scan_number_decimal1)

lemma remaining_scan_number_minus: "scan_number_minus lx = (r, lx') \<Longrightarrow> remaining lx' \<le> remaining lx"
  using remaining_get_le [of lx]
  by (auto simp: scan_number_minus_def Let_def split: if_splits
      dest!: remaining_scan_number_zero remaining_scan_number_any1)

lemma remaining_json_scan_number: "json_scan_number lx = (r, lx') \<Longrightarrow> remaining lx' \<le> remaining lx"
  by (auto simp: json_scan_number_def Let_def split: if_splits
      dest!: remaining_scan_number_minus remaining_scan_number_zero remaining_scan_number_any1)

lemma remaining_scan_literal_rest: "scan_literal_rest cs t lx = (r, lx') \<Longrightarrow> remaining lx' \<le> remaining lx"
proof (induction cs t lx rule: scan_literal_rest.induct)
  case (2 c cs t lx)
  then show ?case using remaining_get_le [of lx] by (auto simp: Let_def split: if_splits)
qed simp

lemma remaining_scan_literal: "scan_literal cs t lx = (r, lx') \<Longrightarrow> remaining lx' \<le> remaining lx"
  by (simp only: scan_literal_def remaining_scan_literal_rest)

lemma remaining_scan_token: "scan_token lx = (r, lx') \<Longrightarrow> remaining lx' \<le> remaining lx"
  by (auto simp: scan_token_def json_scan_string_def split: option.splits if_splits
      dest!: remaining_scan_literal remaining_scan_string_loop remaining_json_scan_number)

lemma remaining_skip_bom: "skip_bom lx = (r, lx') \<Longrightarrow> remaining lx' \<le> remaining lx"
  using remaining_get_le [of lx] remaining_get_le [of "lexer_get lx"] remaining_get_unget [of lx]
    remaining_get_le [of "lexer_get (lexer_get lx)"]
  by (auto simp: skip_bom_def Let_def split: if_splits)

lemma remaining_skip_comments:
  "skip_comments lx = (r, lx') \<Longrightarrow> remaining lx' \<le> remaining lx"
proof (induction lx rule: skip_comments.induct)
  case (1 lx)
  show ?case
  proof (cases "scan_comment lx")
    case (Pair b lx1)
    then show ?thesis
      using "1.prems" "1.IH" [OF _ Pair [symmetric] _ refl] remaining_scan_comment [OF Pair]
        remaining_skip_whitespace [of lx1]
      by (auto simp: skip_comments.simps [of lx] Let_def split: if_splits bool.splits)
  qed
qed

lemma skip_comments_progress:
  "skip_comments lx = (r, lx') \<Longrightarrow> lx_current lx' = Some c \<Longrightarrow>
   lx' = lx \<or> remaining lx' < remaining lx \<or> \<not> r"
proof (induction lx rule: skip_comments.induct)
  case (1 lx)
  show ?case
  proof (cases "scan_comment lx")
    case (Pair b lx1)
    then show ?thesis
      using "1.prems" "1.IH" [OF _ Pair [symmetric] _ refl] remaining_scan_comment [OF Pair]
        remaining_skip_whitespace_less [of lx1] remaining_skip_whitespace [of lx1]
      by (auto simp: skip_comments.simps [of lx] Let_def split: if_splits bool.splits)
  qed
qed

lemma remaining_skipped:
  "skip_comments (skip_whitespace lx) = (r, lx') \<Longrightarrow> remaining lx' \<le> remaining lx"
  using remaining_skip_comments remaining_skip_whitespace order_trans by blast

lemma remaining_scan_le: "scan lx = (t, lx') \<Longrightarrow> remaining lx' \<le> remaining lx"
  by (auto simp: scan_def split: if_splits prod.splits bool.splits
      dest!: remaining_scan_token remaining_skipped remaining_skip_bom)

lemma remaining_scan_less:
  assumes "scan lx = (t, lx')" and "t \<noteq> end_of_input" and "t \<noteq> parse_error"
  shows "remaining lx' < remaining lx"
proof -
  obtain lx1 lx2 where 1: "remaining lx1 \<le> remaining lx"
    and 2: "skip_comments (skip_whitespace lx1) = (True, lx2)" and 3: "scan_token lx2 = (t, lx')"
    using assms by (auto simp: scan_def split: if_splits prod.splits bool.splits dest: remaining_skip_bom)
  obtain c where c: "lx_current lx2 = Some c"
    using 3 assms(2) by (auto simp: scan_token_def split: option.splits)
  have "remaining lx2 < remaining lx1"
    using skip_comments_progress [OF 2 c] remaining_skip_whitespace_less [of lx1 c]
      remaining_skip_whitespace [of lx1] c by auto
  with 1 remaining_scan_token [OF 3] show ?thesis by simp
qed

text \<open>
  C40: the lexer always gets on. Whatever bytes are in the stream, a call of \<open>scan\<close> takes at least one
  of them unless it reports the end of the input or an error, and never gives any back beyond what
  the call before left: so the loops of the lexer end, and the loop of the parser, which stops at
  those two tokens, is bounded by the length of its input.
\<close>

theorem scan_gets_on:
  assumes "scan lx = (t, lx')"
  shows "length (pending lx') \<le> length (pending lx) \<and>
    (t \<notin> {end_of_input, parse_error} \<longrightarrow> length (pending lx') < length (pending lx))"
  using remaining_scan_le [OF assms] remaining_scan_less [OF assms] by simp

theorem scan_gets_on_witness:
  "fst (scan (lexer_of '' ]'' False)) = end_array \<and>
   length (pending (snd (scan (lexer_of '' ]'' False)))) < length (pending (lexer_of '' ]'' False))"
proof -
  have "fst (scan (lexer_of '' ]'' False)) = end_array" by code_simp
  then show ?thesis
    using scan_gets_on [of "lexer_of '' ]'' False" "fst (scan (lexer_of '' ]'' False))"
        "snd (scan (lexer_of '' ]'' False))"] by (simp add: prod_eq_iff)
qed

end
