(* ===== verification/Json_Parser.thy ===== *)
theory Json_Parser
  imports Json_Lexer
begin

text \<open>
  The parser of the bundled JSON library (\<open>class parser\<close> and \<open>class json_sax_dom_parser\<close> of
  \<open>Cornus/include/lib/json.hpp\<close>): the loop over the tokens with its explicit stack, the events it
  sends to the tree builder, the exceptions it throws, and \<open>json::parse\<close>. The pointers of the tree
  builder into the unfinished tree are paths from its root. A path notices that its element is missing,
  not that the element has moved: that a vector which grows moves its elements cannot be said here. The
  builder only appends to the innermost container, which is the back of its stack, and keeps pointers
  to the containers around it, whose vectors do not grow meanwhile.
\<close>

section \<open>References into a document\<close>

datatype path_step = Index nat | Key string

type_synonym reference = "path_step list"

fun deref :: "reference \<Rightarrow> json \<Rightarrow> json option" where
  "deref [] j = Some j"
| "deref (Index i # p) (JArray js) = (if i < length js then deref p (js ! i) else None)"
| "deref (Key k # p) (JObject kvs) = (case map_of kvs k of None \<Rightarrow> None | Some v \<Rightarrow> deref p v)"
| "deref _ _ = None"

fun assign :: "reference \<Rightarrow> json \<Rightarrow> json \<Rightarrow> json" where
  "assign [] v j = v"
| "assign (Index i # p) v (JArray js) = JArray (js[i := assign p v (js ! i)])"
| "assign (Key k # p) v (JObject kvs) =
     JObject (map (\<lambda>(k', w). (k', if k' = k then assign p v w else w)) kvs)"
| "assign _ v j = j"

text \<open>\<open>operator[]\<close> of \<open>std::map\<close>: a missing key is inserted, in its place, with the value null.\<close>

fun map_emplace :: "string \<Rightarrow> (string \<times> json) list \<Rightarrow> (string \<times> json) list" where
  "map_emplace k [] = [(k, JNull)]"
| "map_emplace k ((k', v) # kvs) =
     (if k = k' then (k', v) # kvs
      else if k < k' then (k, JNull) # (k', v) # kvs
      else (k', v) # map_emplace k kvs)"

section \<open>The tree builder: \<open>json_sax_dom_parser\<close>\<close>

text \<open>The vector \<open>ref_stack\<close> is a list with its back first.\<close>

record dom =
  dp_root :: json
  dp_ref_stack :: "reference list"
  dp_object_element :: "reference option"

definition new_dom :: dom where
  "new_dom = \<lparr>dp_root = JNull, dp_ref_stack = [], dp_object_element = None\<rparr>"

definition handle_value :: "json \<Rightarrow> dom \<Rightarrow> (reference \<times> dom) result" where
  "handle_value v dp =
     (case dp_ref_stack dp of
        [] \<Rightarrow> Inr ([], dp\<lparr>dp_root := v\<rparr>)
      | back # _ \<Rightarrow>
          (case deref back (dp_root dp) of
             None \<Rightarrow> Inl Undefined_behaviour
           | Some (JArray js) \<Rightarrow>
               Inr (back @ [Index (length js)],
                 dp\<lparr>dp_root := assign back (JArray (js @ [v])) (dp_root dp)\<rparr>)
           | Some (JObject kvs) \<Rightarrow>
               (case dp_object_element dp of
                  None \<Rightarrow> Inl Assertion_failed
                | Some element \<Rightarrow> Inr (element, dp\<lparr>dp_root := assign element v (dp_root dp)\<rparr>))
           | Some _ \<Rightarrow> Inl Assertion_failed))"

text \<open>\<open>null\<close>, \<open>boolean\<close>, \<open>number_integer\<close>, \<open>number_unsigned\<close>, \<open>number_float\<close> and \<open>string\<close>.\<close>

definition sax_value :: "json \<Rightarrow> dom \<Rightarrow> dom result" where
  "sax_value v dp = bind_result (handle_value v dp) (\<lambda>(_, dp). Inr dp)"

definition sax_start :: "json \<Rightarrow> dom \<Rightarrow> dom result" where
  "sax_start container dp =
     bind_result (handle_value container dp) (\<lambda>(r, dp). Inr (dp\<lparr>dp_ref_stack := r # dp_ref_stack dp\<rparr>))"

abbreviation sax_start_object :: "dom \<Rightarrow> dom result" where
  "sax_start_object \<equiv> sax_start (JObject [])"

abbreviation sax_start_array :: "dom \<Rightarrow> dom result" where
  "sax_start_array \<equiv> sax_start (JArray [])"

definition sax_key :: "string \<Rightarrow> dom \<Rightarrow> dom result" where
  "sax_key k dp =
     (case dp_ref_stack dp of
        [] \<Rightarrow> Inl Assertion_failed
      | back # _ \<Rightarrow>
          (case deref back (dp_root dp) of
             Some (JObject kvs) \<Rightarrow>
               Inr (dp\<lparr>dp_root := assign back (JObject (map_emplace k kvs)) (dp_root dp),
                       dp_object_element := Some (back @ [Key k])\<rparr>)
           | Some _ \<Rightarrow> Inl Assertion_failed
           | None \<Rightarrow> Inl Undefined_behaviour))"

definition sax_end_object :: "dom \<Rightarrow> dom result" where
  "sax_end_object dp =
     (case dp_ref_stack dp of
        [] \<Rightarrow> Inl Assertion_failed
      | back # refs \<Rightarrow>
          (case deref back (dp_root dp) of
             Some (JObject _) \<Rightarrow> Inr (dp\<lparr>dp_ref_stack := refs\<rparr>)
           | Some _ \<Rightarrow> Inl Assertion_failed
           | None \<Rightarrow> Inl Undefined_behaviour))"

definition sax_end_array :: "dom \<Rightarrow> dom result" where
  "sax_end_array dp =
     (case dp_ref_stack dp of
        [] \<Rightarrow> Inl Assertion_failed
      | back # refs \<Rightarrow>
          (case deref back (dp_root dp) of
             Some (JArray _) \<Rightarrow> Inr (dp\<lparr>dp_ref_stack := refs\<rparr>)
           | Some _ \<Rightarrow> Inl Assertion_failed
           | None \<Rightarrow> Inl Undefined_behaviour))"

section \<open>Exceptions\<close>

definition exception_name :: "string \<Rightarrow> nat \<Rightarrow> string" where
  "exception_name ename i = ''[json.exception.'' @ ename @ ''.'' @ to_string_nat i @ ''] ''"

definition position_string :: "position \<Rightarrow> string" where
  "position_string p =
     '' at line '' @ to_string_nat (lines_read p + 1) @
     '', column '' @ to_string_nat (chars_read_current_line p)"

definition parse_error_create :: "nat \<Rightarrow> position \<Rightarrow> string \<Rightarrow> cxx_error" where
  "parse_error_create i p what_arg =
     Json_parse_error (chars_read_total p)
       (exception_name ''parse_error'' i @ ''parse error'' @ position_string p @ '': '' @ what_arg)"

definition out_of_range_create :: "nat \<Rightarrow> string \<Rightarrow> cxx_error" where
  "out_of_range_create i what_arg = Json_out_of_range (exception_name ''out_of_range'' i @ what_arg)"

section \<open>The parser\<close>

record parser =
  ps_last_token :: token_type
  ps_lexer :: lexer

definition get_token :: "parser \<Rightarrow> parser" where
  "get_token ps = (case scan (ps_lexer ps) of (t, lx) \<Rightarrow> \<lparr>ps_last_token = t, ps_lexer = lx\<rparr>)"

definition new_parser :: "string \<Rightarrow> bool \<Rightarrow> parser" where
  "new_parser input ignore_comments =
     get_token \<lparr>ps_last_token = uninitialized, ps_lexer = lexer_of input ignore_comments\<rparr>"

definition exception_message :: "token_type \<Rightarrow> string \<Rightarrow> parser \<Rightarrow> string" where
  "exception_message expected ctxt ps =
     ''syntax error '' @
     (if ctxt = [] then [] else ''while parsing '' @ ctxt @ '' '') @
     ''- '' @
     (if ps_last_token ps = parse_error
      then lx_error_message (ps_lexer ps) @ ''; last read: '' @ [CHR 0x27] @
        get_token_string (ps_lexer ps) @ [CHR 0x27]
      else ''unexpected '' @ token_type_name (ps_last_token ps)) @
     (if expected = uninitialized then [] else ''; expected '' @ token_type_name expected)"

text \<open>Exceptions are allowed, so every error the parser reports is thrown.\<close>

definition syntax_error :: "token_type \<Rightarrow> string \<Rightarrow> parser \<Rightarrow> cxx_error" where
  "syntax_error expected ctxt ps =
     parse_error_create 101 (lx_position (ps_lexer ps)) (exception_message expected ctxt ps)"

definition empty_input_text :: string where
  "empty_input_text =
     ''attempting to parse an empty input; check that your input string or stream contains the expected JSON''"

text \<open>
  The loop of \<open>sax_parse_internal\<close>. The stack of enclosing structures has its back first; true stands
  for an array. The first half of an iteration handles the last token: it leaves the \<open>switch\<close> (true)
  or continues with the next iteration (false).
\<close>

definition parse_object_start ::
  "bool list \<Rightarrow> parser \<Rightarrow> dom \<Rightarrow> (bool \<times> bool list \<times> parser \<times> dom) result" where
  "parse_object_start states ps dp =
     bind_result (sax_start_object dp) (\<lambda>dp.
       let ps = get_token ps
       in if ps_last_token ps = end_object
          then bind_result (sax_end_object dp) (\<lambda>dp. Inr (True, states, ps, dp))
          else if ps_last_token ps \<noteq> value_string
          then Inl (syntax_error value_string ''object key'' ps)
          else bind_result (sax_key (lx_token_buffer (ps_lexer ps)) dp) (\<lambda>dp.
            let ps = get_token ps
            in if ps_last_token ps \<noteq> name_separator
               then Inl (syntax_error name_separator ''object separator'' ps)
               else Inr (False, False # states, get_token ps, dp)))"

definition parse_array_start ::
  "bool list \<Rightarrow> parser \<Rightarrow> dom \<Rightarrow> (bool \<times> bool list \<times> parser \<times> dom) result" where
  "parse_array_start states ps dp =
     bind_result (sax_start_array dp) (\<lambda>dp.
       let ps = get_token ps
       in if ps_last_token ps = end_array
          then bind_result (sax_end_array dp) (\<lambda>dp. Inr (True, states, ps, dp))
          else Inr (False, True # states, ps, dp))"

definition parse_scalar ::
  "json \<Rightarrow> bool list \<Rightarrow> parser \<Rightarrow> dom \<Rightarrow> (bool \<times> bool list \<times> parser \<times> dom) result" where
  "parse_scalar v states ps dp = bind_result (sax_value v dp) (\<lambda>dp. Inr (True, states, ps, dp))"

definition parse_value ::
  "bool list \<Rightarrow> parser \<Rightarrow> dom \<Rightarrow> (bool \<times> bool list \<times> parser \<times> dom) result" where
  "parse_value states ps dp =
     (let lx = ps_lexer ps
      in case ps_last_token ps of
           begin_object \<Rightarrow> parse_object_start states ps dp
         | begin_array \<Rightarrow> parse_array_start states ps dp
         | value_float \<Rightarrow>
             if isfinite (lx_value_float lx) then parse_scalar (JFloat (lx_value_float lx)) states ps dp
             else Inl (out_of_range_create 406
               (''number overflow parsing '' @ [CHR 0x27] @ get_token_string lx @ [CHR 0x27]))
         | literal_false \<Rightarrow> parse_scalar (JBool False) states ps dp
         | literal_null \<Rightarrow> parse_scalar JNull states ps dp
         | literal_true \<Rightarrow> parse_scalar (JBool True) states ps dp
         | value_integer \<Rightarrow> parse_scalar (JInteger (lx_value_integer lx)) states ps dp
         | value_string \<Rightarrow> parse_scalar (JString (lx_token_buffer lx)) states ps dp
         | value_unsigned \<Rightarrow> parse_scalar (JUnsigned (lx_value_unsigned lx)) states ps dp
         | parse_error \<Rightarrow> Inl (syntax_error uninitialized ''value'' ps)
         | end_of_input \<Rightarrow>
             if chars_read_total (lx_position lx) = 1
             then Inl (parse_error_create 101 (lx_position lx) empty_input_text)
             else Inl (syntax_error literal_or_value ''value'' ps)
         | _ \<Rightarrow> Inl (syntax_error literal_or_value ''value'' ps))"

text \<open>
  The second half, after a value: \<open>None\<close> when the document is complete, otherwise whether the next
  iteration skips to this half, and the state.
\<close>

definition evaluate_array ::
  "bool list \<Rightarrow> bool list \<Rightarrow> parser \<Rightarrow> dom \<Rightarrow> (bool \<times> bool list \<times> parser \<times> dom) result" where
  "evaluate_array states outer ps dp =
     (let ps = get_token ps
      in if ps_last_token ps = value_separator then Inr (False, states, get_token ps, dp)
         else if ps_last_token ps = end_array
         then bind_result (sax_end_array dp) (\<lambda>dp. Inr (True, outer, ps, dp))
         else Inl (syntax_error end_array ''array'' ps))"

definition evaluate_object ::
  "bool list \<Rightarrow> bool list \<Rightarrow> parser \<Rightarrow> dom \<Rightarrow> (bool \<times> bool list \<times> parser \<times> dom) result" where
  "evaluate_object states outer ps dp =
     (let ps = get_token ps
      in if ps_last_token ps = value_separator then
           let ps = get_token ps
           in if ps_last_token ps \<noteq> value_string
              then Inl (syntax_error value_string ''object key'' ps)
              else bind_result (sax_key (lx_token_buffer (ps_lexer ps)) dp) (\<lambda>dp.
                let ps = get_token ps
                in if ps_last_token ps \<noteq> name_separator
                   then Inl (syntax_error name_separator ''object separator'' ps)
                   else Inr (False, states, get_token ps, dp))
         else if ps_last_token ps = end_object
         then bind_result (sax_end_object dp) (\<lambda>dp. Inr (True, outer, ps, dp))
         else Inl (syntax_error end_object ''object'' ps))"

abbreviation parser_remaining :: "parser \<Rightarrow> nat" where
  "parser_remaining ps \<equiv> remaining (ps_lexer ps)"

definition parser_weight :: "bool \<Rightarrow> parser \<Rightarrow> nat" where
  "parser_weight skip ps =
     2 * parser_remaining ps + (if skip \<or> ps_last_token ps \<in> {end_of_input, parse_error} then 0 else 1)"

lemma get_token_remaining:
  "parser_remaining (get_token ps) \<le> parser_remaining ps"
  "ps_last_token (get_token ps) \<notin> {end_of_input, parse_error} \<Longrightarrow>
   parser_remaining (get_token ps) < parser_remaining ps"
  by (cases "scan (ps_lexer ps)";
      simp add: get_token_def remaining_scan_le remaining_scan_less)+

lemma get_token_less:
  "ps_last_token (get_token ps) = t \<Longrightarrow> t \<noteq> end_of_input \<Longrightarrow> t \<noteq> parse_error \<Longrightarrow>
   parser_remaining (get_token ps) < parser_remaining ps"
  using get_token_remaining(2) by auto

lemma get_token_weight: "parser_weight False (get_token ps) \<le> 2 * parser_remaining ps"
  using get_token_remaining [of ps] by (auto simp: parser_weight_def)

lemma parse_object_start_less:
  assumes "parse_object_start states ps dp = Inr (b, states', ps', dp')"
  shows "parser_remaining ps' < parser_remaining ps"
proof -
  note le = get_token_remaining(1) [of ps] get_token_remaining(1) [of "get_token ps"]
    get_token_remaining(1) [of "get_token (get_token ps)"]
  show ?thesis
    using assms le get_token_less [of ps end_object] get_token_less [of ps value_string]
    by (auto simp: parse_object_start_def Let_def bind_result_Inr_iff split: if_splits)
qed

lemma parse_value_weight:
  assumes "parse_value states ps dp = Inr (b, states', ps', dp')"
  shows "parser_remaining ps' \<le> parser_remaining ps \<and>
    (\<not> b \<longrightarrow> parser_weight False ps' < parser_weight False ps)"
proof -
  consider "ps_last_token ps = begin_object" "parse_object_start states ps dp = Inr (b, states', ps', dp')"
    | "ps_last_token ps = begin_array" "parse_array_start states ps dp = Inr (b, states', ps', dp')"
    | "b" "ps' = ps"
    using assms
    by (auto simp: parse_value_def parse_scalar_def Let_def bind_result_Inr_iff
        split: token_type.splits if_splits)
  then show ?thesis
  proof cases
    case 1
    then show ?thesis using parse_object_start_less [OF 1(2)] by (simp add: parser_weight_def)
  next
    case 2
    then have "ps' = get_token ps"
      by (auto simp: parse_array_start_def Let_def bind_result_Inr_iff split: if_splits)
    then show ?thesis
      using get_token_remaining [of ps] get_token_weight [of ps] 2(1)
      by (simp add: parser_weight_def)
  qed simp
qed

lemma evaluate_array_less:
  assumes "evaluate_array states outer ps dp = Inr (b, states', ps', dp')"
  shows "parser_remaining ps' < parser_remaining ps"
  using assms get_token_less [of ps value_separator] get_token_less [of ps end_array]
    get_token_remaining(1) [of "get_token ps"]
  by (auto simp: evaluate_array_def Let_def bind_result_Inr_iff split: if_splits)

lemma evaluate_object_less:
  assumes "evaluate_object states outer ps dp = Inr (b, states', ps', dp')"
  shows "parser_remaining ps' < parser_remaining ps"
  using assms get_token_less [of ps value_separator] get_token_less [of ps end_object]
    get_token_remaining(1) [of "get_token ps"] get_token_remaining(1) [of "get_token (get_token ps)"]
    get_token_remaining(1) [of "get_token (get_token (get_token ps))"]
  by (auto simp: evaluate_object_def Let_def bind_result_Inr_iff split: if_splits)

lemma weight_after_evaluation:
  assumes "parser_remaining ps \<le> parser_remaining ps0"
  shows "evaluate_array states outer ps dp = Inr (b, states', ps', dp') \<Longrightarrow>
      parser_weight b ps' < parser_weight skip ps0"
    and "evaluate_object states outer ps dp = Inr (b, states', ps', dp') \<Longrightarrow>
      parser_weight b ps' < parser_weight skip ps0"
  using assms evaluate_array_less [of states outer ps dp b states' ps' dp']
    evaluate_object_less [of states outer ps dp b states' ps' dp']
  by (auto simp: parser_weight_def)

function sax_parse_internal ::
  "bool \<Rightarrow> bool list \<Rightarrow> parser \<Rightarrow> dom \<Rightarrow> (parser \<times> dom) result" where
  "sax_parse_internal skip_to_state_evaluation states ps dp =
     (case (if skip_to_state_evaluation then Inr (True, states, ps, dp) else parse_value states ps dp) of
        Inl e \<Rightarrow> Inl e
      | Inr (False, states, ps, dp) \<Rightarrow> sax_parse_internal False states ps dp
      | Inr (True, states, ps, dp) \<Rightarrow>
          (case states of
             [] \<Rightarrow> Inr (ps, dp)
           | in_array # outer \<Rightarrow>
               (case (if in_array then evaluate_array states outer ps dp
                      else evaluate_object states outer ps dp) of
                  Inl e \<Rightarrow> Inl e
                | Inr (skip, states, ps, dp) \<Rightarrow> sax_parse_internal skip states ps dp)))"
  by pat_completeness auto

termination
proof (relation "measure (\<lambda>(skip, states, ps, dp). parser_weight skip ps)", goal_cases)
  case 2
  then show ?case
    by (auto split: if_splits dest!: parse_value_weight
        intro: weight_after_evaluation weight_after_evaluation [OF order_refl])
next
  case 3
  then show ?case by (auto split: if_splits dest: parse_value_weight)
qed simp

declare sax_parse_internal.simps [simp del]

text \<open>\<open>parse\<close> of the parser, without a callback, and \<open>json::parse\<close> of a stream: strict, without comments.\<close>

definition parser_parse :: "bool \<Rightarrow> parser \<Rightarrow> json result" where
  "parser_parse strict ps =
     bind_result (sax_parse_internal False [] ps new_dom) (\<lambda>(ps, dp).
       if strict
       then let ps = get_token ps
            in if ps_last_token ps \<noteq> end_of_input then Inl (syntax_error end_of_input ''value'' ps)
               else Inr (dp_root dp)
       else Inr (dp_root dp))"

definition json_parse :: "string \<Rightarrow> json result" where
  "json_parse input = parser_parse True (new_parser input False)"

end
