(* ===== verification/Json_String.thy ===== *)
theory Json_String
  imports Json_Lexer
begin

text \<open>
  The strings and numbers that the lexer delivers: every string token is well-formed UTF-8, and the
  numbers lie in the ranges of their C++ types. UTF-8 is stated by arithmetic on code points, apart
  from the byte ranges and the bit operations of the source.
\<close>

section \<open>UTF-8\<close>

definition scalar_value :: "nat \<Rightarrow> bool" where
  "scalar_value cp \<longleftrightarrow> cp < 0xD800 \<or> 0xE000 \<le> cp \<and> cp \<le> 0x10FFFF"

definition utf8 :: "nat \<Rightarrow> nat list" where
  "utf8 cp =
     (if cp < 0x80 then [cp]
      else if cp < 0x800 then [0xC0 + cp div 64, 0x80 + cp mod 64]
      else if cp < 0x10000 then [0xE0 + cp div 4096, 0x80 + cp div 64 mod 64, 0x80 + cp mod 64]
      else [0xF0 + cp div 262144, 0x80 + cp div 4096 mod 64, 0x80 + cp div 64 mod 64, 0x80 + cp mod 64])"

definition utf8_text :: "string \<Rightarrow> bool" where
  "utf8_text s \<longleftrightarrow> (\<exists>cps. list_all scalar_value cps \<and> map code s = concat (map utf8 cps))"

lemma utf8_text_Nil [simp]: "utf8_text []"
  unfolding utf8_text_def by (intro exI [of _ "[]"]) simp

lemma utf8_text_snoc:
  assumes "utf8_text s" and "scalar_value cp" and "map code bs = utf8 cp"
  shows "utf8_text (s @ bs)"
proof -
  obtain cps where "list_all scalar_value cps" "map code s = concat (map utf8 cps)"
    using assms(1) by (auto simp: utf8_text_def)
  with assms(2,3) show ?thesis unfolding utf8_text_def by (intro exI [of _ "cps @ [cp]"]) simp
qed

section \<open>Encoding a code point\<close>

lemma or_bytes:
  "n < 32 \<Longrightarrow> 0xC0 OR n = 0xC0 + (n :: nat)" "n < 16 \<Longrightarrow> 0xE0 OR n = 0xE0 + n"
  "n < 8 \<Longrightarrow> 0xF0 OR n = 0xF0 + n" "n < 64 \<Longrightarrow> 0x80 OR n = 0x80 + n"
proof -
  have "\<forall>n\<in>set [0..<64]. (n < 32 \<longrightarrow> 0xC0 OR n = 0xC0 + (n :: nat)) \<and> (n < 16 \<longrightarrow> 0xE0 OR n = 0xE0 + n) \<and>
      (n < 8 \<longrightarrow> 0xF0 OR n = 0xF0 + n) \<and> 0x80 OR n = 0x80 + n"
    by code_simp
  then show "n < 32 \<Longrightarrow> 0xC0 OR n = 0xC0 + (n :: nat)" "n < 16 \<Longrightarrow> 0xE0 OR n = 0xE0 + n"
    "n < 8 \<Longrightarrow> 0xF0 OR n = 0xF0 + n" "n < 64 \<Longrightarrow> 0x80 OR n = 0x80 + n" by simp_all
qed

lemma and_63: "n AND 0x3F = (n :: nat) mod 64"
  using take_bit_eq_mask [of 6 n] by (simp add: take_bit_eq_mod mask_eq_exp_minus_1)

lemma codepoint_bytes_utf8: "cp \<le> 0x10FFFF \<Longrightarrow> codepoint_bytes cp = utf8 cp"
  by (simp add: codepoint_bytes_def utf8_def and_63 drop_bit_eq_div or_bytes)

lemma add_codepoint_buffer:
  "lx_token_buffer (add_codepoint cp lx) = lx_token_buffer lx @ map char_of (codepoint_bytes cp)"
proof -
  have "lx_token_buffer (fold (\<lambda>b. lexer_add (char_of b)) bs lx) = lx_token_buffer lx @ map char_of bs" for bs :: "nat list"
    by (induction bs arbitrary: lx) (simp_all add: lexer_add_def)
  then show ?thesis by (simp add: add_codepoint_def)
qed

lemma utf8_bytes: "scalar_value cp \<Longrightarrow> list_all (\<lambda>b. b < 256) (utf8 cp)"
  by (auto simp: utf8_def scalar_value_def)

lemma code_char_of: "list_all (\<lambda>b. b < 256) bs \<Longrightarrow> map code (map char_of bs) = bs"
  by (induction bs) simp_all

lemma add_codepoint_utf8:
  "utf8_text (lx_token_buffer lx) \<Longrightarrow> scalar_value cp \<Longrightarrow> utf8_text (lx_token_buffer (add_codepoint cp lx))"
proof -
  assume buffer: "utf8_text (lx_token_buffer lx)" and cp: "scalar_value cp"
  then have "codepoint_bytes cp = utf8 cp" by (intro codepoint_bytes_utf8) (auto simp: scalar_value_def)
  with utf8_text_snoc [OF buffer cp code_char_of [OF utf8_bytes [OF cp]]] show ?thesis
    by (simp only: add_codepoint_buffer)
qed

section \<open>Escapes\<close>

lemma hex_value_le: "hex_value c = Some d \<Longrightarrow> d \<le> 15"
  by (auto simp: hex_value_def split: option.splits if_splits)

lemma get_codepoint_buffer:
  "get_codepoint lx = (r, lx') \<Longrightarrow> lx_token_buffer lx' = lx_token_buffer lx"
proof -
  have "get_codepoint_from fs n lx = (r, lx') \<Longrightarrow> lx_token_buffer lx' = lx_token_buffer lx" for fs n
    by (induction fs n lx rule: get_codepoint_from.induct) (auto simp: Let_def split: option.splits)
  then show "get_codepoint lx = (r, lx') \<Longrightarrow> ?thesis" by (simp only: get_codepoint_def)
qed

lemma get_codepoint_from_le:
  "get_codepoint_from fs n lx = (Some cp, lx') \<Longrightarrow> cp \<le> n + sum_list (map (\<lambda>f. push_bit f 15) fs)"
proof (induction fs n lx rule: get_codepoint_from.induct)
  case (2 f fs n lx)
  from "2.prems" obtain d where d: "hex_value (lx_current (lexer_get lx)) = Some d"
      "get_codepoint_from fs (n + push_bit f d) (lexer_get lx) = (Some cp, lx')"
    by (auto simp: Let_def split: option.splits)
  from "2.IH" [OF refl this] have "cp \<le> n + push_bit f d + sum_list (map (\<lambda>f. push_bit f 15) fs)" .
  moreover have "push_bit f d \<le> push_bit f 15" using hex_value_le [OF d(1)] by (simp add: push_bit_eq_mult)
  ultimately show ?case by simp
qed simp

lemma get_codepoint_le: "get_codepoint lx = (Some cp, lx') \<Longrightarrow> cp \<le> 0xFFFF"
  unfolding get_codepoint_def by (drule get_codepoint_from_le) (simp add: push_bit_eq_mult)

lemma surrogate_pair_scalar:
  assumes "0xD800 \<le> c1" "c1 \<le> 0xDBFF" "0xDC00 \<le> c2" "c2 \<le> 0xDFFF"
  shows "scalar_value (push_bit 10 c1 + c2 - 0x35FDC00)"
proof -
  have "0xE000 + 0x35FDC00 \<le> c1 * 1024 + c2" "c1 * 1024 + c2 \<le> 0x10FFFF + 0x35FDC00" using assms by simp_all
  then show ?thesis by (auto simp: scalar_value_def push_bit_eq_mult)
qed

lemma scan_low_surrogate_utf8:
  assumes "scan_low_surrogate c1 lx = (True, lx')" "0xD800 \<le> c1" "c1 \<le> 0xDBFF" "utf8_text (lx_token_buffer lx)"
  shows "utf8_text (lx_token_buffer lx')"
proof -
  obtain c2 lx0 where "get_codepoint (lexer_get (lexer_get lx)) = (Some c2, lx0)"
      "0xDC00 \<le> c2" "c2 \<le> 0xDFFF" "lx' = add_codepoint (push_bit 10 c1 + c2 - 0x35FDC00) lx0"
    using assms(1) by (auto simp: scan_low_surrogate_def Let_def split: if_splits prod.splits option.splits)
  with surrogate_pair_scalar [OF assms(2,3)] assms(4) show ?thesis
    by (auto dest!: get_codepoint_buffer intro!: add_codepoint_utf8)
qed

lemma scan_unicode_escape_utf8:
  assumes "scan_unicode_escape lx = (True, lx')" "utf8_text (lx_token_buffer lx)"
  shows "utf8_text (lx_token_buffer lx')"
proof -
  obtain c1 lx0 where c1: "get_codepoint lx = (Some c1, lx0)"
    using assms(1) by (auto simp: scan_unicode_escape_def split: prod.splits option.splits)
  then have buffer: "utf8_text (lx_token_buffer lx0)"
    using assms(2) by (simp add: get_codepoint_buffer)
  show ?thesis
  proof (cases "0xD800 \<le> c1 \<and> c1 \<le> 0xDBFF")
    case True
    with c1 assms(1) scan_low_surrogate_utf8 buffer show ?thesis by (auto simp: scan_unicode_escape_def)
  next
    case False
    with c1 assms(1) get_codepoint_le [OF c1] have "lx' = add_codepoint c1 lx0" "scalar_value c1"
      by (auto simp: scan_unicode_escape_def scalar_value_def split: if_splits)
    with buffer show ?thesis by (simp add: add_codepoint_utf8)
  qed
qed

lemma utf8_text_ascii: "utf8_text s \<Longrightarrow> code c < 128 \<Longrightarrow> utf8_text (s @ [c])"
  by (rule utf8_text_snoc [of s "code c"]) (simp_all add: scalar_value_def utf8_def)

lemma scan_escape_utf8:
  "scan_escape lx = (True, lx') \<Longrightarrow> utf8_text (lx_token_buffer lx) \<Longrightarrow> utf8_text (lx_token_buffer lx')"
  by (auto simp: scan_escape_def Let_def lexer_add_def utf8_text_ascii scan_unicode_escape_utf8 split: if_splits)

section \<open>Bytes of the text\<close>

definition in_ranges :: "(nat \<times> nat) list \<Rightarrow> nat list \<Rightarrow> bool" where
  "in_ranges ranges bs = list_all2 (\<lambda>(lo, hi) b. lo \<le> b \<and> b \<le> hi) ranges bs"

lemma check_ranges_buffer:
  "check_ranges ranges lx = (True, lx') \<Longrightarrow>
   \<exists>bs. lx_token_buffer lx' = lx_token_buffer lx @ bs \<and> in_ranges ranges (map code bs)"
proof (induction ranges lx rule: check_ranges.induct)
  case (2 lo hi ranges lx)
  from "2.prems" obtain c where c: "lx_current (lexer_get lx) = Some c" "lo \<le> code c" "code c \<le> hi"
      and check: "check_ranges ranges (add_current (lexer_get lx)) = (True, lx')"
    by (auto simp: Let_def split: if_splits option.splits)
  have "\<exists>bs. lx_token_buffer lx' = lx_token_buffer (add_current (lexer_get lx)) @ bs \<and> in_ranges ranges (map code bs)"
    using "2.IH" [OF refl _ check] c by simp
  then obtain bs where "lx_token_buffer lx' = lx_token_buffer lx @ c # bs" "in_ranges ranges (map code bs)"
    using c(1) by (auto simp: lexer_add_def current_char_def)
  with c show ?case by (intro exI [of _ "c # bs"]) (simp add: in_ranges_def)
qed (simp add: in_ranges_def)

lemma div_mod_64:
  fixes a b c d :: nat
  assumes "b < 64" "c < 64" "d < 64"
  shows "(a * 64 + b) div 64 = a" "(a * 64 + b) mod 64 = b"
    "(a * 4096 + b * 64 + c) div 4096 = a" "(a * 4096 + b * 64 + c) div 64 mod 64 = b" "(a * 4096 + b * 64 + c) mod 64 = c"
    "(a * 262144 + b * 4096 + c * 64 + d) div 262144 = a" "(a * 262144 + b * 4096 + c * 64 + d) div 4096 mod 64 = b"
    "(a * 262144 + b * 4096 + c * 64 + d) div 64 mod 64 = c" "(a * 262144 + b * 4096 + c * 64 + d) mod 64 = d"
proof -
  have "(a * 4096 + b * 64 + c) div 64 = a * 64 + b"
    "(a * 262144 + b * 4096 + c * 64 + d) div 4096 = a * 64 + b"
    "(a * 262144 + b * 4096 + c * 64 + d) div 64 = a * 4096 + b * 64 + c"
    using assms by (auto intro!: div_nat_eqI)
  moreover have mod: "n mod 64 = y" if "n = 64 * x + y" "y < 64" for n x y :: nat using that by simp
  have "(a * 4096 + b * 64 + c) mod 64 = c" by (rule mod [of _ "a * 64 + b"]) (use assms in simp_all)
  moreover have "(a * 262144 + b * 4096 + c * 64 + d) mod 64 = d"
    by (rule mod [of _ "a * 4096 + b * 64 + c"]) (use assms in simp_all)
  ultimately show "(a * 64 + b) div 64 = a" "(a * 64 + b) mod 64 = b"
    "(a * 4096 + b * 64 + c) div 4096 = a" "(a * 4096 + b * 64 + c) div 64 mod 64 = b" "(a * 4096 + b * 64 + c) mod 64 = c"
    "(a * 262144 + b * 4096 + c * 64 + d) div 262144 = a" "(a * 262144 + b * 4096 + c * 64 + d) div 4096 mod 64 = b"
    "(a * 262144 + b * 4096 + c * 64 + d) div 64 mod 64 = c" "(a * 262144 + b * 4096 + c * 64 + d) mod 64 = d"
    using assms by (auto intro!: div_nat_eqI)
qed

text \<open>The bytes that the ranges allow after a first byte are the encodings of the scalar values.\<close>

lemma utf8_two: "a < 32 \<Longrightarrow> b < 64 \<Longrightarrow> 2 \<le> a \<Longrightarrow> utf8 (a * 64 + b) = [0xC0 + a, 0x80 + b]"
  by (simp add: utf8_def div_mod_64)

lemma utf8_three:
  "a < 16 \<Longrightarrow> b < 64 \<Longrightarrow> c < 64 \<Longrightarrow> 32 \<le> a * 64 + b \<Longrightarrow>
   utf8 (a * 4096 + b * 64 + c) = [0xE0 + a, 0x80 + b, 0x80 + c]"
  by (simp add: utf8_def div_mod_64)

lemma utf8_four:
  "a < 8 \<Longrightarrow> b < 64 \<Longrightarrow> c < 64 \<Longrightarrow> d < 64 \<Longrightarrow> 16 \<le> a * 64 + b \<Longrightarrow>
   utf8 (a * 262144 + b * 4096 + c * 64 + d) = [0xF0 + a, 0x80 + b, 0x80 + c, 0x80 + d]"
  by (simp add: utf8_def div_mod_64)

lemma in_ranges_simps [simp]:
  "in_ranges [] bs \<longleftrightarrow> bs = []"
  "in_ranges ((lo, hi) # ranges) bs \<longleftrightarrow> (\<exists>b bs'. bs = b # bs' \<and> lo \<le> b \<and> b \<le> hi \<and> in_ranges ranges bs')"
  by (auto simp: in_ranges_def list_all2_Cons1)

lemma utf8_ranges_sound:
  assumes "utf8_ranges b = Some ranges" and "in_ranges ranges bs"
  shows "\<exists>cp. scalar_value cp \<and> b # bs = utf8 cp"
proof -
  consider (two) "0xC2 \<le> b" "b \<le> 0xDF" "ranges = [(0x80, 0xBF)]"
    | (three) lo hi where "0xE0 \<le> b" "b \<le> 0xEF" "ranges = [(lo, hi), (0x80, 0xBF)]" "0x80 \<le> lo" "hi \<le> 0xBF"
        "b = 0xE0 \<longrightarrow> 0xA0 \<le> lo" "b = 0xED \<longrightarrow> hi \<le> 0x9F"
    | (four) lo hi where "0xF0 \<le> b" "b \<le> 0xF4" "ranges = [(lo, hi), (0x80, 0xBF), (0x80, 0xBF)]" "0x80 \<le> lo" "hi \<le> 0xBF"
        "b = 0xF0 \<longrightarrow> 0x90 \<le> lo" "b = 0xF4 \<longrightarrow> hi \<le> 0x8F"
    using assms(1) by (auto simp: utf8_ranges_def split: if_splits)
  then show ?thesis
  proof cases
    case two
    then obtain b1 where "bs = [b1]" "0x80 \<le> b1" "b1 \<le> 0xBF" using assms(2) by auto
    moreover have "scalar_value ((b - 0xC0) * 64 + (b1 - 0x80))"
      using two \<open>b1 \<le> 0xBF\<close> unfolding scalar_value_def by linarith
    ultimately show ?thesis
      using two utf8_two [of "b - 0xC0" "b1 - 0x80"] by (intro exI [of _ "(b - 0xC0) * 64 + (b1 - 0x80)"]) simp
  next
    case three
    then obtain b1 b2 where bs: "bs = [b1, b2]" "lo \<le> b1" "b1 \<le> hi" "0x80 \<le> b2" "b2 \<le> 0xBF" using assms(2) by auto
    let ?cp = "(b - 0xE0) * 4096 + (b1 - 0x80) * 64 + (b2 - 0x80)"
    consider "b < 0xED" | "b = 0xED" | "0xEE \<le> b" by linarith
    then have "scalar_value ?cp" using three bs by cases (auto simp: scalar_value_def)
    with three bs utf8_three [of "b - 0xE0" "b1 - 0x80" "b2 - 0x80"] show ?thesis
      by (intro exI [of _ ?cp]) auto
  next
    case four
    then obtain b1 b2 b3 where bs: "bs = [b1, b2, b3]" "lo \<le> b1" "b1 \<le> hi" "0x80 \<le> b2" "b2 \<le> 0xBF" "0x80 \<le> b3" "b3 \<le> 0xBF"
      using assms(2) by auto
    let ?cp = "(b - 0xF0) * 262144 + (b1 - 0x80) * 4096 + (b2 - 0x80) * 64 + (b3 - 0x80)"
    have "scalar_value ?cp" using four bs by (auto simp: scalar_value_def)
    with four bs utf8_four [of "b - 0xF0" "b1 - 0x80" "b2 - 0x80" "b3 - 0x80"] show ?thesis
      by (intro exI [of _ ?cp]) auto
  qed
qed

lemma scan_plain_utf8:
  assumes "scan_plain c lx = (True, lx')" and "lx_current lx = Some c" and "utf8_text (lx_token_buffer lx)"
  shows "utf8_text (lx_token_buffer lx')"
proof (cases "code c \<le> 0x7F")
  case True
  with assms show ?thesis by (auto simp: scan_plain_def lexer_add_def utf8_text_ascii split: if_splits)
next
  case False
  then obtain ranges where r: "utf8_ranges (code c) = Some ranges" "next_byte_in_range ranges lx = (True, lx')"
    using assms(1) by (auto simp: scan_plain_def split: if_splits option.splits)
  then obtain bs where bs: "lx_token_buffer lx' = lx_token_buffer lx @ c # bs" "in_ranges ranges (map code bs)"
    using check_ranges_buffer [of ranges "add_current lx" lx'] assms(2)
    by (auto simp: next_byte_in_range_def lexer_add_def current_char_def)
  obtain cp where "scalar_value cp" "code c # map code bs = utf8 cp" using utf8_ranges_sound [OF r(1) bs(2)] by blast
  with utf8_text_snoc [OF assms(3), of cp "c # bs"] bs(1) show ?thesis by simp
qed

lemma scan_string_loop_utf8:
  "scan_string_loop lx = (value_string, lx') \<Longrightarrow> utf8_text (lx_token_buffer lx) \<Longrightarrow> utf8_text (lx_token_buffer lx')"
proof (induction lx rule: scan_string_loop.induct)
  case (1 lx)
  let ?lx = "lexer_get lx"
  have buffer: "utf8_text (lx_token_buffer ?lx)" using "1.prems"(2) by simp
  obtain c where c: "lx_current ?lx = Some c"
    using "1.prems"(1) by (cases "lx_current ?lx") (auto simp: scan_string_loop.simps [of lx] Let_def)
  show ?case
  proof (cases "c = CHR 0x22")
    case True
    with "1.prems" c show ?thesis by (auto simp: scan_string_loop.simps [of lx] Let_def)
  next
    case False
    let ?r = "if c = CHR 0x5C then scan_escape ?lx else scan_plain c ?lx"
    obtain lx2 where lx2: "?r = (True, lx2)" "scan_string_loop lx2 = (value_string, lx')"
      using "1.prems"(1) c False by (auto simp: scan_string_loop.simps [of lx] Let_def split: prod.splits bool.splits)
    then have "utf8_text (lx_token_buffer lx2)"
      using buffer c scan_escape_utf8 scan_plain_utf8 by (auto split: if_splits)
    with "1.IH" [OF refl c False lx2(1) [symmetric] refl lx2(2)] show ?thesis by simp
  qed
qed

lemma json_scan_string_utf8: "json_scan_string lx = (value_string, lx') \<Longrightarrow> utf8_text (lx_token_buffer lx')"
  using scan_string_loop_utf8 [of "lexer_reset lx" lx'] by (simp add: json_scan_string_def lexer_reset_def)
section \<open>Numbers\<close>

definition scan_number_ends :: "token_type \<times> lexer \<Rightarrow> bool" where
  "scan_number_ends r \<longleftrightarrow> fst r = parse_error \<or> (\<exists>t lx. r = scan_number_done t lx)"

lemma scan_number_ends_simps [simp]:
  "scan_number_ends (scan_number_done t lx)" "scan_number_ends (parse_error, lx)"
  by (auto simp: scan_number_ends_def)

lemma scan_number_any2_done [simp]: "scan_number_ends (scan_number_any2 t lx)"
  by (induction t lx rule: scan_number_any2.induct) (subst scan_number_any2.simps, simp add: Let_def)

lemma scan_number_exponent_done [simp]: "scan_number_ends (scan_number_exponent lx)"
  by (simp add: scan_number_exponent_def scan_number_sign_def Let_def)

lemma scan_number_decimal2_done [simp]: "scan_number_ends (scan_number_decimal2 t lx)"
  by (induction t lx rule: scan_number_decimal2.induct) (subst scan_number_decimal2.simps, simp add: Let_def)

lemma scan_number_decimal1_done [simp]: "scan_number_ends (scan_number_decimal1 lx)"
  by (simp add: scan_number_decimal1_def Let_def)

lemma scan_number_any1_done [simp]: "scan_number_ends (scan_number_any1 t lx)"
  by (induction t lx rule: scan_number_any1.induct) (subst scan_number_any1.simps, simp add: Let_def)

lemma json_scan_number_done: "scan_number_ends (json_scan_number lx)"
  by (simp add: json_scan_number_def scan_number_minus_def scan_number_zero_def Let_def)

section \<open>Tokens\<close>

text \<open>What the parser may take from the lexer after a token.\<close>

definition token_ok :: "token_type \<Rightarrow> lexer \<Rightarrow> bool" where
  "token_ok t lx \<longleftrightarrow>
     (t = value_string \<longrightarrow> utf8_text (lx_token_buffer lx)) \<and>
     (t = value_unsigned \<longrightarrow> lx_value_unsigned lx < 2 ^ 64) \<and>
     (t = value_integer \<longrightarrow> - (2 ^ 63) \<le> lx_value_integer lx \<and> lx_value_integer lx \<le> 0) \<and>
     (t = value_float \<longrightarrow> isfinite (lx_value_float lx) \<longrightarrow> wf_double (lx_value_float lx))"

lemma token_ok_other [simp]:
  "t \<notin> {value_string, value_unsigned, value_integer, value_float} \<Longrightarrow> token_ok t lx"
  by (simp add: token_ok_def)

lemma scan_number_done_ok: "scan_number_done t lx = (t', lx') \<Longrightarrow> token_ok t' lx'"
  by (auto simp: scan_number_done_def token_ok_def Let_def strtod_wf split: if_splits)

lemma json_scan_number_ok: "json_scan_number lx = (t, lx') \<Longrightarrow> token_ok t lx'"
  using json_scan_number_done [of lx] by (auto simp: scan_number_ends_def dest: sym intro: scan_number_done_ok)

lemma scan_string_loop_token: "scan_string_loop lx = (t, lx') \<Longrightarrow> t = value_string \<or> t = parse_error"
proof (induction lx rule: scan_string_loop.induct)
  case (1 lx)
  then show ?case
    by (auto simp: scan_string_loop.simps [of lx] Let_def split: option.splits if_splits prod.splits bool.splits)
qed

lemma json_scan_string_ok: "json_scan_string lx = (t, lx') \<Longrightarrow> token_ok t lx'"
  using json_scan_string_utf8 [of lx lx'] scan_string_loop_token [of "lexer_reset lx" t lx']
  by (auto simp: json_scan_string_def token_ok_def)

lemma scan_literal_token: "scan_literal s t lx = (t', lx') \<Longrightarrow> t' = t \<or> t' = parse_error"
proof -
  have "scan_literal_rest cs t lx = (t', lx') \<Longrightarrow> t' = t \<or> t' = parse_error" for cs
    by (induction cs t lx rule: scan_literal_rest.induct) (auto simp: Let_def split: if_splits)
  then show "scan_literal s t lx = (t', lx') \<Longrightarrow> ?thesis" by (simp only: scan_literal_def)
qed

lemma scan_token_ok: "scan_token lx = (t, lx') \<Longrightarrow> token_ok t lx'"
  by (auto simp: scan_token_def json_scan_string_ok json_scan_number_ok split: option.splits if_splits
      dest: scan_literal_token)

lemma scan_ok: "scan lx = (t, lx') \<Longrightarrow> token_ok t lx'"
  by (auto simp: scan_def scan_token_ok split: prod.splits bool.splits)

end
