(* ===== verification/Json_Document.thy ===== *)
theory Json_Document
  imports Json_Parser Json_String "HOL-Library.Sublist"
begin

text \<open>
  The documents that \<open>json::parse\<close> delivers, and the references of its tree builder: the stack of
  references into the unfinished tree always leads to the containers the parser thinks it is in, so no
  assertion of the builder fails and every reference of its stack leads to an element of the tree.
\<close>

section \<open>Well-formed documents\<close>

inductive wf_json :: "json \<Rightarrow> bool" where
  "wf_json JNull"
| "wf_json (JBool b)"
| "- (2 ^ 63) \<le> i \<Longrightarrow> i \<le> 0 \<Longrightarrow> wf_json (JInteger i)"
| "n < 2 ^ 64 \<Longrightarrow> wf_json (JUnsigned n)"
| "wf_double f \<Longrightarrow> wf_json (JFloat f)"
| "utf8_text s \<Longrightarrow> wf_json (JString s)"
| "\<forall>j\<in>set js. wf_json j \<Longrightarrow> wf_json (JArray js)"
| "sorted_wrt (<) (map fst kvs) \<Longrightarrow> \<forall>kv\<in>set kvs. utf8_text (fst kv) \<and> wf_json (snd kv) \<Longrightarrow>
   wf_json (JObject kvs)"

inductive_simps wf_json_simps [simp]:
  "wf_json JNull" "wf_json (JBool b)" "wf_json (JInteger i)" "wf_json (JUnsigned n)" "wf_json (JFloat f)"
  "wf_json (JString s)" "wf_json (JArray js)" "wf_json (JObject kvs)"

lemma wf_json_assign: "wf_json j \<Longrightarrow> wf_json v \<Longrightarrow> wf_json (assign p v j)"
proof (induction p v j rule: assign.induct)
  case (2 i p v js)
  show ?case
  proof (cases "i < length js")
    case True
    with 2 have "wf_json (assign p v (js ! i))" by simp
    with "2.prems" show ?thesis by (auto dest: set_update_subset_insert [THEN subsetD])
  next
    case False
    with "2.prems" show ?thesis by (simp add: list_update_beyond)
  qed
next
  case (3 k p v kvs)
  have "map fst (map (\<lambda>(k', w). (k', if k' = k then assign p v w else w)) kvs) = map fst kvs" by auto
  with 3 show ?case by (fastforce simp del: map_map)
qed auto

lemma wf_json_deref: "wf_json j \<Longrightarrow> deref p j = Some w \<Longrightarrow> wf_json w"
proof (induction p j rule: deref.induct)
  case (3 k p kvs)
  then obtain v where "map_of kvs k = Some v" "deref p v = Some w" by (auto split: option.splits)
  with 3 show ?case by (fastforce dest: map_of_SomeD)
qed (auto split: if_splits)

lemma map_emplace_keys: "fst ` set (map_emplace k kvs) = insert k (fst ` set kvs)"
  by (induction k kvs rule: map_emplace.induct) auto

lemma map_emplace_values: "kv \<in> set (map_emplace k kvs) \<Longrightarrow> kv \<in> set kvs \<or> kv = (k, JNull)"
  by (induction k kvs rule: map_emplace.induct) (auto split: if_splits)

lemma map_emplace_sorted:
  "sorted_wrt (<) (map fst kvs) \<Longrightarrow> sorted_wrt (<) (map fst (map_emplace k kvs))"
proof (induction k kvs rule: map_emplace.induct)
  case (2 k k' v kvs)
  have keys: "set (map fst (map_emplace k kvs)) = insert k (set (map fst kvs))"
    using map_emplace_keys [of k kvs] by simp
  show ?case
  proof (cases "k = k' \<or> k < k'")
    case True
    with "2.prems" show ?thesis by (auto intro: less_trans)
  next
    case False
    then have "k' < k" by auto
    with 2 False keys show ?thesis by simp
  qed
qed simp

lemma wf_json_emplace: "wf_json (JObject kvs) \<Longrightarrow> utf8_text k \<Longrightarrow> wf_json (JObject (map_emplace k kvs))"
  by (auto simp: map_emplace_sorted dest: map_emplace_values)

section \<open>References that lead somewhere\<close>

lemma deref_append: "deref (p @ q) j = (case deref p j of None \<Rightarrow> None | Some j' \<Rightarrow> deref q j')"
  by (induction p j rule: deref.induct) (auto split: option.split)

fun container :: "bool \<Rightarrow> json \<Rightarrow> bool" where
  "container True (JArray js) \<longleftrightarrow> True"
| "container False (JObject kvs) \<longleftrightarrow> True"
| "container in_array j \<longleftrightarrow> False"

lemma container_iff:
  "container in_array j \<longleftrightarrow> (if in_array then \<exists>js. j = JArray js else \<exists>kvs. j = JObject kvs)"
  by (cases "(in_array, j)" rule: container.cases) auto

lemma deref_assign: "deref p j \<noteq> None \<Longrightarrow> deref p (assign p v j) = Some v"
proof (induction p v j rule: assign.induct)
  case (3 k p v kvs)
  have "map_of (map (\<lambda>(k', w). (k', if k' = k then assign p v w else w)) kvs) k = map_option (assign p v) (map_of kvs k)"
    by (induction kvs) auto
  with 3 show ?case by (auto split: option.splits dest: map_of_SomeD)
qed (auto split: if_splits)

text \<open>An assignment leaves the kinds of the containers above its target.\<close>

lemma container_assign:
  "strict_prefix q p \<Longrightarrow> deref p j \<noteq> None \<Longrightarrow> deref q j = Some c \<Longrightarrow> container a c \<Longrightarrow>
   \<exists>c'. deref q (assign p v j) = Some c' \<and> container a c'"
proof (induction p v j arbitrary: q rule: assign.induct)
  case (2 i p v js)
  show ?case
  proof (cases q)
    case Nil
    with "2.prems" show ?thesis by (auto simp: container_iff)
  next
    case (Cons s q')
    with "2.prems" 2(1) [of q'] show ?thesis by (auto split: if_splits)
  qed
next
  case (3 k p v kvs)
  show ?case
  proof (cases q)
    case Nil
    with "3.prems" show ?thesis by (auto simp: container_iff)
  next
    case (Cons s q')
    have "map_of (map (\<lambda>(k', w). (k', if k' = k then assign p v w else w)) kvs) k = map_option (assign p v) (map_of kvs k)"
      by (induction kvs) auto
    with Cons "3.prems" "3.IH" show ?thesis by (auto split: option.splits dest: map_of_SomeD)
  qed
qed (auto simp: strict_prefix_def)

text \<open>The stack of references against the stack of states, both with the innermost container first.\<close>

fun chain :: "bool list \<Rightarrow> reference list \<Rightarrow> json \<Rightarrow> bool" where
  "chain [] [] root \<longleftrightarrow> True"
| "chain (a # sts) (r # rs) root \<longleftrightarrow>
     (\<exists>c. deref r root = Some c \<and> container a c) \<and> (\<forall>q\<in>set rs. strict_prefix q r) \<and> chain sts rs root"
| "chain _ _ _ \<longleftrightarrow> False"

lemma chain_assign:
  "chain sts rs root \<Longrightarrow> \<forall>q\<in>set rs. strict_prefix q p \<Longrightarrow> deref p root \<noteq> None \<Longrightarrow> chain sts rs (assign p v root)"
  by (induction sts rs root rule: chain.induct) (auto dest: container_assign)

definition dom_ok :: "bool list \<Rightarrow> dom \<Rightarrow> bool" where
  "dom_ok sts dp \<longleftrightarrow> chain sts (dp_ref_stack dp) (dp_root dp) \<and> wf_json (dp_root dp)"

text \<open>Where a value may come: in an object its key has been read.\<close>

definition key_ok :: "bool list \<Rightarrow> dom \<Rightarrow> bool" where
  "key_ok sts dp \<longleftrightarrow>
     (sts \<noteq> [] \<longrightarrow> \<not> hd sts \<longrightarrow>
      (\<exists>k. dp_object_element dp = Some (hd (dp_ref_stack dp) @ [Key k]) \<and>
           deref (hd (dp_ref_stack dp) @ [Key k]) (dp_root dp) \<noteq> None))"

lemma handle_value_ok:
  assumes ok: "dom_ok sts dp" and key: "key_ok sts dp" and v: "wf_json v"
  shows "\<exists>r dp'. handle_value v dp = Inr (r, dp') \<and> dom_ok sts dp' \<and>
    dp_ref_stack dp' = dp_ref_stack dp \<and> deref r (dp_root dp') = Some v \<and>
    (\<forall>q\<in>set (dp_ref_stack dp). strict_prefix q r)"
proof (cases "dp_ref_stack dp")
  case Nil
  with ok v show ?thesis by (cases sts) (auto simp: handle_value_def dom_ok_def)
next
  case (Cons ref rs)
  with ok obtain a sts' c where st: "sts = a # sts'" "deref ref (dp_root dp) = Some c" "container a c"
      "\<forall>q\<in>set rs. strict_prefix q ref" "chain sts' rs (dp_root dp)"
    by (cases sts) (auto simp: dom_ok_def)
  have root: "wf_json (dp_root dp)" using ok by (simp add: dom_ok_def)
  show ?thesis
  proof (cases a)
    case True
    then obtain js where c: "c = JArray js" using st(3) by (auto simp: container_iff)
    let ?root = "assign ref (JArray (js @ [v])) (dp_root dp)"
    have "wf_json (JArray js)" using wf_json_deref [OF root st(2)] c by simp
    then have "wf_json ?root" using v by (intro wf_json_assign [OF root]) auto
    moreover have top: "deref ref ?root = Some (JArray (js @ [v]))" using st(2) by (simp add: deref_assign)
    moreover have "chain sts' rs ?root" using st(2,4,5) by (intro chain_assign) auto
    moreover have "deref (ref @ [Index (length js)]) ?root = Some v" by (simp add: deref_append top)
    moreover have "\<forall>q\<in>set (ref # rs). strict_prefix q (ref @ [Index (length js)])"
      using st(4) by (auto simp: strict_prefix_def)
    ultimately show ?thesis
      using Cons st True c by (simp add: handle_value_def dom_ok_def container_iff)
  next
    case False
    then obtain kvs where c: "c = JObject kvs" using st(3) by (auto simp: container_iff)
    obtain k where k: "dp_object_element dp = Some (ref @ [Key k])" "deref (ref @ [Key k]) (dp_root dp) \<noteq> None"
      using key st(1) False Cons by (auto simp: key_ok_def)
    let ?root = "assign (ref @ [Key k]) v (dp_root dp)"
    have "wf_json ?root" using root v by (rule wf_json_assign)
    moreover have "\<forall>q\<in>set (ref # rs). strict_prefix q (ref @ [Key k])"
      using st(4) by (auto simp: strict_prefix_def)
    moreover from this have "chain sts (ref # rs) ?root"
      using ok k(2) Cons by (intro chain_assign) (auto simp: dom_ok_def)
    moreover have "deref (ref @ [Key k]) ?root = Some v" using k(2) by (rule deref_assign)
    ultimately show ?thesis
      using Cons st(2) c k(1) by (simp add: handle_value_def dom_ok_def)
  qed
qed

section \<open>The events of the parser\<close>

definition dom_result :: "bool list \<Rightarrow> dom result \<Rightarrow> bool" where
  "dom_result sts r \<longleftrightarrow> (\<exists>dp. r = Inr dp \<and> dom_ok sts dp)"

lemma dom_result_Inr [simp]: "dom_result sts (Inr dp) = dom_ok sts dp"
  by (simp add: dom_result_def)

lemma sax_value_ok: "dom_ok sts dp \<Longrightarrow> key_ok sts dp \<Longrightarrow> wf_json v \<Longrightarrow> dom_result sts (sax_value v dp)"
  using handle_value_ok [of sts dp v] by (auto simp: sax_value_def bind_result_def dom_result_def)

lemma sax_start_ok:
  assumes "dom_ok sts dp" and "key_ok sts dp" and "wf_json v" and "container a v"
  shows "dom_result (a # sts) (sax_start v dp)"
  using handle_value_ok [OF assms(1-3)] assms(4)
  by (auto simp: sax_start_def bind_result_def dom_result_def dom_ok_def)

lemma dom_ok_top:
  assumes "dom_ok (a # sts) dp"
  obtains ref rs c where "dp_ref_stack dp = ref # rs" "deref ref (dp_root dp) = Some c" "container a c"
    "\<forall>q\<in>set rs. strict_prefix q ref" "chain sts rs (dp_root dp)" "wf_json (dp_root dp)"
  using assms by (cases "dp_ref_stack dp") (auto simp: dom_ok_def)

lemma sax_key_ok:
  assumes "dom_ok (False # sts) dp" and "utf8_text k"
  shows "\<exists>dp'. sax_key k dp = Inr dp' \<and> dom_ok (False # sts) dp' \<and> key_ok (False # sts) dp'"
  using assms(1)
proof (rule dom_ok_top)
  fix ref rs c
  assume top: "dp_ref_stack dp = ref # rs" "deref ref (dp_root dp) = Some c" "container False c"
    "\<forall>q\<in>set rs. strict_prefix q ref" "chain sts rs (dp_root dp)" "wf_json (dp_root dp)"
  then obtain kvs where c: "c = JObject kvs" by (auto simp: container_iff)
  let ?root = "assign ref (JObject (map_emplace k kvs)) (dp_root dp)"
  have "wf_json (JObject kvs)" using wf_json_deref [OF top(6,2)] c by simp
  then have wf: "wf_json ?root" using wf_json_emplace assms(2) top(6) by (blast intro: wf_json_assign)
  have at: "deref ref ?root = Some (JObject (map_emplace k kvs))" using top(2) by (simp add: deref_assign)
  have "chain sts rs ?root" using top(2,4,5) by (intro chain_assign) auto
  moreover have "map_of (map_emplace k kvs) k \<noteq> None"
    using map_emplace_keys [of k kvs] by (simp add: map_of_eq_None_iff)
  then have "deref (ref @ [Key k]) ?root \<noteq> None" by (auto simp: deref_append at split: option.splits)
  ultimately show ?thesis
    using top wf at c by (simp add: sax_key_def dom_ok_def key_ok_def container_iff)
qed

lemma sax_end_ok:
  "dom_ok (False # sts) dp \<Longrightarrow> dom_result sts (sax_end_object dp)"
  "dom_ok (True # sts) dp \<Longrightarrow> dom_result sts (sax_end_array dp)"
  by (erule dom_ok_top; auto simp: sax_end_object_def sax_end_array_def container_iff dom_ok_def)+

section \<open>The loop of the parser\<close>

definition json_exception :: "cxx_error \<Rightarrow> bool" where
  "json_exception e \<longleftrightarrow> (\<exists>n s. e = Json_parse_error n s) \<or> (\<exists>s. e = Json_out_of_range s)"

lemma json_exception_simps [simp]:
  "json_exception (syntax_error t s ps)" "json_exception (parse_error_create n p s)"
  "json_exception (out_of_range_create n s)"
  by (simp_all add: json_exception_def syntax_error_def parse_error_create_def out_of_range_create_def)

definition parser_ok :: "parser \<Rightarrow> bool" where
  "parser_ok ps \<longleftrightarrow> token_ok (ps_last_token ps) (ps_lexer ps)"

lemma parser_ok_get_token [simp]: "parser_ok (get_token ps)"
  by (simp add: get_token_def parser_ok_def scan_ok split: prod.split)

lemma parser_string: "parser_ok ps \<Longrightarrow> ps_last_token ps = value_string \<Longrightarrow> utf8_text (lx_token_buffer (ps_lexer ps))"
  by (simp add: parser_ok_def token_ok_def)

text \<open>The state between the halves of an iteration and between the iterations, or an exception.\<close>

definition step_ok :: "(bool \<times> bool list \<times> parser \<times> dom) result \<Rightarrow> bool" where
  "step_ok r \<longleftrightarrow>
     (case r of Inl e \<Rightarrow> json_exception e
      | Inr (b, sts, ps, dp) \<Rightarrow> parser_ok ps \<and> dom_ok sts dp \<and> (b \<or> key_ok sts dp))"

lemma step_ok_simps [simp]:
  "step_ok (Inl e) \<longleftrightarrow> json_exception e"
  "step_ok (Inr (b, sts, ps, dp)) \<longleftrightarrow> parser_ok ps \<and> dom_ok sts dp \<and> (b \<or> key_ok sts dp)"
  by (simp_all add: step_ok_def)

lemma step_ok_bind:
  "dom_result sts r \<Longrightarrow> (\<And>dp. dom_ok sts dp \<Longrightarrow> step_ok (f dp)) \<Longrightarrow> step_ok (bind_result r f)"
  by (auto simp: dom_result_def bind_result_def)

lemma key_ok_array [simp]: "key_ok (True # sts) dp" "key_ok [] dp"
  by (simp_all add: key_ok_def)

text \<open>A key, its colon and the first token of its value.\<close>

lemma read_key_ok:
  assumes "dom_ok (False # sts) dp" and "parser_ok ps" and "ps_last_token ps = value_string"
  shows "step_ok (bind_result (sax_key (lx_token_buffer (ps_lexer ps)) dp) (\<lambda>dp.
    let ps = get_token ps
    in if ps_last_token ps \<noteq> name_separator then Inl (syntax_error name_separator ''object separator'' ps)
       else Inr (False, False # sts, get_token ps, dp)))"
  using sax_key_ok [OF assms(1) parser_string [OF assms(2,3)]] by (auto simp: bind_result_def Let_def)

lemma parse_object_start_ok: "dom_ok sts dp \<Longrightarrow> key_ok sts dp \<Longrightarrow> step_ok (parse_object_start sts ps dp)"
  unfolding parse_object_start_def Let_def
  by (rule step_ok_bind [OF sax_start_ok [where a = False]])
    (auto simp: read_key_ok [unfolded Let_def] intro!: step_ok_bind [OF sax_end_ok(1)])

lemma parse_array_start_ok: "dom_ok sts dp \<Longrightarrow> key_ok sts dp \<Longrightarrow> step_ok (parse_array_start sts ps dp)"
  unfolding parse_array_start_def Let_def
  by (rule step_ok_bind [OF sax_start_ok [where a = True]]) (auto intro!: step_ok_bind [OF sax_end_ok(2)])

lemma parse_scalar_ok:
  "dom_ok sts dp \<Longrightarrow> key_ok sts dp \<Longrightarrow> parser_ok ps \<Longrightarrow> wf_json v \<Longrightarrow> step_ok (parse_scalar v sts ps dp)"
  unfolding parse_scalar_def by (rule step_ok_bind [OF sax_value_ok]) simp_all

lemma parse_value_ok:
  assumes "dom_ok sts dp" and "key_ok sts dp" and "parser_ok ps"
  shows "step_ok (parse_value sts ps dp)"
  using assms(3) parse_scalar_ok [OF assms] parse_object_start_ok [OF assms(1,2)] parse_array_start_ok [OF assms(1,2)]
  by (auto simp: parse_value_def Let_def parser_ok_def token_ok_def split: token_type.split)

lemma evaluate_array_ok: "dom_ok (True # sts) dp \<Longrightarrow> step_ok (evaluate_array (True # sts) sts ps dp)"
  by (auto simp: evaluate_array_def Let_def intro!: step_ok_bind [OF sax_end_ok(2)])

lemma evaluate_object_ok: "dom_ok (False # sts) dp \<Longrightarrow> step_ok (evaluate_object (False # sts) sts ps dp)"
  by (auto simp: evaluate_object_def Let_def read_key_ok [unfolded Let_def] intro!: step_ok_bind [OF sax_end_ok(1)])

definition document_ok :: "json result \<Rightarrow> bool" where
  "document_ok r \<longleftrightarrow> (case r of Inl e \<Rightarrow> json_exception e | Inr j \<Rightarrow> wf_json j)"

text \<open>The two halves of an iteration, for the cases of the loop.\<close>

abbreviation first_half where
  "first_half skip sts ps dp \<equiv> (if skip then Inr (True, sts, ps, dp) else parse_value sts ps dp)"

abbreviation second_half where
  "second_half a sts outer ps dp \<equiv>
     (if a then evaluate_array sts outer ps dp else evaluate_object sts outer ps dp)"

lemma sax_parse_internal_cases:
  "first_half skip sts ps dp = Inl e \<Longrightarrow> sax_parse_internal skip sts ps dp = Inl e"
  "first_half skip sts ps dp = Inr (False, sts', ps', dp') \<Longrightarrow>
   sax_parse_internal skip sts ps dp = sax_parse_internal False sts' ps' dp'"
  "first_half skip sts ps dp = Inr (True, [], ps', dp') \<Longrightarrow> sax_parse_internal skip sts ps dp = Inr (ps', dp')"
  "first_half skip sts ps dp = Inr (True, a # outer, ps', dp') \<Longrightarrow>
   sax_parse_internal skip sts ps dp =
     bind_result (second_half a (a # outer) outer ps' dp')
       (\<lambda>(skip, sts, ps, dp). sax_parse_internal skip sts ps dp)"
  by (subst sax_parse_internal.simps, simp only: sum.case prod.case bool.case list.case bind_result_def)+

abbreviation document_of :: "(parser \<times> dom) result \<Rightarrow> json result" where
  "document_of \<equiv> map_sum id (dp_root \<circ> snd)"

lemma sax_parse_internal_ok:
  "dom_ok sts dp \<Longrightarrow> parser_ok ps \<Longrightarrow> skip \<or> key_ok sts dp \<Longrightarrow>
   document_ok (document_of (sax_parse_internal skip sts ps dp))"
proof (induction skip sts ps dp rule: sax_parse_internal.induct)
  case (1 skip sts ps dp)
  have first: "step_ok (first_half skip sts ps dp)" using "1.prems" parse_value_ok by auto
  consider (error) e where "first_half skip sts ps dp = Inl e"
    | (go) sts' ps' dp' where "first_half skip sts ps dp = Inr (False, sts', ps', dp')"
    | (complete) ps' dp' where "first_half skip sts ps dp = Inr (True, [], ps', dp')"
    | (eval) a outer ps' dp' where "first_half skip sts ps dp = Inr (True, a # outer, ps', dp')"
    by (cases "first_half skip sts ps dp") (metis (full_types) list.exhaust prod_cases4)+
  then show ?case
  proof cases
    case error
    from sax_parse_internal_cases(1) [OF this] first [unfolded error] show ?thesis by (simp add: document_ok_def)
  next
    case go
    have "document_ok (document_of (sax_parse_internal False sts' ps' dp'))"
      by (rule "1.IH"(2) [OF go refl refl refl refl]) (use first [unfolded go] in simp_all)
    then show ?thesis by (simp only: sax_parse_internal_cases(2) [OF go])
  next
    case complete
    from sax_parse_internal_cases(3) [OF this] first [unfolded complete] show ?thesis
      by (simp add: document_ok_def dom_ok_def)
  next
    case eval
    have second: "step_ok (second_half a (a # outer) outer ps' dp')"
      using first [unfolded eval] evaluate_array_ok evaluate_object_ok by (cases a) simp_all
    show ?thesis
    proof (cases "second_half a (a # outer) outer ps' dp'")
      case (Inl e)
      from sax_parse_internal_cases(4) [OF eval, unfolded Inl] second [unfolded Inl] show ?thesis
        by (simp add: document_ok_def bind_result_def)
    next
      case (Inr y)
      obtain b sts2 ps2 dp2 where y: "y = (b, sts2, ps2, dp2)" by (cases y)
      note e = Inr [unfolded y]
      have "document_ok (document_of (sax_parse_internal b sts2 ps2 dp2))"
        by (rule "1.IH"(1) [OF eval refl refl refl refl refl e refl refl refl]) (use second [unfolded e] in simp_all)
      then show ?thesis
        by (simp only: sax_parse_internal_cases(4) [OF eval, unfolded e] bind_result_def sum.case prod.case)
    qed
  qed
qed

lemma json_parse_ok: "document_ok (json_parse input)"
proof -
  have "dom_ok [] new_dom" by (simp add: dom_ok_def new_dom_def)
  then have "document_ok (map_sum id (dp_root \<circ> snd) (sax_parse_internal False [] (new_parser input False) new_dom))"
    by (rule sax_parse_internal_ok) (simp_all add: new_parser_def)
  then show ?thesis
    by (auto simp: json_parse_def parser_parse_def bind_result_def document_ok_def Let_def split: sum.splits prod.splits)
qed

text \<open>
  C25: every document that \<open>json::parse\<close> returns is well formed: its strings and keys are well-formed
  UTF-8 whatever bytes and escapes the text has, the keys of an object are in strictly ascending order,
  the integers fit their 64-bit types and the doubles are finite.
\<close>

theorem json_parse_well_formed:
  assumes "json_parse input = Inr j"
  shows "wf_json j"
  using json_parse_ok [of input] assms by (simp add: document_ok_def)

definition sample_text :: string where
  "sample_text = ''{'' @ [CHR 0x22] @ ''b'' @ [CHR 0x22] @ '': [1, -2, true], '' @
     [CHR 0x22] @ ''a'' @ [CHR 0x22] @ '': '' @ [CHR 0x22, CHR 0x5C] @ ''u20AC'' @ [CHR 0x22] @ ''}''"

theorem json_parse_well_formed_witness:
  "wf_json (JObject [(''a'', JString [CHR 0xE2, CHR 0x82, CHR 0xAC]),
     (''b'', JArray [JUnsigned 1, JInteger (- 2), JBool True])])"
proof (rule json_parse_well_formed)
  show "json_parse sample_text = Inr (JObject [(''a'', JString [CHR 0xE2, CHR 0x82, CHR 0xAC]),
     (''b'', JArray [JUnsigned 1, JInteger (- 2), JBool True])])"
    by code_simp
qed

text \<open>
  C26: on every text, however malformed, \<open>json::parse\<close> fails only with its own exceptions: no assertion
  of the tree builder fails, and every reference of its stack leads to an element of the unfinished tree
  when it is used (references are paths here).
\<close>

theorem json_parse_fails_cleanly:
  assumes "json_parse input = Inl e"
  shows "(\<exists>n s. e = Json_parse_error n s) \<or> (\<exists>s. e = Json_out_of_range s)"
  using json_parse_ok [of input] assms by (simp add: document_ok_def json_exception_def)

theorem json_parse_fails_cleanly_witness:
  "\<exists>e. json_parse ''[1}'' = Inl e \<and> ((\<exists>n s. e = Json_parse_error n s) \<or> (\<exists>s. e = Json_out_of_range s))"
proof -
  have "isl (json_parse ''[1}'')" by code_simp
  then obtain e where "json_parse ''[1}'' = Inl e" by (auto simp: isl_def)
  with json_parse_fails_cleanly [OF this] show ?thesis by blast
qed

end
