(* ===== verification/Json_Number.thy ===== *)
theory Json_Number
  imports Json_Lexer
begin

text \<open>
  The number scanner against the grammar of numbers of RFC 8259: which texts it accepts, how far it
  reads, and the value it stores. First the view of the lexer that the correctness proofs of the
  scanners share: the characters still to come, through \<open>get\<close> and \<open>unget\<close>.
\<close>

section \<open>Reading from a lexer\<close>

abbreviation total :: "lexer \<Rightarrow> nat" where
  "total lx \<equiv> chars_read_total (lx_position lx)"

text \<open>The end of the file can be put back only when the stream is really empty.\<close>

definition ready :: "lexer \<Rightarrow> bool" where
  "ready lx \<longleftrightarrow> (lx_next_unget lx \<longrightarrow> lx_current lx = None \<longrightarrow> lx_input lx = [])"

definition first_char :: "string \<Rightarrow> char option" where
  "first_char s = (case s of [] \<Rightarrow> None | c # _ \<Rightarrow> Some c)"

lemma first_char_simps [simp]:
  "first_char [] = None" "first_char (c # s) = Some c" "first_char s = None \<longleftrightarrow> s = []"
  by (simp_all add: first_char_def split: list.split)

lemma ready_get [simp]: "ready (lexer_get lx)"
  by (simp add: ready_def)

lemma ready_simps [simp]:
  "ready (lexer_add c lx) = ready lx" "ready (lexer_reset lx) = ready lx"
  "ready (lx\<lparr>lx_error_message := m\<rparr>) = ready lx"
  "ready (lx\<lparr>lx_value_integer := i\<rparr>) = ready lx"
  "ready (lx\<lparr>lx_value_unsigned := n\<rparr>) = ready lx"
  "ready (lx\<lparr>lx_value_float := f\<rparr>) = ready lx"
  by (simp_all add: ready_def lexer_add_def lexer_reset_def)

lemma get_reads:
  assumes "ready lx"
  shows "lx_current (lexer_get lx) = first_char (pending lx)"
    and "pending (lexer_get lx) = tl (pending lx)"
  using assms
  by (auto simp: ready_def lexer_get_def pending_def get_character_def Let_def
      split: list.split option.split)

lemma total_get [simp]: "total (lexer_get lx) = total lx + 1"
  by (simp add: lexer_get_def count_char_def Let_def split: prod.split)

lemma total_unget [simp]: "total (lexer_unget lx) = total lx - 1"
  by (simp add: lexer_unget_def uncount_char_def Let_def)

lemma unget_get:
  assumes "ready lx"
  shows "pending (lexer_unget (lexer_get lx)) = pending lx" and "ready (lexer_unget (lexer_get lx))"
  using assms
  by (auto simp: ready_def lexer_get_def lexer_unget_def pending_def get_character_def Let_def
      split: list.split option.split)

lemma unget_simps [simp]:
  "lx_token_buffer (lexer_unget lx) = lx_token_buffer lx"
  "lx_ignore_comments (lexer_unget lx) = lx_ignore_comments lx"
  by (simp_all add: lexer_unget_def)

text \<open>Scanners move on: the count of read characters does not fall and the options stay.\<close>

definition follows :: "lexer \<Rightarrow> lexer \<Rightarrow> bool" where
  "follows lx lx' \<longleftrightarrow> total lx \<le> total lx' \<and> lx_ignore_comments lx' = lx_ignore_comments lx"

lemma follows_refl [simp]: "follows lx lx"
  by (simp add: follows_def)

lemma follows_trans: "follows lx lx' \<Longrightarrow> follows lx' lx'' \<Longrightarrow> follows lx lx''"
  by (simp add: follows_def)

lemma follows_simps [simp]:
  "follows lx (lexer_get lx)"
  "follows lx (lexer_unget (lexer_get lx))"
  "follows lx (lexer_add c lx') = follows lx lx'"
  "follows (lexer_add c lx) lx' = follows lx lx'"
  "follows lx (lexer_reset lx') = follows lx lx'"
  "follows (lexer_reset lx) lx' = follows lx lx'"
  "follows lx (lx'\<lparr>lx_error_message := m\<rparr>) = follows lx lx'"
  "follows lx (lx'\<lparr>lx_value_integer := i\<rparr>) = follows lx lx'"
  "follows lx (lx'\<lparr>lx_value_unsigned := n\<rparr>) = follows lx lx'"
  "follows lx (lx'\<lparr>lx_value_float := f\<rparr>) = follows lx lx'"
  by (simp_all add: follows_def)

lemma follows_get: "follows (lexer_get lx) lx' \<Longrightarrow> follows lx lx'"
  by (rule follows_trans [OF follows_simps(1)])

section \<open>The grammar of numbers\<close>

definition digits1 :: "string \<Rightarrow> bool" where
  "digits1 ds \<longleftrightarrow> ds \<noteq> [] \<and> list_all is_digit ds"

definition int_part :: "string \<Rightarrow> bool" where
  "int_part s \<longleftrightarrow> s = ''0'' \<or> digits1 s \<and> hd s \<noteq> CHR ''0''"

definition frac_part :: "string \<Rightarrow> bool" where
  "frac_part s \<longleftrightarrow> s = [] \<or> (\<exists>ds. s = CHR ''.'' # ds \<and> digits1 ds)"

definition exp_part :: "string \<Rightarrow> bool" where
  "exp_part s \<longleftrightarrow> s = [] \<or>
     (\<exists>e sg ds. s = e # sg @ ds \<and> e \<in> exponent_chars \<and> sg \<in> {[], ''+'', ''-''} \<and> digits1 ds)"

definition json_number :: "string \<Rightarrow> bool" where
  "json_number s \<longleftrightarrow>
     (\<exists>sg i f e. s = sg @ i @ f @ e \<and> sg \<in> {[], ''-''} \<and> int_part i \<and> frac_part f \<and> exp_part e)"

text \<open>The value of a number: an integer when it is written as one and fits, otherwise a double.\<close>

definition number_value :: "string \<Rightarrow> json" where
  "number_value s =
     (if list_all is_digit s \<and> digits_value s < 2 ^ 64 then JUnsigned (digits_value s)
      else if hd s = CHR ''-'' \<and> list_all is_digit (tl s) \<and> digits_value (tl s) \<le> 2 ^ 63
      then JInteger (- int (digits_value (tl s)))
      else JFloat (strtod s))"

section \<open>The longest number at the start of a text\<close>

definition munch_exponent :: "string \<Rightarrow> (string \<times> string) option" where
  "munch_exponent s =
     (let (sg, s') = (if first_char s \<in> {Some (CHR ''+''), Some (CHR ''-'')} then (take 1 s, tl s) else ([], s));
          ds = takeWhile is_digit s'
      in if ds = [] then None else Some (sg @ ds, dropWhile is_digit s'))"

definition munch_exp_part :: "string \<Rightarrow> (string \<times> string) option" where
  "munch_exp_part s =
     (if first_char s \<in> Some ` exponent_chars
      then map_option (\<lambda>(x, rest). (hd s # x, rest)) (munch_exponent (tl s)) else Some ([], s))"

definition munch_frac_part :: "string \<Rightarrow> (string \<times> string) option" where
  "munch_frac_part s =
     (if first_char s = Some (CHR ''.'')
      then let ds = takeWhile is_digit (tl s)
           in if ds = [] then None else Some (CHR ''.'' # ds, dropWhile is_digit (tl s))
      else Some ([], s))"

definition munch_tail :: "string \<Rightarrow> (string \<times> string) option" where
  "munch_tail s =
     (case munch_frac_part s of
        None \<Rightarrow> None
      | Some (f, s') \<Rightarrow> map_option (\<lambda>(e, rest). (f @ e, rest)) (munch_exp_part s'))"

definition munch_int :: "string \<Rightarrow> (string \<times> string) option" where
  "munch_int s =
     (if first_char s = Some (CHR ''0'') then Some (''0'', tl s)
      else let ds = takeWhile is_digit s in if ds = [] then None else Some (ds, dropWhile is_digit s))"

definition munch_number :: "string \<Rightarrow> (string \<times> string) option" where
  "munch_number s =
     (let (sg, s') = (if first_char s = Some (CHR ''-'') then (''-'', tl s) else ([], s))
      in case munch_int s' of
           None \<Rightarrow> None
         | Some (i, s'') \<Rightarrow> map_option (\<lambda>(x, rest). (sg @ i @ x, rest)) (munch_tail s''))"

section \<open>The states of the scanner\<close>

text \<open>
  \<open>ends_as r t b rest lx\<close>: from \<open>lx\<close> the scanner reaches its final state with type \<open>t\<close> and text \<open>b\<close>,
  just after reading the first character of \<open>rest\<close>.
\<close>

definition ends_as :: "token_type \<times> lexer \<Rightarrow> token_type \<Rightarrow> string \<Rightarrow> string \<Rightarrow> lexer \<Rightarrow> bool" where
  "ends_as r t b rest lx \<longleftrightarrow>
     (\<exists>lx0. ready lx0 \<and> pending lx0 = rest \<and> lx_token_buffer lx0 = b \<and> follows lx lx0 \<and>
        r = scan_number_done t (lexer_get lx0))"

lemma ends_as_done:
  "ready lx \<Longrightarrow> ends_as (scan_number_done t (lexer_get lx)) t (lx_token_buffer lx) (pending lx) lx"
  unfolding ends_as_def by (intro exI [of _ lx]) simp

lemma ends_as_get: "ends_as r t b rest (lexer_get lx) \<Longrightarrow> ends_as r t b rest lx"
  unfolding ends_as_def using follows_get by blast

lemma ends_as_add [simp]: "ends_as r t b rest (lexer_add c lx) = ends_as r t b rest lx"
  and ends_as_reset [simp]: "ends_as r t b rest (lexer_reset lx) = ends_as r t b rest lx"
  by (simp_all add: ends_as_def)

lemma at_digit_get: "ready lx \<Longrightarrow> at_digit (lexer_get lx) \<longleftrightarrow> pending lx \<noteq> [] \<and> is_digit (hd (pending lx))"
  by (cases "pending lx") (simp_all add: at_digit_def get_reads)

lemma at_char_get: "ready lx \<Longrightarrow> at_char cs (lexer_get lx) \<longleftrightarrow> first_char (pending lx) \<in> Some ` cs"
  by (cases "pending lx") (auto simp: at_char_def get_reads)

lemma current_char_get: "ready lx \<Longrightarrow> pending lx \<noteq> [] \<Longrightarrow> current_char (lexer_get lx) = hd (pending lx)"
  by (cases "pending lx") (simp_all add: current_char_def get_reads)

lemma takeWhile_digits:
  "s \<noteq> [] \<Longrightarrow> is_digit (hd s) \<Longrightarrow> takeWhile is_digit s = hd s # takeWhile is_digit (tl s)"
  "s \<noteq> [] \<Longrightarrow> is_digit (hd s) \<Longrightarrow> dropWhile is_digit s = dropWhile is_digit (tl s)"
  "s = [] \<or> \<not> is_digit (hd s) \<Longrightarrow> takeWhile is_digit s = []"
  "s = [] \<or> \<not> is_digit (hd s) \<Longrightarrow> dropWhile is_digit s = s"
  by (cases s; simp)+

lemma scan_number_any2_ends:
  "ready lx \<Longrightarrow> ends_as (scan_number_any2 t lx) t
     (lx_token_buffer lx @ takeWhile is_digit (pending lx)) (dropWhile is_digit (pending lx)) lx"
proof (induction t lx rule: scan_number_any2.induct)
  case (1 t lx)
  show ?case
  proof (cases "at_digit (lexer_get lx)")
    case True
    then have d: "pending lx \<noteq> []" "is_digit (hd (pending lx))" using "1.prems" by (simp_all add: at_digit_get)
    have "ends_as (scan_number_any2 t (add_current (lexer_get lx))) t
        (lx_token_buffer lx @ takeWhile is_digit (pending lx)) (dropWhile is_digit (pending lx)) (lexer_get lx)"
      using "1.IH" [OF refl True] "1.prems" d by (simp add: get_reads current_char_get takeWhile_digits)
    with True show ?thesis by (simp add: scan_number_any2.simps [of t lx] Let_def ends_as_get)
  next
    case False
    then have "pending lx = [] \<or> \<not> is_digit (hd (pending lx))" using "1.prems" by (auto simp: at_digit_get)
    with False ends_as_done [OF "1.prems", of t] show ?thesis
      by (simp add: scan_number_any2.simps [of t lx] Let_def takeWhile_digits)
  qed
qed

text \<open>The result of a state against the longest match of the text.\<close>

definition matches :: "token_type \<times> lexer \<Rightarrow> token_type \<Rightarrow> (string \<times> string) option \<Rightarrow> lexer \<Rightarrow> bool" where
  "matches r t m lx \<longleftrightarrow>
     (case m of None \<Rightarrow> fst r = parse_error
      | Some (x, rest) \<Rightarrow> ends_as r t (lx_token_buffer lx @ x) rest lx)"

lemma matches_None [simp]: "matches (t', lx') t None lx \<longleftrightarrow> t' = parse_error"
  by (simp add: matches_def)

lemma matches_Some: "matches r t (Some (x, rest)) lx \<longleftrightarrow> ends_as r t (lx_token_buffer lx @ x) rest lx"
  by (simp add: matches_def)

text \<open>A state that has added the character \<open>c\<close> and goes on with another state.\<close>

lemma matches_next:
  assumes "matches r t m (lexer_add c (lexer_get lx))"
  shows "matches r t (map_option (\<lambda>(x, rest). (c # x, rest)) m) lx"
  using assms by (cases m) (auto simp: matches_def ends_as_get)

lemma digit_states:
  assumes "ready lx" and "at_digit (lexer_get lx)"
  shows "ends_as (scan_number_any2 t (add_current (lexer_get lx))) t
    (lx_token_buffer lx @ takeWhile is_digit (pending lx)) (dropWhile is_digit (pending lx)) lx"
proof -
  have d: "pending lx \<noteq> []" "is_digit (hd (pending lx))" using assms by (simp_all add: at_digit_get)
  have "ready (add_current (lexer_get lx))" by simp
  from scan_number_any2_ends [OF this, of t] show ?thesis
    using assms(1) d by (simp add: get_reads current_char_get takeWhile_digits ends_as_get)
qed

definition munch_digits :: "string \<Rightarrow> (string \<times> string) option" where
  "munch_digits s =
     (let ds = takeWhile is_digit s in if ds = [] then None else Some (ds, dropWhile is_digit s))"

lemma munch_digits_None: "munch_digits s = None \<longleftrightarrow> s = [] \<or> \<not> is_digit (hd s)"
  by (cases s) (simp_all add: munch_digits_def)

lemma munch_digits_Some:
  "s \<noteq> [] \<Longrightarrow> is_digit (hd s) \<Longrightarrow> munch_digits s = Some (takeWhile is_digit s, dropWhile is_digit s)"
  by (cases s) (simp_all add: munch_digits_def)

lemma munch_defs_digits:
  "munch_exponent s =
     (if first_char s \<in> {Some (CHR ''+''), Some (CHR ''-'')}
      then map_option (\<lambda>(x, rest). (hd s # x, rest)) (munch_digits (tl s)) else munch_digits s)"
  "munch_frac_part s =
     (if first_char s = Some (CHR ''.'')
      then map_option (\<lambda>(x, rest). (CHR ''.'' # x, rest)) (munch_digits (tl s)) else Some ([], s))"
  "munch_int s = (if first_char s = Some (CHR ''0'') then Some (''0'', tl s) else munch_digits s)"
  by (cases s; auto simp: munch_exponent_def munch_frac_part_def munch_int_def munch_digits_def Let_def)+

lemma scan_number_sign_matches:
  assumes "ready lx"
  shows "matches (scan_number_sign t lx) t (munch_digits (pending lx)) lx"
proof (cases "at_digit (lexer_get lx)")
  case True
  with digit_states [OF assms True, of t] show ?thesis
    using assms by (simp add: scan_number_sign_def Let_def at_digit_get munch_digits_Some matches_Some)
next
  case False
  then have "munch_digits (pending lx) = None" using assms by (auto simp: at_digit_get munch_digits_None)
  with False show ?thesis by (simp add: scan_number_sign_def Let_def)
qed

lemma first_char_Some: "first_char s = Some c \<longleftrightarrow> (\<exists>s'. s = c # s')"
  by (cases s) auto

lemma not_digit_chars [simp]:
  "\<not> is_digit (CHR ''+'')" "\<not> is_digit (CHR ''-'')" "\<not> is_digit (CHR ''.'')" "\<not> is_digit (CHR ''e'')"
  "\<not> is_digit (CHR ''E'')" "is_digit (CHR ''0'')"
  by (simp_all add: is_digit_def)

lemma scan_number_exponent_matches:
  assumes "ready lx"
  shows "matches (scan_number_exponent lx) value_float (munch_exponent (pending lx)) lx"
proof (cases "at_char {CHR ''+'', CHR ''-''} (lexer_get lx)")
  case True
  then obtain c s where s: "pending lx = c # s" "c \<in> {CHR ''+'', CHR ''-''}"
    using assms by (auto simp: at_char_get first_char_Some)
  have "ready (add_current (lexer_get lx))" by simp
  from scan_number_sign_matches [OF this, of value_float] True s assms show ?thesis
    by (auto simp: scan_number_exponent_def Let_def munch_defs_digits get_reads current_char_get intro!: matches_next)
next
  case False
  then have plain: "munch_exponent (pending lx) = munch_digits (pending lx)"
    using assms by (auto simp: at_char_get munch_defs_digits)
  show ?thesis
  proof (cases "at_digit (lexer_get lx)")
    case True
    with digit_states [OF assms True, of value_float] False show ?thesis
      using assms by (simp add: scan_number_exponent_def Let_def plain at_digit_get munch_digits_Some matches_Some)
  next
    case no_digit: False
    then have "munch_digits (pending lx) = None" using assms by (auto simp: at_digit_get munch_digits_None)
    with no_digit False show ?thesis by (simp add: scan_number_exponent_def Let_def plain)
  qed
qed

text \<open>The two states that end a number or go on with its exponent.\<close>

lemma exponent_step:
  assumes "ready lx" and "at_char exponent_chars (lexer_get lx)"
  shows "matches (scan_number_exponent (add_current (lexer_get lx))) value_float (munch_exp_part (pending lx)) lx"
proof -
  obtain c s where s: "pending lx = c # s" "c \<in> exponent_chars"
    using assms by (auto simp: at_char_get first_char_Some)
  have "ready (add_current (lexer_get lx))" by simp
  from scan_number_exponent_matches [OF this] s assms(1) show ?thesis
    by (auto simp: munch_exp_part_def get_reads current_char_get intro!: matches_next)
qed

lemma no_exponent:
  "ready lx \<Longrightarrow> \<not> at_char exponent_chars (lexer_get lx) \<Longrightarrow> munch_exp_part (pending lx) = Some ([], pending lx)"
  by (simp add: at_char_get munch_exp_part_def)

lemma scan_number_decimal2_matches:
  "ready lx \<Longrightarrow> matches (scan_number_decimal2 value_float lx) value_float
     (map_option (\<lambda>(x, rest). (takeWhile is_digit (pending lx) @ x, rest))
       (munch_exp_part (dropWhile is_digit (pending lx)))) lx"
proof (induction value_float lx rule: scan_number_decimal2.induct)
  case (1 lx)
  note prems = "1.prems"
  show ?case
  proof (cases "at_digit (lexer_get lx)")
    case True
    then have d: "pending lx \<noteq> []" "is_digit (hd (pending lx))" using prems by (simp_all add: at_digit_get)
    let ?m = "map_option (\<lambda>(x, rest). (takeWhile is_digit (tl (pending lx)) @ x, rest))
       (munch_exp_part (dropWhile is_digit (pending lx)))"
    have "matches (scan_number_decimal2 value_float (add_current (lexer_get lx))) value_float ?m
        (lexer_add (hd (pending lx)) (lexer_get lx))"
      using "1.hyps" [OF refl True] prems d by (simp add: get_reads current_char_get takeWhile_digits)
    from matches_next [OF this] True prems d show ?thesis
      by (cases "munch_exp_part (dropWhile is_digit (tl (pending lx)))")
        (auto simp: scan_number_decimal2.simps [of value_float lx] Let_def takeWhile_digits)
  next
    case False
    then have "pending lx = [] \<or> \<not> is_digit (hd (pending lx))" using prems by (auto simp: at_digit_get)
    then have "takeWhile is_digit (pending lx) = []" "dropWhile is_digit (pending lx) = pending lx"
      by (simp_all add: takeWhile_digits)
    then show ?thesis
      using False prems exponent_step [OF prems] no_exponent [OF prems] ends_as_done [OF prems, of value_float]
      by (cases "munch_exp_part (pending lx)")
        (auto simp: scan_number_decimal2.simps [of value_float lx] Let_def matches_Some)
  qed
qed

lemma scan_number_decimal1_matches:
  assumes "ready lx"
  shows "matches (scan_number_decimal1 lx) value_float
    (case munch_digits (pending lx) of None \<Rightarrow> None
     | Some (f, s) \<Rightarrow> map_option (\<lambda>(x, rest). (f @ x, rest)) (munch_exp_part s)) lx"
proof (cases "at_digit (lexer_get lx)")
  case True
  then have d: "pending lx \<noteq> []" "is_digit (hd (pending lx))" using assms by (simp_all add: at_digit_get)
  have "ready (add_current (lexer_get lx))" by simp
  from scan_number_decimal2_matches [OF this] have
    "matches (scan_number_decimal2 value_float (add_current (lexer_get lx))) value_float
      (map_option (\<lambda>(x, rest). (takeWhile is_digit (tl (pending lx)) @ x, rest))
       (munch_exp_part (dropWhile is_digit (pending lx)))) (lexer_add (hd (pending lx)) (lexer_get lx))"
    using assms d by (simp add: get_reads current_char_get takeWhile_digits)
  from matches_next [OF this] True assms d show ?thesis
    by (cases "munch_exp_part (dropWhile is_digit (tl (pending lx)))")
      (auto simp: scan_number_decimal1_def Let_def munch_digits_Some takeWhile_digits)
next
  case False
  then have "munch_digits (pending lx) = None" using assms by (auto simp: at_digit_get munch_digits_None)
  with False show ?thesis by (simp add: scan_number_decimal1_def Let_def)
qed

text \<open>Behind the integer digits: a fraction, an exponent or the end.\<close>

definition tail_type :: "token_type \<Rightarrow> string \<Rightarrow> token_type" where
  "tail_type t x = (if x = [] then t else value_float)"

definition tail_matches :: "token_type \<times> lexer \<Rightarrow> token_type \<Rightarrow> string \<Rightarrow> (string \<times> string) option \<Rightarrow> lexer \<Rightarrow> bool" where
  "tail_matches r t ds m lx \<longleftrightarrow>
     (case m of None \<Rightarrow> fst r = parse_error
      | Some (x, rest) \<Rightarrow> ends_as r (tail_type t x) (lx_token_buffer lx @ ds @ x) rest lx)"

lemma frac_step:
  assumes "ready lx" and "at_char {CHR ''.''} (lexer_get lx)"
  shows "tail_matches (scan_number_decimal1 (lexer_add (CHR ''.'') (lexer_get lx))) t [] (munch_tail (pending lx)) lx"
proof -
  obtain s where s: "pending lx = CHR ''.'' # s"
    using assms by (auto simp: at_char_get first_char_Some)
  have "ready (lexer_add (CHR ''.'') (lexer_get lx))" by simp
  from scan_number_decimal1_matches [OF this] have
    "matches (scan_number_decimal1 (lexer_add (CHR ''.'') (lexer_get lx))) value_float
      (case munch_digits s of None \<Rightarrow> None
       | Some (f, s) \<Rightarrow> map_option (\<lambda>(x, rest). (f @ x, rest)) (munch_exp_part s)) (lexer_add (CHR ''.'') (lexer_get lx))"
    using s assms(1) by (simp add: get_reads)
  from matches_next [OF this] show ?thesis
    by (cases "munch_digits s"; cases "munch_exp_part (snd (the (munch_digits s)))")
      (auto simp: s munch_tail_def munch_defs_digits tail_matches_def tail_type_def matches_def)
qed

lemma no_frac:
  "ready lx \<Longrightarrow> \<not> at_char {CHR ''.''} (lexer_get lx) \<Longrightarrow> munch_tail (pending lx) = munch_exp_part (pending lx)"
  by (cases "munch_exp_part (pending lx)") (auto simp: at_char_get munch_tail_def munch_defs_digits)

lemma munch_exp_part_nonempty:
  "munch_exp_part s = Some (x, rest) \<Longrightarrow> first_char s \<in> Some ` exponent_chars \<Longrightarrow> x \<noteq> []"
  by (auto simp: munch_exp_part_def)

lemma tail_step:
  assumes ready: "ready lx"
  shows "tail_matches
    (if at_char {CHR ''.''} (lexer_get lx) then scan_number_decimal1 (lexer_add (CHR ''.'') (lexer_get lx))
     else if at_char exponent_chars (lexer_get lx) then scan_number_exponent (add_current (lexer_get lx))
     else scan_number_done t (lexer_get lx)) t [] (munch_tail (pending lx)) lx"
proof (cases "at_char {CHR ''.''} (lexer_get lx)")
  case True
  with frac_step [OF ready True, of t] show ?thesis by simp
next
  case no: False
  note tail = no_frac [OF ready no]
  show ?thesis
  proof (cases "at_char exponent_chars (lexer_get lx)")
    case True
    then have "first_char (pending lx) \<in> Some ` exponent_chars" using ready by (simp only: at_char_get)
    with exponent_step [OF ready True] True no tail show ?thesis
      by (cases "munch_exp_part (pending lx)")
        (auto simp: tail_matches_def tail_type_def matches_def dest: munch_exp_part_nonempty)
  next
    case False
    with no no_exponent [OF ready False] ends_as_done [OF ready, of t] tail show ?thesis
      by (simp add: tail_matches_def tail_type_def)
  qed
qed

lemma scan_number_zero_matches:
  "ready lx \<Longrightarrow> tail_matches (scan_number_zero t lx) t [] (munch_tail (pending lx)) lx"
  using tail_step [of lx t] by (simp add: scan_number_zero_def Let_def)

lemma tail_matches_next:
  assumes "tail_matches r t ds m (lexer_add c (lexer_get lx))"
  shows "tail_matches r t (c # ds) m lx"
  using assms by (cases m) (auto simp: tail_matches_def ends_as_get)

lemma scan_number_any1_matches:
  "ready lx \<Longrightarrow> tail_matches (scan_number_any1 t lx) t (takeWhile is_digit (pending lx))
     (munch_tail (dropWhile is_digit (pending lx))) lx"
proof (induction t lx rule: scan_number_any1.induct)
  case (1 t lx)
  note prems = "1.prems"
  show ?case
  proof (cases "at_digit (lexer_get lx)")
    case True
    then have d: "pending lx \<noteq> []" "is_digit (hd (pending lx))" using prems by (simp_all add: at_digit_get)
    have "tail_matches (scan_number_any1 t (add_current (lexer_get lx))) t (takeWhile is_digit (tl (pending lx)))
        (munch_tail (dropWhile is_digit (pending lx))) (lexer_add (hd (pending lx)) (lexer_get lx))"
      using "1.IH" [OF refl True] prems d by (simp add: get_reads current_char_get takeWhile_digits)
    from tail_matches_next [OF this] True d show ?thesis
      by (simp add: scan_number_any1.simps [of t lx] Let_def takeWhile_digits)
  next
    case False
    then have "pending lx = [] \<or> \<not> is_digit (hd (pending lx))" using prems by (auto simp: at_digit_get)
    then have "takeWhile is_digit (pending lx) = []" "dropWhile is_digit (pending lx) = pending lx"
      by (simp_all add: takeWhile_digits)
    with False tail_step [OF prems, of t] show ?thesis
      by (simp add: scan_number_any1.simps [of t lx] Let_def)
  qed
qed

lemma integer_state:
  assumes ready: "ready lx" and d: "at_digit (lexer_get lx)"
  shows "tail_matches
    (if at_char {CHR ''0''} (lexer_get lx) then scan_number_zero t (add_current (lexer_get lx))
     else scan_number_any1 t (add_current (lexer_get lx))) t
    (fst (the (munch_int (pending lx)))) (munch_tail (snd (the (munch_int (pending lx))))) lx"
    and "munch_int (pending lx) \<noteq> None"
proof -
  have p: "pending lx \<noteq> []" "is_digit (hd (pending lx))" using assms by (simp_all add: at_digit_get)
  then obtain c s where s: "pending lx = c # s" "is_digit c" by (cases "pending lx") auto
  have ready': "ready (add_current (lexer_get lx))" by simp
  show "munch_int (pending lx) \<noteq> None" using s by (simp add: munch_int_def)
  show "tail_matches
    (if at_char {CHR ''0''} (lexer_get lx) then scan_number_zero t (add_current (lexer_get lx))
     else scan_number_any1 t (add_current (lexer_get lx))) t
    (fst (the (munch_int (pending lx)))) (munch_tail (snd (the (munch_int (pending lx))))) lx"
  proof (cases "c = CHR ''0''")
    case True
    with scan_number_zero_matches [OF ready', of t] s ready show ?thesis
      by (simp add: at_char_get get_reads current_char_get munch_int_def tail_matches_next)
  next
    case False
    with scan_number_any1_matches [OF ready', of t] s ready show ?thesis
      by (simp add: at_char_get get_reads current_char_get munch_int_def tail_matches_next)
  qed
qed

section \<open>The scanner reads the longest number\<close>

definition number_type :: "string \<Rightarrow> token_type" where
  "number_type s =
     (if list_all is_digit s then value_unsigned
      else if hd s = CHR ''-'' \<and> list_all is_digit (tl s) then value_integer else value_float)"

lemma munch_int_digits: "munch_int s = Some (i, rest) \<Longrightarrow> i \<noteq> [] \<and> list_all is_digit i \<and> s = i @ rest"
  by (auto simp: munch_int_def Let_def first_char_Some list_all_iff dest: set_takeWhileD split: if_splits)

lemma munch_tail_text:
  assumes "munch_tail s = Some (x, rest)"
  shows "s = x @ rest" and "x \<noteq> [] \<Longrightarrow> \<not> is_digit (hd x)"
proof -
  have exponent: "s = y @ rest" if "munch_exponent s = Some (y, rest)" for s y rest
    using that by (cases s) (auto simp: munch_exponent_def Let_def split: if_splits)
  have exp_part: "s = y @ rest \<and> (y \<noteq> [] \<longrightarrow> \<not> is_digit (hd y))" if "munch_exp_part s = Some (y, rest)" for s y rest
    using that exponent by (cases s) (auto simp: munch_exp_part_def split: if_splits)
  have frac: "s = y @ rest \<and> (y \<noteq> [] \<longrightarrow> \<not> is_digit (hd y))" if "munch_frac_part s = Some (y, rest)" for s y rest
    using that by (cases s) (auto simp: munch_frac_part_def Let_def split: if_splits)
  obtain f s' e where "munch_frac_part s = Some (f, s')" "munch_exp_part s' = Some (e, rest)" "x = f @ e"
    using assms by (auto simp: munch_tail_def split: option.splits)
  with frac [of s f s'] exp_part [of s' e rest]
  have "s = x @ rest \<and> (x \<noteq> [] \<longrightarrow> \<not> is_digit (hd x))" by (cases f) auto
  then show "s = x @ rest" and "x \<noteq> [] \<Longrightarrow> \<not> is_digit (hd x)" by simp_all
qed

lemma number_type_parts:
  assumes "i \<noteq> []" "list_all is_digit i" "x \<noteq> [] \<longrightarrow> \<not> is_digit (hd x)"
  shows "number_type (i @ x) = tail_type value_unsigned x"
    and "number_type (CHR ''-'' # i @ x) = tail_type value_integer x"
proof -
  have "list_all is_digit x \<longleftrightarrow> x = []" using assms(3) by (cases x) auto
  moreover have "hd (i @ x) \<noteq> CHR ''-''" using assms(1,2) by (cases i) auto
  ultimately show "number_type (i @ x) = tail_type value_unsigned x"
    and "number_type (CHR ''-'' # i @ x) = tail_type value_integer x"
    using assms(2) by (auto simp: number_type_def tail_type_def)
qed

definition number_result :: "token_type \<times> lexer \<Rightarrow> (string \<times> string) option \<Rightarrow> lexer \<Rightarrow> bool" where
  "number_result r m lx \<longleftrightarrow>
     (case m of None \<Rightarrow> fst r = parse_error | Some (x, rest) \<Rightarrow> ends_as r (number_type x) x rest lx)"

lemma number_result_tail:
  assumes "tail_matches r t [] (munch_tail s) lx'" and buffer: "lx_token_buffer lx' = sg @ i"
    and i: "i \<noteq> []" "list_all is_digit i" and t: "sg = [] \<and> t = value_unsigned \<or> sg = ''-'' \<and> t = value_integer"
    and "follows lx lx'"
  shows "number_result r (map_option (\<lambda>(x, rest). (sg @ i @ x, rest)) (munch_tail s)) lx"
  using assms number_type_parts [OF i] munch_tail_text(2) [of s]
  by (cases "munch_tail s") (auto simp: number_result_def tail_matches_def ends_as_def intro: follows_trans)

lemma scan_number_minus_result:
  assumes ready: "ready lx" and buffer: "lx_token_buffer lx = ''-''"
  shows "number_result (scan_number_minus lx) (munch_number (CHR ''-'' # pending lx)) lx"
proof (cases "at_digit (lexer_get lx)")
  case True
  obtain ds s where i: "munch_int (pending lx) = Some (ds, s)"
    using integer_state(2) [OF ready True] by (cases "munch_int (pending lx)") auto
  have "scan_number_minus lx =
      (if at_char {CHR ''0''} (lexer_get lx) then scan_number_zero value_integer (add_current (lexer_get lx))
       else scan_number_any1 value_integer (add_current (lexer_get lx)))"
    using True by (simp add: scan_number_minus_def Let_def)
  with integer_state(1) [OF ready True, of value_integer] i
  have m: "tail_matches (scan_number_minus lx) value_integer ds (munch_tail s) lx" by simp
  show ?thesis
  proof (cases "munch_tail s")
    case None
    with m i show ?thesis by (simp add: number_result_def tail_matches_def munch_number_def)
  next
    case (Some p)
    obtain x rest where p: "p = (x, rest)" by (cases p)
    with m Some buffer have "ends_as (scan_number_minus lx) (tail_type value_integer x) (''-'' @ ds @ x) rest lx"
      by (simp add: tail_matches_def)
    moreover have "number_type (''-'' @ ds @ x) = tail_type value_integer x"
      using number_type_parts(2) [of ds x] munch_int_digits [OF i] munch_tail_text(2) [of s x rest] Some p by simp
    ultimately show ?thesis using i Some p by (simp add: number_result_def munch_number_def)
  qed
next
  case False
  have "munch_int (pending lx) = None"
    using False ready by (auto simp: at_digit_get munch_defs_digits munch_digits_None first_char_Some)
  moreover have "\<not> at_char {CHR ''0''} (lexer_get lx)"
    using False by (auto simp: at_char_def at_digit_def split: option.splits)
  ultimately show ?thesis
    using False by (simp add: number_result_def munch_number_def scan_number_minus_def Let_def)
qed

lemma number_result_reset [simp]: "number_result r m (lexer_reset lx) = number_result r m lx"
  and number_result_add [simp]: "number_result r m (lexer_add c lx) = number_result r m lx"
  by (simp_all add: number_result_def ends_as_def split: option.split)

lemma json_scan_number_result:
  assumes ready: "ready lx" and c: "lx_current lx = Some c" "c = CHR ''-'' \<or> is_digit c"
  shows "number_result (json_scan_number lx) (munch_number (c # pending lx)) lx"
proof (cases "c = CHR ''-''")
  case True
  let ?lx = "lexer_add (CHR ''-'') (lexer_reset lx)"
  have "number_result (scan_number_minus ?lx) (munch_number (CHR ''-'' # pending ?lx)) ?lx"
    by (rule scan_number_minus_result) (use ready in simp_all)
  with True c show ?thesis by (simp add: json_scan_number_def Let_def at_char_def current_char_def)
next
  case False
  with c have d: "is_digit c" by simp
  let ?lx = "lexer_add c (lexer_reset lx)" and ?i = "c # takeWhile is_digit (pending lx)"
  have ready': "ready ?lx" using ready by simp
  note defs = json_scan_number_def Let_def at_char_def current_char_def munch_number_def munch_int_def
  show ?thesis
  proof (cases "c = CHR ''0''")
    case True
    have m: "tail_matches (scan_number_zero value_unsigned ?lx) value_unsigned [] (munch_tail (pending lx)) ?lx"
      using scan_number_zero_matches [OF ready'] by simp
    have "number_result (scan_number_zero value_unsigned ?lx)
        (map_option (\<lambda>(x, rest). ([] @ ''0'' @ x, rest)) (munch_tail (pending lx))) ?lx"
      by (rule number_result_tail [OF m]) (use True in simp_all)
    with True c show ?thesis by (cases "munch_tail (pending lx)") (simp_all add: defs case_prod_beta)
  next
    case no_zero: False
    have m: "tail_matches (scan_number_any1 value_unsigned ?lx) value_unsigned (takeWhile is_digit (pending lx))
        (munch_tail (dropWhile is_digit (pending lx))) ?lx"
      using scan_number_any1_matches [OF ready'] by simp
    have i: "?i \<noteq> []" "list_all is_digit ?i" using d by (auto simp: list_all_iff dest: set_takeWhileD)
    show ?thesis
    proof (cases "munch_tail (dropWhile is_digit (pending lx))")
      case None
      with m no_zero False d c show ?thesis by (simp add: defs tail_matches_def number_result_def)
    next
      case (Some p)
      obtain x rest where p: "p = (x, rest)" by (cases p)
      have "number_type (?i @ x) = tail_type value_unsigned x"
        using number_type_parts(1) [OF i, of x] munch_tail_text(2) [of _ x rest] Some p by simp
      with m no_zero False d c Some p show ?thesis
        by (simp add: defs tail_matches_def number_result_def)
    qed
  qed
qed

section \<open>The longest number is a number\<close>

lemma munch_digits_grammar: "munch_digits s = Some (ds, rest) \<Longrightarrow> digits1 ds \<and> s = ds @ rest"
  by (auto simp: munch_digits_def Let_def digits1_def list_all_iff dest: set_takeWhileD split: if_splits)

lemma munch_exponent_grammar:
  "munch_exponent s = Some (x, rest) \<Longrightarrow> \<exists>sg ds. x = sg @ ds \<and> sg \<in> {[], ''+'', ''-''} \<and> digits1 ds \<and> s = x @ rest"
proof -
  assume m: "munch_exponent s = Some (x, rest)"
  define sg s' where "sg = (if first_char s \<in> {Some (CHR ''+''), Some (CHR ''-'')} then [hd s] else [])"
    and "s' = (if first_char s \<in> {Some (CHR ''+''), Some (CHR ''-'')} then tl s else s)"
  then have s: "s = sg @ s'" "sg \<in> {[], ''+'', ''-''}" by (auto simp: first_char_Some)
  obtain ds where "munch_digits s' = Some (ds, rest)" "x = sg @ ds"
    using m by (auto simp: munch_defs_digits \<open>sg = _\<close> \<open>s' = _\<close> first_char_Some split: if_splits)
  with munch_digits_grammar [of s' ds rest] s show ?thesis by (intro exI [of _ sg] exI [of _ ds]) simp
qed

lemma munch_exp_part_grammar: "munch_exp_part s = Some (x, rest) \<Longrightarrow> exp_part x \<and> s = x @ rest"
proof (cases "first_char s \<in> Some ` exponent_chars")
  case True
  assume m: "munch_exp_part s = Some (x, rest)"
  obtain c s' where s: "s = c # s'" "c \<in> exponent_chars" using True by (auto simp: first_char_Some)
  then obtain y where y: "munch_exponent s' = Some (y, rest)" "x = c # y"
    using m by (auto simp: munch_exp_part_def)
  then obtain sg ds where "y = sg @ ds" "sg \<in> {[], ''+'', ''-''}" "digits1 ds" "s' = y @ rest"
    using munch_exponent_grammar [OF y(1)] by blast
  with s y show ?thesis
    unfolding exp_part_def by (intro conjI disjI2 exI [of _ c] exI [of _ sg] exI [of _ ds]) simp_all
qed (auto simp: munch_exp_part_def exp_part_def)

lemma munch_frac_part_grammar: "munch_frac_part s = Some (x, rest) \<Longrightarrow> frac_part x \<and> s = x @ rest"
  by (auto simp: munch_defs_digits frac_part_def first_char_Some split: if_splits dest!: munch_digits_grammar)

lemma munch_int_grammar: "munch_int s = Some (x, rest) \<Longrightarrow> int_part x \<and> s = x @ rest"
  by (cases s; cases x) (auto simp: munch_defs_digits int_part_def digits1_def split: if_splits dest!: munch_digits_grammar)

lemma munch_number_sound:
  assumes "munch_number s = Some (x, rest)"
  shows "json_number x \<and> s = x @ rest"
proof -
  define sg s' where sg: "sg = (if first_char s = Some (CHR ''-'') then ''-'' else [])"
    and s': "s' = (if first_char s = Some (CHR ''-'') then tl s else s)"
  have s: "s = sg @ s'" "sg \<in> {[], ''-''}" by (auto simp: sg s' first_char_Some)
  obtain i s'' f s3 e where "munch_int s' = Some (i, s'')" "munch_frac_part s'' = Some (f, s3)"
      "munch_exp_part s3 = Some (e, rest)" "x = sg @ i @ f @ e"
    using assms by (auto simp: munch_number_def munch_tail_def sg s' Let_def split: option.splits if_splits)
  then have "int_part i" "frac_part f" "exp_part e" "s = x @ rest" "x = sg @ i @ f @ e"
    using s munch_int_grammar munch_frac_part_grammar munch_exp_part_grammar by fastforce+
  with s(2) show ?thesis unfolding json_number_def by blast
qed

text \<open>Nothing that could continue a number follows.\<close>

definition number_stop :: "string \<Rightarrow> bool" where
  "number_stop s \<longleftrightarrow> s = [] \<or> \<not> is_digit (hd s) \<and> hd s \<notin> {CHR ''.'', CHR ''e'', CHR ''E''}"

lemma munch_digits_complete: "digits1 ds \<Longrightarrow> s = [] \<or> \<not> is_digit (hd s) \<Longrightarrow> munch_digits (ds @ s) = Some (ds, s)"
  by (cases s) (auto simp: munch_digits_def digits1_def)

lemma digits1_first: "digits1 ds \<Longrightarrow> \<exists>d ds'. ds = d # ds' \<and> is_digit d"
  by (cases ds) (auto simp: digits1_def)

lemma munch_exp_part_complete: "exp_part e \<Longrightarrow> number_stop s \<Longrightarrow> munch_exp_part (e @ s) = Some (e, s)"
proof (cases "e = []")
  case False
  assume "exp_part e" and stop: "number_stop s"
  then obtain c sg ds where e: "e = c # sg @ ds" "c \<in> exponent_chars" "sg \<in> {[], ''+'', ''-''}" "digits1 ds"
    using False by (auto simp: exp_part_def)
  have "munch_digits (ds @ s) = Some (ds, s)"
    by (rule munch_digits_complete [OF e(4)]) (use stop in \<open>auto simp: number_stop_def\<close>)
  then have "munch_exponent (sg @ ds @ s) = Some (sg @ ds, s)"
    using e(3) digits1_first [OF e(4)] by (auto simp: munch_defs_digits)
  then show ?thesis using e(1,2) by (auto simp: munch_exp_part_def)
qed (auto simp: munch_exp_part_def number_stop_def first_char_Some)

lemma exp_part_first: "exp_part e \<Longrightarrow> number_stop s \<Longrightarrow> e @ s = [] \<or> \<not> is_digit (hd (e @ s)) \<and> hd (e @ s) \<noteq> CHR ''.''"
  by (auto simp: exp_part_def number_stop_def)

lemma munch_tail_complete:
  assumes "frac_part f" and "exp_part e" and "number_stop s"
  shows "munch_tail (f @ e @ s) = Some (f @ e, s)"
proof (cases "f = []")
  case True
  have "first_char (e @ s) \<noteq> Some (CHR ''.'')" using exp_part_first [OF assms(2,3)] by (auto simp: first_char_Some)
  with True munch_exp_part_complete [OF assms(2,3)] show ?thesis by (simp add: munch_tail_def munch_frac_part_def)
next
  case False
  then obtain ds where f: "f = CHR ''.'' # ds" "digits1 ds" using assms(1) by (auto simp: frac_part_def)
  have "munch_digits (ds @ e @ s) = Some (ds, e @ s)"
    by (rule munch_digits_complete [OF f(2)]) (use exp_part_first [OF assms(2,3)] in blast)
  with f munch_exp_part_complete [OF assms(2,3)] show ?thesis by (simp add: munch_tail_def munch_defs_digits)
qed

lemma tail_first: "frac_part f \<Longrightarrow> exp_part e \<Longrightarrow> number_stop s \<Longrightarrow> f @ e @ s = [] \<or> \<not> is_digit (hd (f @ e @ s))"
  using exp_part_first [of e s] by (auto simp: frac_part_def)

lemma munch_number_complete:
  assumes "json_number x" and "number_stop s"
  shows "munch_number (x @ s) = Some (x, s)"
proof -
  obtain sg i f e where x: "x = sg @ i @ f @ e" "sg \<in> {[], ''-''}" "int_part i" "frac_part f" "exp_part e"
    using assms(1) unfolding json_number_def by blast
  have i: "munch_int (i @ f @ e @ s) = Some (i, f @ e @ s)"
  proof (cases "i = ''0''")
    case False
    then have "digits1 i" "hd i \<noteq> CHR ''0''" using x(3) by (auto simp: int_part_def)
    with munch_digits_complete [OF this(1), of "f @ e @ s"] tail_first [OF x(4,5) assms(2)] digits1_first [of i]
    show ?thesis by (auto simp: munch_defs_digits)
  qed (simp add: munch_int_def)
  have first: "first_char (i @ f @ e @ s) \<noteq> Some (CHR ''-'')"
    using x(3) digits1_first [of i] by (auto simp: int_part_def)
  show ?thesis
    using x(1,2) i first munch_tail_complete [OF x(4,5) assms(2)] by (auto simp: munch_number_def)
qed

section \<open>The scanner and the grammar\<close>

text \<open>The value that the parser takes from the lexer for a number token.\<close>

definition token_number :: "token_type \<Rightarrow> lexer \<Rightarrow> json option" where
  "token_number t lx =
     (case t of
        value_unsigned \<Rightarrow> Some (JUnsigned (lx_value_unsigned lx))
      | value_integer \<Rightarrow> Some (JInteger (lx_value_integer lx))
      | value_float \<Rightarrow> Some (JFloat (lx_value_float lx))
      | _ \<Rightarrow> None)"

lemma scan_number_done_value:
  assumes "ready lx0" and "lx_token_buffer lx0 = x" and "json_number x"
    and "scan_number_done (number_type x) (lexer_get lx0) = (t, lx)"
  shows "token_number t lx = Some (number_value x)" and "lx_token_buffer lx = x"
    and "pending lx = pending lx0" and "ready lx"
proof -
  have unget: "pending (lexer_unget (lexer_get lx0)) = pending lx0" "ready (lexer_unget (lexer_get lx0))"
    using unget_get [OF assms(1)] by simp_all
  have dash: "list_all is_digit x \<Longrightarrow> x \<noteq> [] \<Longrightarrow> hd x \<noteq> CHR ''-''" by (cases x) auto
  have x: "x \<noteq> []" using assms(3) by (auto simp: json_number_def int_part_def digits1_def)
  have buffer: "lx_token_buffer (lexer_unget (lexer_get lx0)) = x" using assms(2) by simp
  note fin = assms(4) [unfolded scan_number_done_def Let_def buffer number_type_def]
  show "lx_token_buffer lx = x" "pending lx = pending lx0" "ready lx"
    using fin buffer unget by (auto simp: pending_def ready_def split: if_splits)
  show "token_number t lx = Some (number_value x)"
    using fin dash x by (simp add: number_value_def token_number_def split: if_splits) auto?
qed

lemma json_scan_number_reads:
  assumes "ready lx" "lx_current lx = Some c" "c = CHR ''-'' \<or> is_digit c"
    and "json_scan_number lx = (t, lx')"
  shows "case munch_number (c # pending lx) of
      None \<Rightarrow> t = parse_error
    | Some (x, rest) \<Rightarrow> token_number t lx' = Some (number_value x) \<and> lx_token_buffer lx' = x \<and> pending lx' = rest"
proof (cases "munch_number (c # pending lx)")
  case None
  with json_scan_number_result [OF assms(1-3)] assms(4) show ?thesis by (simp add: number_result_def)
next
  case (Some p)
  obtain x rest where p: "munch_number (c # pending lx) = Some (x, rest)" using Some by (cases p) simp
  with json_scan_number_result [OF assms(1-3)] assms(4)
  obtain lx0 where lx0: "ready lx0" "pending lx0 = rest" "lx_token_buffer lx0 = x"
      "scan_number_done (number_type x) (lexer_get lx0) = (t, lx')"
    by (auto simp: number_result_def ends_as_def)
  have "json_number x" using munch_number_sound [OF p] by simp
  from scan_number_done_value [OF lx0(1,3) this lx0(4)] lx0(2) p show ?thesis by simp
qed

text \<open>
  C24: the number scanner accepts exactly the numbers of RFC 8259. Whatever it accepts is the longest
  number it could read, kept as its text, and the value stored with the token is the value of that
  number; and every number that is not followed by a character that could continue it is accepted.
\<close>

theorem json_scan_number_grammar:
  assumes "ready lx" and "lx_current lx = Some c" and "c = CHR ''-'' \<or> is_digit c"
    and "json_scan_number lx = (t, lx')"
  shows "(t \<noteq> parse_error \<longrightarrow>
      json_number (lx_token_buffer lx') \<and> c # pending lx = lx_token_buffer lx' @ pending lx' \<and>
      token_number t lx' = Some (number_value (lx_token_buffer lx'))) \<and>
    (\<forall>x s. c # pending lx = x @ s \<and> json_number x \<and> number_stop s \<longrightarrow>
      t \<noteq> parse_error \<and> lx_token_buffer lx' = x \<and> pending lx' = s)"
proof (cases "munch_number (c # pending lx)")
  case None
  then have "\<not> (c # pending lx = x @ s \<and> json_number x \<and> number_stop s)" for x s
    using munch_number_complete [of x s] by auto
  with None json_scan_number_reads [OF assms] show ?thesis by simp
next
  case (Some p)
  obtain x rest where p: "p = (x, rest)" by (cases p)
  with Some json_scan_number_reads [OF assms]
  have r: "token_number t lx' = Some (number_value x)" "lx_token_buffer lx' = x" "pending lx' = rest" by simp_all
  then have t: "t \<noteq> parse_error" by (auto simp: token_number_def)
  from munch_number_sound Some p have "json_number x" "c # pending lx = x @ rest" by auto
  moreover have "x' = x \<and> s = rest" if "c # pending lx = x' @ s" "json_number x'" "number_stop s" for x' s
    using munch_number_complete [OF that(2,3)] Some p that(1) by simp
  ultimately show ?thesis unfolding r using t r(1) by metis
qed

definition number_input :: lexer where
  "number_input = lexer_get (lexer_of ''-125,'' False)"

theorem json_scan_number_grammar_witness:
  "json_number (lx_token_buffer (snd (json_scan_number number_input))) \<and>
    ''-125,'' = lx_token_buffer (snd (json_scan_number number_input)) @ pending (snd (json_scan_number number_input))"
proof -
  have ready: "ready number_input" by (simp add: number_input_def)
  have c: "lx_current number_input = Some (CHR ''-'')" by code_simp
  have p: "''-125,'' = CHR ''-'' # pending number_input" by code_simp
  have "fst (json_scan_number number_input) = value_integer" by code_simp
  then have "fst (json_scan_number number_input) \<noteq> parse_error" by simp
  with json_scan_number_grammar [OF ready c disjI1 [OF refl] prod.collapse [symmetric]]
  show ?thesis unfolding p by blast
qed

end
