(* ===== verification/Json_Text.thy ===== *)
theory Json_Text
  imports Json_Number Json_String
begin

text \<open>
  The strings of RFC 8259 and the lexer: the grammar of the characters between the quotes, with the
  bytes each stands for, and that the string scanner accepts exactly these texts and delivers exactly
  these bytes.
\<close>

section \<open>The grammar of strings\<close>

definition backslash :: char where
  "backslash = CHR 0x5C"

definition quote :: char where
  "quote = CHR 0x22"

definition hex_table :: "(char \<times> nat) list" where
  "hex_table = zip ''0123456789abcdefABCDEF'' ([0..<16] @ [10..<16])"

definition escape_table :: "(char \<times> char) list" where
  "escape_table =
     [(CHR 0x22, CHR 0x22), (CHR 0x5C, CHR 0x5C), (CHR ''/'', CHR ''/''), (CHR ''b'', CHR 0x08),
      (CHR ''f'', CHR 0x0C), (CHR ''n'', CHR 0x0A), (CHR ''r'', CHR 0x0D), (CHR ''t'', CHR 0x09)]"

text \<open>Four hexadecimal digits and their number.\<close>

definition hex4 :: "string \<Rightarrow> nat \<Rightarrow> bool" where
  "hex4 hs n \<longleftrightarrow>
     (\<exists>h1 h2 h3 h4 d1 d2 d3 d4. hs = [h1, h2, h3, h4] \<and>
        map_of hex_table h1 = Some d1 \<and> map_of hex_table h2 = Some d2 \<and>
        map_of hex_table h3 = Some d3 \<and> map_of hex_table h4 = Some d4 \<and>
        n = ((d1 * 16 + d2) * 16 + d3) * 16 + d4)"

definition utf8_string :: "nat \<Rightarrow> string" where
  "utf8_string cp = map char_of (utf8 cp)"

text \<open>\<open>string_item s b\<close>: the text \<open>b\<close> of one character, which stands for the bytes \<open>s\<close>.\<close>

inductive string_item :: "string \<Rightarrow> string \<Rightarrow> bool" where
  item_plain: "scalar_value cp \<Longrightarrow> 0x20 \<le> cp \<Longrightarrow> cp \<noteq> code quote \<Longrightarrow> cp \<noteq> code backslash \<Longrightarrow>
    string_item (utf8_string cp) (utf8_string cp)"
| item_escape: "map_of escape_table c = Some d \<Longrightarrow> string_item [d] [backslash, c]"
| item_unicode: "hex4 hs cp \<Longrightarrow> scalar_value cp \<Longrightarrow> string_item (utf8_string cp) (backslash # CHR ''u'' # hs)"
| item_pair: "hex4 hs hi \<Longrightarrow> hex4 hs' lo \<Longrightarrow> 0xD800 \<le> hi \<Longrightarrow> hi < 0xDC00 \<Longrightarrow> 0xDC00 \<le> lo \<Longrightarrow> lo < 0xE000 \<Longrightarrow>
    string_item (utf8_string (0x10000 + (hi - 0xD800) * 0x400 + (lo - 0xDC00)))
      (backslash # CHR ''u'' # hs @ backslash # CHR ''u'' # hs')"

inductive string_text :: "string \<Rightarrow> string \<Rightarrow> bool" where
  text_end: "string_text [] []"
| text_item: "string_item s b \<Longrightarrow> string_text s' b' \<Longrightarrow> string_text (s @ s') (b @ b')"

section \<open>Moving through the text\<close>

text \<open>\<open>moved lx b s lx'\<close>: the lexer has read the text \<open>b\<close> and appended \<open>s\<close> to its token.\<close>

definition moved :: "lexer \<Rightarrow> string \<Rightarrow> string \<Rightarrow> lexer \<Rightarrow> bool" where
  "moved lx b s lx' \<longleftrightarrow>
     ready lx' \<and> pending lx = b @ pending lx' \<and> lx_token_buffer lx' = lx_token_buffer lx @ s \<and> follows lx lx'"

lemma moved_refl [simp]: "ready lx \<Longrightarrow> moved lx [] [] lx"
  by (simp add: moved_def)

lemma moved_trans: "moved lx b s lx1 \<Longrightarrow> moved lx1 b' s' lx2 \<Longrightarrow> moved lx (b @ b') (s @ s') lx2"
  by (auto simp: moved_def intro: follows_trans)

lemma moved_ready: "moved lx b s lx' \<Longrightarrow> ready lx'"
  by (simp add: moved_def)

lemma moved_get: "ready lx \<Longrightarrow> lx_current (lexer_get lx) = Some c \<Longrightarrow> moved lx [c] [] (lexer_get lx)"
  by (cases "pending lx") (simp_all add: moved_def get_reads)

lemma moved_add: "moved lx b s lx' \<Longrightarrow> moved lx b (s @ [c]) (lexer_add c lx')"
  by (simp add: moved_def)

lemma moved_add_codepoint:
  "moved lx b s lx' \<Longrightarrow> scalar_value cp \<Longrightarrow> moved lx b (s @ utf8_string cp) (add_codepoint cp lx')"
proof -
  assume moved: "moved lx b s lx'" and cp: "scalar_value cp"
  have "moved lx b (s @ map char_of bs) (fold (\<lambda>b. lexer_add (char_of b)) bs lx')"
    if "moved lx b s lx'" for bs :: "nat list" and s lx'
    using that
  proof (induction bs arbitrary: s lx')
    case (Cons x bs)
    from Cons.IH [OF moved_add [OF Cons.prems, of "char_of x"]] show ?case by simp
  qed simp
  moreover have "codepoint_bytes cp = utf8 cp"
    using cp by (intro codepoint_bytes_utf8) (auto simp: scalar_value_def)
  ultimately show ?thesis using moved by (metis add_codepoint_def utf8_string_def)
qed

section \<open>Escapes\<close>

lemma hex_value_table: "hex_value (Some c) = map_of hex_table c"
proof -
  have "\<forall>c. hex_value (Some c) = map_of hex_table c" by code_simp
  then show ?thesis by simp
qed

lemma hex_value_None [simp]: "hex_value None = None"
  by (simp add: hex_value_def)

lemma get_codepoint_cons:
  assumes "ready lx"
  shows "get_codepoint_from (f # fs) n lx =
    (case map_option (\<lambda>c. map_of hex_table c) (first_char (pending lx)) of
       Some (Some d) \<Rightarrow> get_codepoint_from fs (n + push_bit f d) (lexer_get lx)
     | _ \<Rightarrow> (None, lexer_get lx))"
  using assms by (cases "pending lx") (auto simp: Let_def get_reads hex_value_table split: option.split)

lemma get_codepoint_hex4:
  assumes ready: "ready lx"
  shows "get_codepoint lx = (Some cp, lx') \<Longrightarrow> \<exists>hs. hex4 hs cp \<and> moved lx hs [] lx'"
    and "hex4 hs cp \<Longrightarrow> pending lx = hs @ rest \<Longrightarrow> \<exists>lx'. get_codepoint lx = (Some cp, lx') \<and> moved lx hs [] lx'"
proof -
  let ?g1 = "lexer_get lx" and ?g2 = "lexer_get (lexer_get lx)" and ?g3 = "lexer_get (lexer_get (lexer_get lx))"
  have moved4: "moved lx [h1, h2, h3, h4] [] (lexer_get ?g3)" if "pending lx = h1 # h2 # h3 # h4 # r" for h1 h2 h3 h4 r
    using that ready by (simp add: moved_def get_reads follows_def)
  note step = get_codepoint_cons [OF ready] get_codepoint_cons [OF ready_get]
  show "\<exists>hs. hex4 hs cp \<and> moved lx hs [] lx'" if "get_codepoint lx = (Some cp, lx')"
  proof -
    from that obtain h1 h2 h3 h4 r d1 d2 d3 d4 where p: "pending lx = h1 # h2 # h3 # h4 # r"
      and d: "map_of hex_table h1 = Some d1" "map_of hex_table h2 = Some d2" "map_of hex_table h3 = Some d3" "map_of hex_table h4 = Some d4"
      and cp: "cp = push_bit 12 d1 + push_bit 8 d2 + push_bit 4 d3 + d4" "lx' = lexer_get ?g3"
      unfolding get_codepoint_def step get_codepoint_from.simps(1)
      by (auto simp: get_reads ready first_char_Some split: option.splits)
    show ?thesis
      using moved4 [OF p] d cp unfolding hex4_def by (intro exI [of _ "[h1, h2, h3, h4]"]) (auto simp: push_bit_eq_mult)
  qed
  show "\<exists>lx'. get_codepoint lx = (Some cp, lx') \<and> moved lx hs [] lx'" if "hex4 hs cp" "pending lx = hs @ rest"
    using that moved4 unfolding get_codepoint_def hex4_def step
    by (auto simp: get_reads ready get_codepoint_cons push_bit_eq_mult)
qed

lemma surrogates_code_point:
  assumes "0xD800 \<le> hi" "hi < 0xDC00" "0xDC00 \<le> lo" "lo < 0xE000"
  shows "push_bit 10 hi + lo - 0x35FDC00 = 0x10000 + (hi - 0xD800) * 0x400 + (lo - 0xDC00)"
    and "scalar_value (0x10000 + (hi - 0xD800) * 0x400 + (lo - 0xDC00))"
  using assms by (simp_all add: push_bit_eq_mult scalar_value_def)

text \<open>The second half of a surrogate pair.\<close>

lemma scan_low_surrogate_iff:
  assumes ready: "ready lx" and hi: "0xD800 \<le> hi" "hi < 0xDC00"
  shows "scan_low_surrogate hi lx = (True, lx') \<longleftrightarrow>
    (\<exists>hs lo lx1. moved lx (backslash # CHR ''u'' # hs) [] lx1 \<and> hex4 hs lo \<and> 0xDC00 \<le> lo \<and> lo < 0xE000 \<and>
       get_codepoint (lexer_get (lexer_get lx)) = (Some lo, lx1) \<and>
       lx' = add_codepoint (0x10000 + (hi - 0xD800) * 0x400 + (lo - 0xDC00)) lx1)"
proof -
  have moved2: "moved lx [c, d] [] (lexer_get (lexer_get lx))" if "pending lx = c # d # r" for c d r
    using that ready by (simp add: moved_def get_reads follows_def)
  show ?thesis
  proof
    assume "scan_low_surrogate hi lx = (True, lx')"
    then obtain lo lx1 r where p: "pending lx = backslash # CHR ''u'' # r"
      and lo: "get_codepoint (lexer_get (lexer_get lx)) = (Some lo, lx1)" "0xDC00 \<le> lo" "lo \<le> 0xDFFF"
      and lx': "lx' = add_codepoint (push_bit 10 hi + lo - 0x35FDC00) lx1"
      by (auto simp: scan_low_surrogate_def Let_def get_reads ready first_char_Some backslash_def
          split: if_splits prod.splits option.splits)
    obtain hs where "hex4 hs lo" "moved (lexer_get (lexer_get lx)) hs [] lx1"
      using get_codepoint_hex4(1) [OF ready_get lo(1)] by blast
    with moved_trans [OF moved2 [OF p]] lo lx' hi
    show "\<exists>hs lo lx1. moved lx (backslash # CHR ''u'' # hs) [] lx1 \<and> hex4 hs lo \<and> 0xDC00 \<le> lo \<and> lo < 0xE000 \<and>
       get_codepoint (lexer_get (lexer_get lx)) = (Some lo, lx1) \<and>
       lx' = add_codepoint (0x10000 + (hi - 0xD800) * 0x400 + (lo - 0xDC00)) lx1"
      by (intro exI [of _ hs] exI [of _ lo] exI [of _ lx1]) (fastforce simp: surrogates_code_point)
  next
    assume "\<exists>hs lo lx1. moved lx (backslash # CHR ''u'' # hs) [] lx1 \<and> hex4 hs lo \<and> 0xDC00 \<le> lo \<and> lo < 0xE000 \<and>
       get_codepoint (lexer_get (lexer_get lx)) = (Some lo, lx1) \<and>
       lx' = add_codepoint (0x10000 + (hi - 0xD800) * 0x400 + (lo - 0xDC00)) lx1"
    then show "scan_low_surrogate hi lx = (True, lx')"
      using surrogates_code_point [OF hi]
      by (auto simp: scan_low_surrogate_def Let_def get_reads ready moved_def backslash_def)
  qed
qed

lemma scan_unicode_escape_sound:
  assumes ready: "ready lx" and scan: "scan_unicode_escape lx = (True, lx')"
  shows "\<exists>s b. string_item s (backslash # CHR ''u'' # b) \<and> moved lx b s lx'"
proof -
  obtain cp lx1 where cp: "get_codepoint lx = (Some cp, lx1)"
    using scan by (auto simp: scan_unicode_escape_def split: prod.splits option.splits)
  obtain hs where hs: "hex4 hs cp" "moved lx hs [] lx1" using get_codepoint_hex4(1) [OF ready cp] by blast
  show ?thesis
  proof (cases "0xD800 \<le> cp \<and> cp < 0xDC00")
    case True
    then have hi: "0xD800 \<le> cp" "cp < 0xDC00" by simp_all
    have "scan_low_surrogate cp lx1 = (True, lx')" using scan cp True by (simp add: scan_unicode_escape_def)
    then obtain hs' lo lx2 where lo: "moved lx1 (backslash # CHR ''u'' # hs') [] lx2" "hex4 hs' lo"
        "0xDC00 \<le> lo" "lo < 0xE000" "lx' = add_codepoint (0x10000 + (cp - 0xD800) * 0x400 + (lo - 0xDC00)) lx2"
      using scan_low_surrogate_iff [OF moved_ready [OF hs(2)] hi] by blast
    have "moved lx (hs @ backslash # CHR ''u'' # hs') [] lx2" using moved_trans [OF hs(2) lo(1)] by simp
    from moved_add_codepoint [OF this surrogates_code_point(2) [OF hi lo(3,4)]] show ?thesis
      using item_pair [OF hs(1) lo(2) hi lo(3,4)] lo(5) by auto
  next
    case False
    with scan cp get_codepoint_le [OF cp] have cp': "scalar_value cp" "lx' = add_codepoint cp lx1"
      by (auto simp: scan_unicode_escape_def scalar_value_def split: if_splits)
    from moved_add_codepoint [OF hs(2) cp'(1)] show ?thesis
      using item_unicode [OF hs(1) cp'(1)] cp'(2) by auto
  qed
qed

lemma scan_unicode_escape_scalar:
  assumes "ready lx" and "hex4 hs cp" and "scalar_value cp" and "pending lx = hs @ rest"
  shows "\<exists>lx'. scan_unicode_escape lx = (True, lx') \<and> moved lx hs (utf8_string cp) lx'"
proof -
  obtain lx1 where lx1: "get_codepoint lx = (Some cp, lx1)" "moved lx hs [] lx1"
    using get_codepoint_hex4(2) [OF assms(1,2,4)] by blast
  then have "scan_unicode_escape lx = (True, add_codepoint cp lx1)"
    using assms(3) by (auto simp: scan_unicode_escape_def scalar_value_def)
  with moved_add_codepoint [OF lx1(2) assms(3)] show ?thesis by simp
qed

lemma scan_unicode_escape_pair:
  assumes "ready lx" and hs: "hex4 hs hi" "hex4 hs' lo"
    and r: "0xD800 \<le> hi" "hi < 0xDC00" "0xDC00 \<le> lo" "lo < 0xE000"
    and p: "pending lx = hs @ backslash # CHR ''u'' # hs' @ rest"
  shows "\<exists>lx'. scan_unicode_escape lx = (True, lx') \<and>
    moved lx (hs @ backslash # CHR ''u'' # hs') (utf8_string (0x10000 + (hi - 0xD800) * 0x400 + (lo - 0xDC00))) lx'"
proof -
  obtain lx1 where lx1: "get_codepoint lx = (Some hi, lx1)" "moved lx hs [] lx1"
    using get_codepoint_hex4(2) [OF assms(1) hs(1) p] by blast
  then have p1: "pending lx1 = backslash # CHR ''u'' # hs' @ rest" and ready1: "ready lx1"
    using p by (simp_all add: moved_def)
  let ?lx2 = "lexer_get (lexer_get lx1)"
  have "moved lx1 [backslash, CHR ''u''] [] ?lx2" and p2: "pending ?lx2 = hs' @ rest"
    using p1 ready1 by (simp_all add: moved_def get_reads follows_def)
  moreover obtain lx3 where lx3: "get_codepoint ?lx2 = (Some lo, lx3)" "moved ?lx2 hs' [] lx3"
    using get_codepoint_hex4(2) [OF ready_get hs(2) p2] by blast
  ultimately have m3: "moved lx1 (backslash # CHR ''u'' # hs') [] lx3" using moved_trans by fastforce
  have "moved lx (hs @ backslash # CHR ''u'' # hs') [] lx3" using moved_trans [OF lx1(2) m3] by simp
  from moved_add_codepoint [OF this surrogates_code_point(2) [OF r]]
  have "moved lx (hs @ backslash # CHR ''u'' # hs') (utf8_string (0x10000 + (hi - 0xD800) * 0x400 + (lo - 0xDC00)))
      (add_codepoint (0x10000 + (hi - 0xD800) * 0x400 + (lo - 0xDC00)) lx3)" by simp
  moreover have "scan_low_surrogate hi lx1 = (True, add_codepoint (0x10000 + (hi - 0xD800) * 0x400 + (lo - 0xDC00)) lx3)"
    using scan_low_surrogate_iff [OF ready1 r(1,2)] m3 hs(2) r(3,4) lx3(1) by blast
  then have "scan_unicode_escape lx = (True, add_codepoint (0x10000 + (hi - 0xD800) * 0x400 + (lo - 0xDC00)) lx3)"
    using lx1(1) r(1,2) by (simp add: scan_unicode_escape_def)
  ultimately show ?thesis by blast
qed

text \<open>An escape, after its backslash.\<close>

lemma escape_table_u: "map_of escape_table (CHR ''u'') = None"
  by (simp add: escape_table_def)

lemma scan_escape_table:
  assumes "ready lx" and "pending lx = c # r"
  shows "scan_escape lx =
    (if c = CHR ''u'' then scan_unicode_escape (lexer_get lx)
     else case map_of escape_table c of
         Some d \<Rightarrow> (True, lexer_add d (lexer_get lx))
       | None \<Rightarrow> (False, lexer_error ''invalid string: forbidden character after backslash'' (lexer_get lx)))"
  using assms by (simp add: scan_escape_def Let_def get_reads escape_table_def)

lemma scan_escape_sound:
  assumes ready: "ready lx" and scan: "scan_escape lx = (True, lx')"
  shows "\<exists>s b. string_item s (backslash # b) \<and> moved lx b s lx'"
proof (cases "pending lx")
  case Nil
  with scan ready show ?thesis by (simp add: scan_escape_def Let_def get_reads)
next
  case (Cons c r)
  note table = scan_escape_table [OF ready Cons]
  have m: "moved lx [c] [] (lexer_get lx)" using moved_get [OF ready] Cons ready by (simp add: get_reads)
  show ?thesis
  proof (cases "c = CHR ''u''")
    case True
    then obtain s b where "string_item s (backslash # CHR ''u'' # b)" "moved (lexer_get lx) b s lx'"
      using scan_unicode_escape_sound [OF ready_get, of lx lx'] scan table by auto
    with moved_trans [OF m] True show ?thesis by fastforce
  next
    case False
    then obtain d where d: "map_of escape_table c = Some d" "lx' = lexer_add d (lexer_get lx)"
      using scan table by (auto split: option.splits)
    have "moved lx [c] [d] lx'" using moved_add [OF m, of d] d(2) by simp
    with item_escape [OF d(1)] show ?thesis by blast
  qed
qed

lemma utf8_first: "scalar_value cp \<Longrightarrow> utf8 cp = b # bs \<Longrightarrow> if cp < 128 then b = cp \<and> bs = [] else 128 \<le> b"
  by (auto simp: utf8_def scalar_value_def split: if_splits)

lemma utf8_string_Cons:
  assumes "utf8_string cp = c # bs" and "scalar_value cp"
  shows "utf8 cp = code c # map code bs"
proof -
  have "map code (utf8_string cp) = utf8 cp"
    unfolding utf8_string_def by (rule code_char_of [OF utf8_bytes [OF assms(2)]])
  with assms(1) show ?thesis by simp
qed

lemma scan_escape_complete:
  assumes item: "string_item s (backslash # b)" and ready: "ready lx" and p: "pending lx = b @ rest"
  shows "\<exists>lx'. scan_escape lx = (True, lx') \<and> moved lx b s lx'"
  using item
proof cases
  case (item_plain cp)
  then have "utf8 cp = code backslash # map code b" using utf8_string_Cons [of cp backslash b] by simp
  from utf8_first [OF item_plain(3) this] have "code backslash = cp"
    by (simp add: backslash_def split: if_splits)
  with item_plain(6) show ?thesis by simp
next
  case (item_escape c d)
  with p have p: "pending lx = c # rest" by simp
  have "c \<noteq> CHR ''u''" using item_escape(3) escape_table_u by auto
  then have "scan_escape lx = (True, lexer_add d (lexer_get lx))"
    using item_escape(3) scan_escape_table [OF ready p] by simp
  moreover have "moved lx [c] [] (lexer_get lx)" using moved_get [OF ready] p ready by (simp add: get_reads)
  ultimately show ?thesis using moved_add [of lx "[c]" "[]"] item_escape by fastforce
next
  case (item_unicode hs cp)
  with p have u: "pending lx = CHR ''u'' # hs @ rest" by simp
  have m: "moved lx [CHR ''u''] [] (lexer_get lx)" using moved_get [OF ready] u ready by (simp add: get_reads)
  obtain lx' where "scan_unicode_escape (lexer_get lx) = (True, lx')" "moved (lexer_get lx) hs s lx'"
    using scan_unicode_escape_scalar [OF ready_get item_unicode(3,4), of lx rest] u ready item_unicode(1)
    by (auto simp: get_reads)
  with scan_escape_table [OF ready u] moved_trans [OF m] item_unicode(2) show ?thesis by fastforce
next
  case (item_pair hs hi hs' lo)
  with p have u: "pending lx = CHR ''u'' # hs @ backslash # CHR ''u'' # hs' @ rest" by simp
  have m: "moved lx [CHR ''u''] [] (lexer_get lx)" using moved_get [OF ready] u ready by (simp add: get_reads)
  obtain lx' where "scan_unicode_escape (lexer_get lx) = (True, lx')"
      "moved (lexer_get lx) (hs @ backslash # CHR ''u'' # hs') s lx'"
    using scan_unicode_escape_pair [OF ready_get item_pair(3-8), of lx rest] u ready item_pair(1)
    by (auto simp: get_reads)
  with scan_escape_table [OF ready u] moved_trans [OF m] item_pair(2) show ?thesis by fastforce
qed

section \<open>Plain characters\<close>

lemma check_ranges_sound:
  "check_ranges ranges lx = (True, lx') \<Longrightarrow> ready lx \<Longrightarrow>
   \<exists>bs. in_ranges ranges (map code bs) \<and> moved lx bs bs lx'"
proof (induction ranges lx rule: check_ranges.induct)
  case (2 lo hi ranges lx)
  from "2.prems" obtain c where c: "lx_current (lexer_get lx) = Some c" "lo \<le> code c" "code c \<le> hi"
      and check: "check_ranges ranges (add_current (lexer_get lx)) = (True, lx')"
    by (auto simp: Let_def split: if_splits option.splits)
  have "moved lx [c] [c] (add_current (lexer_get lx))"
    using moved_add [OF moved_get [OF "2.prems"(2) c(1)], of c] c(1) by (simp add: current_char_def)
  moreover obtain bs where "in_ranges ranges (map code bs)" "moved (add_current (lexer_get lx)) bs bs lx'"
    using "2.IH" [OF refl _ check] c by auto
  ultimately show ?case using c(2,3) moved_trans by (intro exI [of _ "c # bs"]) fastforce
qed auto

lemma check_ranges_complete:
  "in_ranges ranges (map code bs) \<Longrightarrow> ready lx \<Longrightarrow> pending lx = bs @ rest \<Longrightarrow>
   \<exists>lx'. check_ranges ranges lx = (True, lx')"
proof (induction ranges arbitrary: bs lx)
  case (Cons r ranges)
  obtain lo hi where r: "r = (lo, hi)" by (cases r)
  then obtain c bs' where bs: "bs = c # bs'" "lo \<le> code c" "code c \<le> hi" "in_ranges ranges (map code bs')"
    using Cons.prems(1) by auto
  have "\<exists>lx'. check_ranges ranges (add_current (lexer_get lx)) = (True, lx')"
    by (rule Cons.IH [OF bs(4)]) (use Cons.prems bs in \<open>simp_all add: get_reads\<close>)
  with r bs Cons.prems show ?case by (simp add: Let_def get_reads)
qed simp

text \<open>The encodings of the scalar values beyond ASCII have the bytes that the ranges allow.\<close>

lemma utf8_ranges_complete:
  assumes "scalar_value cp" and "utf8 cp = b # bs" and "128 \<le> b"
  shows "\<exists>ranges. utf8_ranges b = Some ranges \<and> in_ranges ranges bs"
proof -
  consider (two) "0x80 \<le> cp" "cp < 0x800" | (three) "0x800 \<le> cp" "cp < 0x10000"
    | (four) "0x10000 \<le> cp" "cp \<le> 0x10FFFF"
    using assms by (fastforce simp: utf8_def scalar_value_def)
  then show ?thesis
  proof cases
    case two
    then have "2 \<le> cp div 64" "cp div 64 < 32" by auto
    with two assms(2) show ?thesis by (auto simp: utf8_def utf8_ranges_def)
  next
    case three
    define x y where "x = cp div 4096" and "y = cp div 64 mod 64"
    have cp: "y < 64" "cp = 4096 * x + 64 * y + cp mod 64"
      using div_mult_mod_eq [of "cp div 64" 64] div_mult_mod_eq [of cp 64] div_mult2_eq [of cp 64 64]
      unfolding x_def y_def by (simp, simp only: numeral_times_numeral Num.mult_num_simps)
    have "x < 16" using three by (simp add: x_def)
    moreover have "x = 0 \<Longrightarrow> 32 \<le> y" "x = 13 \<Longrightarrow> y < 32"
      using three cp assms(1) mod_less_divisor [of 64 cp] by (auto simp: scalar_value_def)
    ultimately show ?thesis
      using three assms(2) cp(1) by (auto simp: utf8_def utf8_ranges_def x_def [symmetric] y_def [symmetric])
  next
    case four
    define x y where "x = cp div 262144" and "y = cp div 4096 mod 64"
    have cp: "y < 64" "cp = 262144 * x + 4096 * y + cp mod 4096"
      using div_mult_mod_eq [of "cp div 4096" 64] div_mult_mod_eq [of cp 4096] div_mult2_eq [of cp 4096 64]
      unfolding x_def y_def by (simp, simp only: numeral_times_numeral Num.mult_num_simps)
    have "x < 5" using four by (simp add: x_def)
    moreover have "x = 0 \<Longrightarrow> 16 \<le> y" "x = 4 \<Longrightarrow> y < 16" using four cp mod_less_divisor [of 4096 cp] by auto
    ultimately show ?thesis
      using four assms(2) cp(1) by (auto simp: utf8_def utf8_ranges_def x_def [symmetric] y_def [symmetric])
  qed
qed

lemma code_eq: "code c = code d \<longleftrightarrow> c = d"
  by (rule of_char_eq_iff)

lemma scan_plain_sound:
  assumes ready: "ready lx" and c: "lx_current lx = Some c" "c \<noteq> quote" "c \<noteq> backslash"
    and scan: "scan_plain c lx = (True, lx')"
  shows "\<exists>bs. string_item (c # bs) (c # bs) \<and> moved lx bs (c # bs) lx'"
proof -
  have plain: "string_item (c # bs) (c # bs)" if "scalar_value cp" "code c # map code bs = utf8 cp" "0x20 \<le> code c" for cp bs
  proof -
    have s: "utf8_string cp = c # bs" by (simp add: utf8_string_def that(2) [symmetric] comp_def)
    have "0x20 \<le> cp" "cp \<noteq> code quote" "cp \<noteq> code backslash"
      using utf8_first [OF that(1) that(2) [symmetric]] that(3) c(2,3)
        code_eq [of c quote] code_eq [of c backslash]
      by (auto simp: quote_def backslash_def split: if_splits)
    from item_plain [OF that(1) this] s show ?thesis by simp
  qed
  show ?thesis
  proof (cases "code c \<le> 0x7F")
    case True
    with scan have "lx' = lexer_add c lx" "0x20 \<le> code c" by (auto simp: scan_plain_def split: if_splits)
    with True plain [of "code c" "[]"] moved_add [of lx "[]" "[]" lx c] ready show ?thesis
      by (auto simp: utf8_def scalar_value_def intro!: exI [of _ "[]"])
  next
    case False
    then obtain ranges where r: "utf8_ranges (code c) = Some ranges" "check_ranges ranges (lexer_add c lx) = (True, lx')"
      using scan c(1) by (auto simp: scan_plain_def next_byte_in_range_def current_char_def split: if_splits option.splits)
    obtain bs where bs: "in_ranges ranges (map code bs)" "moved (lexer_add c lx) bs bs lx'"
      using check_ranges_sound [OF r(2)] ready by auto
    obtain cp where "scalar_value cp" "code c # map code bs = utf8 cp" using utf8_ranges_sound [OF r(1) bs(1)] by blast
    with False plain have "string_item (c # bs) (c # bs)" by simp
    moreover have "moved lx bs (c # bs) lx'" using bs(2) by (simp add: moved_def)
    ultimately show ?thesis by blast
  qed
qed

lemma scan_plain_complete:
  assumes item: "scalar_value cp" "0x20 \<le> cp" "utf8_string cp = c # bs"
    and lx: "ready lx" "lx_current lx = Some c" "pending lx = bs @ rest"
  shows "\<exists>lx'. scan_plain c lx = (True, lx') \<and> moved lx bs (c # bs) lx'"
proof -
  note u = utf8_string_Cons [OF item(3,1)]
  show ?thesis
  proof (cases "cp < 128")
    case True
    then have "code c = cp" "bs = []" using utf8_first [OF item(1) u] by simp_all
    with True item(2) moved_add [of lx "[]" "[]" lx c] lx(1) show ?thesis by (simp add: scan_plain_def)
  next
    case False
    then have c: "128 \<le> code c" using utf8_first [OF item(1) u] by simp
    obtain ranges where r: "utf8_ranges (code c) = Some ranges" "in_ranges ranges (map code bs)"
      using utf8_ranges_complete [OF item(1) u c] by blast
    have "\<exists>lx'. check_ranges ranges (lexer_add c lx) = (True, lx')"
      by (rule check_ranges_complete [OF r(2)]) (use lx in simp_all)
    then obtain lx' where lx': "check_ranges ranges (lexer_add c lx) = (True, lx')" by blast
    have "length bs' = length bs" if "in_ranges ranges (map code bs')" for bs'
      using that r(2) by (auto simp: in_ranges_def dest!: list_all2_lengthD)
    then have "moved (lexer_add c lx) bs bs lx'"
      using check_ranges_sound [OF lx'] lx(1,3) by (fastforce simp: moved_def)
    moreover have "scan_plain c lx = (True, lx')"
      using c r(1) lx(2) lx' by (simp add: scan_plain_def next_byte_in_range_def current_char_def)
    ultimately show ?thesis by (auto simp: moved_def)
  qed
qed

section \<open>Whole strings\<close>

lemma scan_string_loop_step:
  assumes "ready lx"
  shows "pending lx = [] \<Longrightarrow> fst (scan_string_loop lx) = parse_error"
    and "pending lx = quote # r \<Longrightarrow> scan_string_loop lx = (value_string, lexer_get lx)"
    and "pending lx = c # r \<Longrightarrow> c \<noteq> quote \<Longrightarrow>
      scan_string_loop lx =
        (case (if c = backslash then scan_escape (lexer_get lx) else scan_plain c (lexer_get lx)) of
           (False, lx') \<Rightarrow> (parse_error, lx')
         | (True, lx') \<Rightarrow> scan_string_loop lx')"
  using assms by (simp_all add: scan_string_loop.simps [of lx] Let_def get_reads quote_def backslash_def)

text \<open>One character, at the place where its text starts.\<close>

lemma string_item_nonempty: "string_item s b \<Longrightarrow> \<exists>c r. b = c # r \<and> c \<noteq> quote"
proof (induction rule: string_item.induct)
  case (item_plain cp)
  obtain c bs where s: "utf8_string cp = c # bs" by (cases "utf8_string cp") (auto simp: utf8_string_def utf8_def split: if_splits)
  from utf8_first [OF item_plain(1) utf8_string_Cons [OF s item_plain(1)]] item_plain(3)
  have "c \<noteq> quote" by (auto simp: quote_def split: if_splits)
  with s show ?case by simp
qed (simp_all add: quote_def backslash_def)

lemma scan_item_sound:
  assumes ready: "ready lx" and c: "pending lx = c # r" "c \<noteq> quote"
    and scan: "(if c = backslash then scan_escape (lexer_get lx) else scan_plain c (lexer_get lx)) = (True, lx')"
  shows "\<exists>s b. string_item s b \<and> moved lx b s lx'"
proof -
  have cur: "lx_current (lexer_get lx) = Some c" using ready c by (simp add: get_reads)
  note m = moved_get [OF ready cur]
  show ?thesis
  proof (cases "c = backslash")
    case True
    then obtain s b where "string_item s (backslash # b)" "moved (lexer_get lx) b s lx'"
      using scan_escape_sound [OF ready_get, of lx lx'] scan by auto
    with moved_trans [OF m] True show ?thesis by fastforce
  next
    case False
    then obtain bs where "string_item (c # bs) (c # bs)" "moved (lexer_get lx) bs (c # bs) lx'"
      using scan_plain_sound [OF ready_get cur c(2)] scan by auto
    with moved_trans [OF m] show ?thesis by fastforce
  qed
qed

lemma scan_item_complete:
  assumes ready: "ready lx" and item: "string_item s (c # b)" and p: "pending lx = c # b @ rest"
  shows "\<exists>lx'. (if c = backslash then scan_escape (lexer_get lx) else scan_plain c (lexer_get lx)) = (True, lx') \<and>
    moved lx (c # b) s lx'"
proof -
  have cur: "lx_current (lexer_get lx) = Some c" "pending (lexer_get lx) = b @ rest"
    using ready p by (simp_all add: get_reads)
  note m = moved_trans [OF moved_get [OF ready cur(1)], of b s]
  show ?thesis
  proof (cases "c = backslash")
    case True
    with item scan_escape_complete [of s b "lexer_get lx" rest] cur(2) m show ?thesis by fastforce
  next
    case False
    with item obtain cp where "s = utf8_string cp" "utf8_string cp = c # b" "scalar_value cp" "0x20 \<le> cp"
      by (auto elim: string_item.cases)
    with scan_plain_complete [OF _ _ _ ready_get cur] False m show ?thesis by fastforce
  qed
qed

lemma scan_string_loop_sound:
  "scan_string_loop lx = (value_string, lx') \<Longrightarrow> ready lx \<Longrightarrow>
   \<exists>s b. string_text s b \<and> moved lx (b @ [quote]) s lx'"
proof (induction lx rule: scan_string_loop.induct)
  case (1 lx)
  note step = scan_string_loop_step [OF "1.prems"(2)]
  obtain c r where p: "pending lx = c # r" using step(1) "1.prems"(1) by (cases "pending lx") auto
  then have cur: "lx_current (lexer_get lx) = Some c" using "1.prems"(2) by (simp add: get_reads)
  show ?case
  proof (cases "c = quote")
    case True
    with step(2) p "1.prems"(1) moved_get [OF "1.prems"(2) cur] show ?thesis
      by (intro exI [of _ "[]"]) (auto intro: text_end)
  next
    case False
    let ?r = "if c = CHR 0x5C then scan_escape (lexer_get lx) else scan_plain c (lexer_get lx)"
    obtain lx2 where lx2: "?r = (True, lx2)" "scan_string_loop lx2 = (value_string, lx')"
      using "1.prems"(1) step(3) [OF p False] by (auto simp: backslash_def split: prod.splits bool.splits)
    then obtain s b where item: "string_item s b" "moved lx b s lx2"
      using scan_item_sound [OF "1.prems"(2) p False] by (auto simp: backslash_def)
    have "\<exists>s b. string_text s b \<and> moved lx2 (b @ [quote]) s lx'"
      by (rule "1.IH" [OF refl cur _ lx2(1) [symmetric] refl lx2(2) moved_ready [OF item(2)]])
        (use False in \<open>simp add: quote_def\<close>)
    then obtain s' b' where "string_text s' b'" "moved lx2 (b' @ [quote]) s' lx'" by blast
    with text_item [OF item(1)] moved_trans [OF item(2)] show ?thesis by (metis append.assoc)
  qed
qed

lemma scan_string_loop_complete:
  "string_text s b \<Longrightarrow> ready lx \<Longrightarrow> pending lx = b @ quote # rest \<Longrightarrow>
   \<exists>lx'. scan_string_loop lx = (value_string, lx') \<and> moved lx (b @ [quote]) s lx'"
proof (induction arbitrary: lx rule: string_text.induct)
  case text_end
  then show ?case
    using scan_string_loop_step(2) [of lx rest] moved_get [of lx quote] by (simp add: get_reads)
next
  case (text_item s b s' b')
  obtain c r where b: "b = c # r" "c \<noteq> quote" using string_item_nonempty [OF text_item(1)] by blast
  with text_item.prems have p: "pending lx = c # r @ b' @ quote # rest" by simp
  obtain lx2 where lx2: "(if c = backslash then scan_escape (lexer_get lx) else scan_plain c (lexer_get lx)) = (True, lx2)"
      "moved lx b s lx2"
    using scan_item_complete [OF text_item.prems(1) _ p] text_item(1) b(1) by blast
  then obtain lx' where "scan_string_loop lx2 = (value_string, lx')" "moved lx2 (b' @ [quote]) s' lx'"
    using text_item.IH [of lx2] text_item.prems by (auto simp: moved_def)
  with lx2 scan_string_loop_step(3) [OF text_item.prems(1) p b(2)] moved_trans [OF lx2(2)] show ?case
    by fastforce
qed

end
