(* ===== verification/Json_Token.thy ===== *)
theory Json_Token
  imports Json_Document Json_Text
begin

text \<open>
  The tokens of the lexer as texts: what \<open>scan\<close> delivers is the text of that token, with the value that
  the parser takes, and every text of a token is read as that token. The parser's \<open>get_token\<close> is stated
  over the text that is left.
\<close>

section \<open>White space\<close>

definition is_json_space :: "char \<Rightarrow> bool" where
  "is_json_space c \<longleftrightarrow> c \<in> {CHR '' '', CHR 0x09, CHR 0x0A, CHR 0x0D}"

abbreviation white :: "string \<Rightarrow> bool" where
  "white w \<equiv> list_all is_json_space w"


definition byte_order_mark :: string where
  "byte_order_mark = [CHR 0xEF, CHR 0xBB, CHR 0xBF]"

text \<open>The lexer between two tokens, with the text that is left.\<close>

definition at_text :: "lexer \<Rightarrow> string \<Rightarrow> bool" where
  "at_text lx s \<longleftrightarrow> ready lx \<and> pending lx = s \<and> 0 < total lx \<and> \<not> lx_ignore_comments lx"

abbreviation skip :: "string \<Rightarrow> string" where
  "skip s \<equiv> dropWhile is_json_space s"

lemma skip_white: "white w \<Longrightarrow> skip (w @ s) = skip s"
  by (induction w) auto

lemma skip_decompose: "\<exists>w. white w \<and> s = w @ skip s"
  by (intro exI [of _ "takeWhile is_json_space s"]) (auto simp: list_all_iff dest: set_takeWhileD)

lemma skip_whitespace_reads:
  "ready lx \<Longrightarrow>
   lx_current (skip_whitespace lx) = first_char (skip (pending lx)) \<and>
   pending (skip_whitespace lx) = tl (skip (pending lx)) \<and>
   ready (skip_whitespace lx) \<and> follows (lexer_get lx) (skip_whitespace lx)"
proof (induction lx rule: skip_whitespace.induct)
  case (1 lx)
  show ?case
  proof (cases "at_char json_space (lexer_get lx)")
    case True
    then obtain c r where p: "pending lx = c # r" "is_json_space c"
      using "1.prems" by (auto simp: at_char_get first_char_Some is_json_space_def)
    from "1.IH" [OF refl True ready_get] True p "1.prems" show ?thesis
      by (auto simp: skip_whitespace.simps [of lx] get_reads dest: follows_get)
  next
    case False
    then have "skip (pending lx) = pending lx"
      using "1.prems" by (cases "pending lx") (auto simp: at_char_get is_json_space_def)
    with False "1.prems" show ?thesis
      by (simp add: skip_whitespace.simps [of lx] get_reads)
  qed
qed

text \<open>\<open>scan\<close> skips white space and reads the token that starts with the next character.\<close>

lemma skip_comments_off: "\<not> lx_ignore_comments lx \<Longrightarrow> skip_comments lx = (True, lx)"
  by (subst skip_comments.simps) simp

text \<open>The first call of \<open>scan\<close> skips the byte order mark as well.\<close>

definition start_text :: "lexer \<Rightarrow> string \<Rightarrow> bool" where
  "start_text lx s \<longleftrightarrow>
     lx = lexer_of s False \<and> first_char s \<noteq> Some (CHR 0xEF) \<or> lx = lexer_of (byte_order_mark @ s) False"

definition before_text :: "lexer \<Rightarrow> string \<Rightarrow> bool" where
  "before_text lx s \<longleftrightarrow> at_text lx s \<or> start_text lx s"

lemma before_textI [intro, simp]: "at_text lx s \<Longrightarrow> before_text lx s"
  by (simp add: before_text_def)

lemma lexer_of_simps [simp]:
  "ready (lexer_of input ic)" "pending (lexer_of input ic) = input" "total (lexer_of input ic) = 0"
  "lx_ignore_comments (lexer_of input ic) = ic"
  by (simp_all add: lexer_of_def ready_def pending_def)

lemma skip_bom_start:
  assumes "start_text lx s"
  shows "\<exists>lx0. skip_bom lx = (True, lx0) \<and> ready lx0 \<and> pending lx0 = s \<and> \<not> lx_ignore_comments lx0"
  using assms unfolding start_text_def
proof
  assume "lx = lexer_of s False \<and> first_char s \<noteq> Some (CHR 0xEF)"
  then show ?thesis
    using unget_get [of lx] by (auto simp: skip_bom_def Let_def get_reads)
next
  assume "lx = lexer_of (byte_order_mark @ s) False"
  then show ?thesis by (simp add: skip_bom_def Let_def get_reads byte_order_mark_def)
qed

lemma scan_before:
  assumes "before_text lx s"
  shows "\<exists>lx0. ready lx0 \<and> pending lx0 = s \<and> \<not> lx_ignore_comments lx0 \<and>
    scan lx = (case skip_comments (skip_whitespace lx0) of (False, lx) \<Rightarrow> (parse_error, lx) | (True, lx) \<Rightarrow> scan_token lx)"
  using assms unfolding before_text_def
proof
  assume "at_text lx s"
  then show ?thesis by (intro exI [of _ lx]) (simp add: at_text_def scan_def)
next
  assume start: "start_text lx s"
  then have "total lx = 0" by (auto simp: start_text_def)
  with skip_bom_start [OF start] show ?thesis by (auto simp: scan_def)
qed

lemma scan_reads:
  assumes "before_text lx s"
  shows "\<exists>lx1. scan lx = scan_token lx1 \<and> lx_current lx1 = first_char (skip s) \<and> at_text lx1 (tl (skip s))"
proof -
  obtain lx0 where lx: "ready lx0" "pending lx0 = s" "\<not> lx_ignore_comments lx0"
    and scan: "scan lx = (case skip_comments (skip_whitespace lx0) of (False, lx) \<Rightarrow> (parse_error, lx) | (True, lx) \<Rightarrow> scan_token lx)"
    using scan_before [OF assms] by blast
  note r = skip_whitespace_reads [OF lx(1)]
  have "\<not> lx_ignore_comments (skip_whitespace lx0)" "0 < total (skip_whitespace lx0)"
    using r lx(3) by (simp_all add: follows_def)
  with r lx(2) scan show ?thesis
    by (intro exI [of _ "skip_whitespace lx0"]) (simp add: skip_comments_off at_text_def)
qed

section \<open>Tokens\<close>

definition punctuation :: "(char \<times> token_type) list" where
  "punctuation =
     [(CHR ''['', begin_array), (CHR '']'', end_array), (CHR ''{'', begin_object), (CHR ''}'', end_object),
      (CHR '':'', name_separator), (CHR '','', value_separator)]"

definition literals :: "(string \<times> token_type) list" where
  "literals = [(''true'', literal_true), (''false'', literal_false), (''null'', literal_null)]"

text \<open>\<open>lexeme t lx b\<close>: \<open>b\<close> is the text of the token \<open>t\<close> with the value that the lexer has stored.\<close>

definition lexeme :: "token_type \<Rightarrow> lexer \<Rightarrow> string \<Rightarrow> bool" where
  "lexeme t lx b \<longleftrightarrow>
     (\<exists>c. b = [c] \<and> map_of punctuation c = Some t) \<or> map_of literals b = Some t \<or>
     t = value_string \<and> (\<exists>b'. b = quote # b' @ [quote] \<and> string_text (lx_token_buffer lx) b') \<or>
     json_number b \<and> token_number t lx = Some (number_value b)"

text \<open>\<open>token t s lx s'\<close>: after white space the token \<open>t\<close> has been read from \<open>s\<close>, with \<open>s'\<close> left.\<close>

definition token_read :: "token_type \<Rightarrow> string \<Rightarrow> lexer \<Rightarrow> string \<Rightarrow> bool" where
  "token_read t s lx s' \<longleftrightarrow> at_text lx s' \<and> (\<exists>w b. white w \<and> s = w @ b @ s' \<and> lexeme t lx b)"

lemma at_text_follows:
  "at_text lx s \<Longrightarrow> follows lx lx' \<Longrightarrow> ready lx' \<Longrightarrow> at_text lx' (pending lx')"
  by (auto simp: at_text_def follows_def)

lemma scan_literal_rest_reads:
  "at_text lx s \<Longrightarrow> CHR 0xFF \<notin> set cs \<Longrightarrow>
   (scan_literal_rest cs t lx = (t', lx') \<longrightarrow> t' \<noteq> parse_error \<longrightarrow> t' = t \<and> s = cs @ pending lx' \<and> at_text lx' (pending lx')) \<and>
   (s = cs @ rest \<longrightarrow> (\<exists>lx'. scan_literal_rest cs t lx = (t, lx') \<and> at_text lx' rest))"
proof (induction cs arbitrary: lx s)
  case (Cons c cs)
  have ready: "ready lx" "pending lx = s" using Cons.prems(1) by (simp_all add: at_text_def)
  have at: "at_text (lexer_get lx) (tl s)"
    using at_text_follows [OF Cons.prems(1), of "lexer_get lx"] ready by (simp add: get_reads)
  have cur: "current_char (lexer_get lx) = c \<longleftrightarrow> first_char s = Some c"
    using ready Cons.prems(2) by (cases s) (auto simp: current_char_def get_reads)
  show ?case
    using Cons.IH [OF at] Cons.prems(2) cur by (auto simp: Let_def first_char_Some)
qed (auto simp: at_text_def)

lemma literals_rest: "map_of literals b = Some t \<Longrightarrow> \<exists>c cs. b = c # cs \<and> CHR 0xFF \<notin> set cs"
  by (auto simp: literals_def split: if_splits)

lemma json_scan_string_reads:
  assumes at: "at_text lx s"
  shows "json_scan_string lx = (value_string, lx') \<Longrightarrow>
      \<exists>b. s = b @ quote # pending lx' \<and> string_text (lx_token_buffer lx') b \<and> at_text lx' (pending lx')"
    and "string_text v b \<Longrightarrow> s = b @ quote # rest \<Longrightarrow>
      \<exists>lx'. json_scan_string lx = (value_string, lx') \<and> lx_token_buffer lx' = v \<and> at_text lx' rest"
proof -
  have lx: "ready (lexer_reset lx)" "pending (lexer_reset lx) = s" "lx_token_buffer (lexer_reset lx) = []"
    using at by (simp_all add: at_text_def)
  have at': "at_text lx' (pending lx')" if "moved (lexer_reset lx) b v lx'" for b v lx'
    using at_text_follows [OF at] that by (simp add: moved_def)
  show "\<exists>b. s = b @ quote # pending lx' \<and> string_text (lx_token_buffer lx') b \<and> at_text lx' (pending lx')"
    if scan: "json_scan_string lx = (value_string, lx')"
  proof -
    obtain v b where "string_text v b" "moved (lexer_reset lx) (b @ [quote]) v lx'"
      using scan_string_loop_sound [OF scan [unfolded json_scan_string_def] lx(1)] by blast
    with at' [OF this(2)] lx show ?thesis by (auto simp: moved_def)
  qed
  show "\<exists>lx'. json_scan_string lx = (value_string, lx') \<and> lx_token_buffer lx' = v \<and> at_text lx' rest"
    if b: "string_text v b" "s = b @ quote # rest"
  proof -
    obtain lx' where "json_scan_string lx = (value_string, lx')" "moved (lexer_reset lx) (b @ [quote]) v lx'"
      using scan_string_loop_complete [OF b(1) lx(1), of rest] lx(2) b(2) by (auto simp: json_scan_string_def)
    with at' [OF this(2)] lx b(2) show ?thesis by (auto simp: moved_def)
  qed
qed

lemma json_scan_number_at:
  assumes at: "at_text lx s" and c: "lx_current lx = Some c" "c = CHR ''-'' \<or> is_digit c"
  shows "json_scan_number lx = (t, lx') \<Longrightarrow> t \<noteq> parse_error \<Longrightarrow>
      \<exists>x. c # s = x @ pending lx' \<and> json_number x \<and> token_number t lx' = Some (number_value x) \<and> at_text lx' (pending lx')"
    and "json_number x \<Longrightarrow> number_stop rest \<Longrightarrow> c # s = x @ rest \<Longrightarrow>
      \<exists>t lx'. json_scan_number lx = (t, lx') \<and> token_number t lx' = Some (number_value x) \<and> at_text lx' rest"
proof -
  have lx: "ready lx" "pending lx = s" using at by (simp_all add: at_text_def)
  note result = json_scan_number_result [OF lx(1) c]
  have fin: "token_number t lx' = Some (number_value x) \<and> pending lx' = r \<and> at_text lx' r"
    if m: "munch_number (c # s) = Some (x, r)" and scan: "json_scan_number lx = (t, lx')" for x r t lx'
  proof -
    obtain lx0 where lx0: "ready lx0" "pending lx0 = r" "lx_token_buffer lx0 = x" "follows lx lx0"
        "scan_number_done (number_type x) (lexer_get lx0) = (t, lx')"
      using result m scan lx(2) by (auto simp: number_result_def ends_as_def)
    have x: "json_number x" using munch_number_sound [OF m] by simp
    note v = scan_number_done_value [OF lx0(1,3) x lx0(5)]
    have "total lx' = total lx0" "lx_ignore_comments lx' = lx_ignore_comments lx0"
      using lx0(5) by (auto simp: scan_number_done_def Let_def split: if_splits)
    then have "follows lx lx'" using lx0(4) by (simp add: follows_def)
    with at_text_follows [OF at this] v lx0(2) show ?thesis by simp
  qed
  show "\<exists>x. c # s = x @ pending lx' \<and> json_number x \<and> token_number t lx' = Some (number_value x) \<and> at_text lx' (pending lx')"
    if scan: "json_scan_number lx = (t, lx')" and t: "t \<noteq> parse_error"
  proof -
    obtain x r where m: "munch_number (c # s) = Some (x, r)"
      using json_scan_number_reads [OF lx(1) c scan] lx(2) t by (auto split: option.splits)
    with munch_number_sound [OF m] fin [OF m scan] show ?thesis by auto
  qed
  show "\<exists>t lx'. json_scan_number lx = (t, lx') \<and> token_number t lx' = Some (number_value x) \<and> at_text lx' rest"
    if "json_number x" "number_stop rest" "c # s = x @ rest"
    using fin [of x rest "fst (json_scan_number lx)" "snd (json_scan_number lx)"] munch_number_complete [OF that(1,2)] that(3)
    by (intro exI [of _ "fst (json_scan_number lx)"] exI [of _ "snd (json_scan_number lx)"]) simp
qed

text \<open>The tokens that \<open>scan_token\<close> delivers, and the texts it takes as tokens.\<close>

lemma scan_token_cases:
  assumes "lx_current lx = Some c"
  shows "map_of punctuation c = Some t \<Longrightarrow> scan_token lx = (t, lx)"
    and "map_of literals (c # cs) = Some t \<Longrightarrow> scan_token lx = scan_literal_rest cs t lx"
    and "c = quote \<Longrightarrow> scan_token lx = json_scan_string lx"
    and "c = CHR ''-'' \<or> is_digit c \<Longrightarrow> scan_token lx = json_scan_number lx"
    and "c = CHR 0x00 \<Longrightarrow> scan_token lx = (end_of_input, lx)"
proof -
  show "scan_token lx = (t, lx)" if "map_of punctuation c = Some t"
  proof -
    from that have "(c, t) \<in> set punctuation" by (rule map_of_SomeD)
    then have "c = CHR ''['' \<and> t = begin_array \<or> c = CHR '']'' \<and> t = end_array \<or> c = CHR ''{'' \<and> t = begin_object \<or>
        c = CHR ''}'' \<and> t = end_object \<or> c = CHR '':'' \<and> t = name_separator \<or> c = CHR '','' \<and> t = value_separator"
      unfolding punctuation_def by simp
    then show ?thesis using assms by (elim disjE conjE) (simp_all add: scan_token_def)
  qed
  show "scan_token lx = scan_literal_rest cs t lx" if "map_of literals (c # cs) = Some t"
  proof -
    from that have "(c # cs, t) \<in> set literals" by (rule map_of_SomeD)
    then have "c = CHR ''t'' \<and> cs = ''rue'' \<and> t = literal_true \<or> c = CHR ''f'' \<and> cs = ''alse'' \<and> t = literal_false \<or>
        c = CHR ''n'' \<and> cs = ''ull'' \<and> t = literal_null"
      unfolding literals_def by simp
    then show ?thesis using assms by (elim disjE conjE) (simp_all add: scan_token_def scan_literal_def)
  qed
  have digit: "c \<notin> set ''[]{}:,tfn''" "c \<noteq> CHR 0x22" if "is_digit c" using that by (auto simp: is_digit_def)
  show "scan_token lx = json_scan_number lx" if "c = CHR ''-'' \<or> is_digit c"
    using that
  proof
    assume "is_digit c"
    with digit [OF this] assms show ?thesis by (simp add: scan_token_def)
  qed (use assms in \<open>simp add: scan_token_def\<close>)
qed (use assms in \<open>simp_all add: scan_token_def quote_def is_digit_def\<close>)

lemma scan_token_first:
  assumes "lx_current lx = Some c" and "scan_token lx = (t, lx')" and "t \<noteq> parse_error"
  shows "map_of punctuation c = Some t \<or> (\<exists>cs t'. map_of literals (c # cs) = Some t' \<and> c \<notin> {CHR 0x00}) \<or>
    c = quote \<or> c = CHR ''-'' \<or> is_digit c \<or> c = CHR 0x00 \<and> t = end_of_input"
  using assms by (auto simp: scan_token_def punctuation_def literals_def quote_def split: if_splits)

lemma token_types:
  "map_of punctuation c = Some t \<Longrightarrow> t \<notin> {parse_error, end_of_input}"
  "map_of literals b = Some t \<Longrightarrow> t \<notin> {parse_error, end_of_input}"
  "token_number t lx = Some j \<Longrightarrow> t \<in> {value_unsigned, value_integer, value_float}"
  by (auto simp: punctuation_def literals_def token_number_def split: if_splits token_type.splits)

lemma scan_token_sound:
  assumes at: "at_text lx s" and c: "lx_current lx = Some c" and scan: "scan_token lx = (t, lx')"
    and t: "t \<noteq> parse_error"
  shows "(t = end_of_input \<and> c = CHR 0x00) \<or>
    (t \<noteq> end_of_input \<and> at_text lx' (pending lx') \<and> (\<exists>b. c # s = b @ pending lx' \<and> lexeme t lx' b))"
  using scan_token_first [OF c scan t]
proof (elim disjE exE conjE)
  assume p: "map_of punctuation c = Some t"
  with scan_token_cases(1) [OF c p] scan at token_types(1) [OF p] show ?thesis
    by (auto simp: lexeme_def at_text_def)
next
  fix cs t'
  assume p: "map_of literals (c # cs) = Some t'"
  have "scan_literal_rest cs t' lx = (t, lx')" using scan_token_cases(2) [OF c p] scan by simp
  then have "t = t'" "s = cs @ pending lx'" "at_text lx' (pending lx')"
    using scan_literal_rest_reads [OF at, of cs] literals_rest [OF p] t by auto
  with p token_types(2) [OF p] show ?thesis by (auto simp: lexeme_def)
next
  assume p: "c = quote"
  then have j: "json_scan_string lx = (t, lx')" using scan_token_cases(3) [OF c] scan by simp
  then have "t = value_string"
    using scan_string_loop_token t unfolding json_scan_string_def by blast
  with json_scan_string_reads(1) [OF at, of lx'] j p show ?thesis by (auto simp: lexeme_def)
next
  assume p: "c = CHR ''-''"
  then have "json_scan_number lx = (t, lx')" using scan_token_cases(4) [OF c] scan by simp
  from json_scan_number_at(1) [OF at c _ this t] p token_types(3) [of t lx'] show ?thesis by (auto simp: lexeme_def)
next
  assume p: "is_digit c"
  then have "json_scan_number lx = (t, lx')" using scan_token_cases(4) [OF c] scan by simp
  from json_scan_number_at(1) [OF at c _ this t] p token_types(3) [of t lx'] show ?thesis by (auto simp: lexeme_def)
qed auto

lemma scan_sound:
  assumes at: "before_text lx s" and scan: "scan lx = (t, lx')" and t: "t \<noteq> parse_error"
  shows "(t = end_of_input \<and> (white s \<or> (\<exists>w r. white w \<and> s = w @ CHR 0x00 # r))) \<or>
    (t \<noteq> end_of_input \<and> token_read t s lx' (pending lx'))"
proof -
  obtain lx1 where lx1: "scan lx = scan_token lx1" "lx_current lx1 = first_char (skip s)" "at_text lx1 (tl (skip s))"
    using scan_reads [OF at] by blast
  obtain w where w: "white w" "s = w @ skip s" using skip_decompose by blast
  show ?thesis
  proof (cases "skip s")
    case Nil
    have "s = w" using w(2) unfolding Nil by simp
    with w(1) have "white s" by blast
    with Nil lx1 scan show ?thesis by (auto simp: scan_token_def)
  next
    case (Cons c r)
    then have s: "s = w @ c # r" using w(2) by simp
    from Cons lx1 have "at_text lx1 r" "lx_current lx1 = Some c" "scan_token lx1 = (t, lx')" using scan by simp_all
    from scan_token_sound [OF this t] show ?thesis
    proof (elim disjE conjE exE)
      fix b
      assume "t \<noteq> end_of_input" "at_text lx' (pending lx')" "c # r = b @ pending lx'" "lexeme t lx' b"
      with w(1) s show ?thesis by (auto simp: token_read_def)
    next
      assume "t = end_of_input" "c = CHR 0x00"
      with w(1) s show ?thesis by auto
    qed
  qed
qed

text \<open>Every text of a token is read as that token.\<close>

abbreviation at_parser :: "parser \<Rightarrow> string \<Rightarrow> bool" where
  "at_parser ps s \<equiv> before_text (ps_lexer ps) s"

lemma not_space:
  "map_of punctuation c = Some t \<Longrightarrow> \<not> is_json_space c" "map_of literals (c # cs) = Some t \<Longrightarrow> \<not> is_json_space c"
  "\<not> is_json_space quote" "c = CHR ''-'' \<or> is_digit c \<Longrightarrow> \<not> is_json_space c" "\<not> is_json_space (CHR 0x00)"
  by (auto simp: is_json_space_def punctuation_def literals_def quote_def is_digit_def dest!: map_of_SomeD)

lemma scan_at:
  assumes "before_text lx (w @ c # r)" and "white w" and "\<not> is_json_space c"
  shows "\<exists>lx1. scan lx = scan_token lx1 \<and> lx_current lx1 = Some c \<and> at_text lx1 r"
  using scan_reads [OF assms(1)] assms(3) by (simp add: skip_white [OF assms(2)])

lemma get_punctuation:
  assumes "at_parser ps (w @ c # rest)" and "white w" and "map_of punctuation c = Some t"
  shows "ps_last_token (get_token ps) = t" and "at_parser (get_token ps) rest"
  using scan_at [OF assms(1,2) not_space(1) [OF assms(3)]] scan_token_cases(1) [OF _ assms(3)]
  by (auto simp: get_token_def)

lemma get_literal:
  assumes at: "at_parser ps (w @ b @ rest)" and w: "white w" and b: "map_of literals b = Some t"
  shows "ps_last_token (get_token ps) = t" and "at_parser (get_token ps) rest"
proof -
  obtain c cs where b': "b = c # cs" "CHR 0xFF \<notin> set cs" using literals_rest [OF b] by blast
  then obtain lx1 where "scan (ps_lexer ps) = scan_token lx1" "lx_current lx1 = Some c" "at_text lx1 (cs @ rest)"
    using scan_at [of "ps_lexer ps" w c "cs @ rest"] at w not_space(2) b by auto
  moreover from this(3) obtain lx' where "scan_literal_rest cs t lx1 = (t, lx')" "at_text lx' rest"
    using scan_literal_rest_reads [of lx1 "cs @ rest" cs] b'(2) by blast
  ultimately have "scan (ps_lexer ps) = (t, lx')" "at_text lx' rest"
    using scan_token_cases(2) [of lx1 c cs t] b b'(1) by simp_all
  then show "ps_last_token (get_token ps) = t" "at_parser (get_token ps) rest" by (auto simp: get_token_def)
qed

lemma get_string:
  assumes at: "at_parser ps (w @ (quote # b @ [quote]) @ rest)" and w: "white w" and b: "string_text s b"
  shows "ps_last_token (get_token ps) = value_string" and "lx_token_buffer (ps_lexer (get_token ps)) = s"
    and "at_parser (get_token ps) rest"
proof -
  obtain lx1 where "scan (ps_lexer ps) = scan_token lx1" "lx_current lx1 = Some quote" "at_text lx1 (b @ quote # rest)"
    using scan_at [of "ps_lexer ps" w quote "b @ quote # rest"] at w not_space(3) by auto
  with scan_token_cases(3) [of lx1 quote] json_scan_string_reads(2) [of lx1 _ s b rest] b
  show "ps_last_token (get_token ps) = value_string" "lx_token_buffer (ps_lexer (get_token ps)) = s"
    "at_parser (get_token ps) rest" by (auto simp: get_token_def)
qed

lemma json_number_first: "json_number x \<Longrightarrow> \<exists>c cs. x = c # cs \<and> (c = CHR ''-'' \<or> is_digit c)"
  using digits1_first by (fastforce simp: json_number_def int_part_def)

lemma get_number:
  assumes at: "at_parser ps (w @ x @ rest)" and w: "white w" and x: "json_number x" "number_stop rest"
  shows "token_number (ps_last_token (get_token ps)) (ps_lexer (get_token ps)) = Some (number_value x)"
    and "at_parser (get_token ps) rest"
proof -
  obtain c cs where c: "x = c # cs" "c = CHR ''-'' \<or> is_digit c" using json_number_first [OF x(1)] by blast
  then obtain lx1 where lx1: "scan (ps_lexer ps) = scan_token lx1" "lx_current lx1 = Some c" "at_text lx1 (cs @ rest)"
    using scan_at [of "ps_lexer ps" w c "cs @ rest"] at w not_space(4) by auto
  from json_scan_number_at(2) [OF lx1(3,2) c(2) x] c(1) scan_token_cases(4) [OF lx1(2) c(2)] lx1(1)
  show "token_number (ps_last_token (get_token ps)) (ps_lexer (get_token ps)) = Some (number_value x)"
    "at_parser (get_token ps) rest" by (auto simp: get_token_def)
qed

lemma get_end:
  assumes at: "at_parser ps s" and s: "white s \<or> (\<exists>w r. white w \<and> s = w @ CHR 0x00 # r)"
  shows "ps_last_token (get_token ps) = end_of_input"
  using s
proof (elim disjE exE conjE)
  assume "white s"
  then have "skip s = []" by (metis append_Nil2 dropWhile.simps(1) skip_white)
  with scan_reads [OF at] show ?thesis by (auto simp: get_token_def scan_token_def)
next
  fix w r
  assume "white w" "s = w @ CHR 0x00 # r"
  with scan_at [of "ps_lexer ps" w "CHR 0x00" r] at not_space(5) show ?thesis
    by (auto simp: get_token_def scan_token_cases(5))
qed

text \<open>The text of each token.\<close>

lemma get_token_sound:
  assumes "at_parser ps s" and "ps_last_token (get_token ps) = t" and "t \<notin> {parse_error, end_of_input}"
  shows "\<exists>w b rest. white w \<and> s = w @ b @ rest \<and> lexeme t (ps_lexer (get_token ps)) b \<and> at_parser (get_token ps) rest"
proof -
  obtain lx where lx: "scan (ps_lexer ps) = (t, lx)" "get_token ps = \<lparr>ps_last_token = t, ps_lexer = lx\<rparr>"
    using assms(2) by (cases "scan (ps_lexer ps)") (simp add: get_token_def)
  have "token_read t s lx (pending lx)" using scan_sound [OF assms(1) lx(1)] assms(3) by auto
  with lx(2) show ?thesis unfolding token_read_def by auto
qed

lemma lexeme_punctuation:
  assumes "(c, t) \<in> set punctuation" and "lexeme t lx b"
  shows "b = [c]"
proof -
  have "map_of punctuation d = Some t \<Longrightarrow> d = c" for d
    using assms(1) by (drule_tac map_of_SomeD) (auto simp: punctuation_def)
  moreover have "map_of literals b \<noteq> Some t" "t \<noteq> value_string" "token_number t lx = None"
    using assms(1) by (auto simp: literals_def punctuation_def token_number_def dest!: map_of_SomeD)
  ultimately show ?thesis using assms(2) by (auto simp: lexeme_def)
qed

lemma get_punctuation_sound:
  assumes "at_parser ps s" and "ps_last_token (get_token ps) = t" and "(c, t) \<in> set punctuation"
  shows "\<exists>w rest. white w \<and> s = w @ c # rest \<and> at_parser (get_token ps) rest"
proof -
  have "t \<notin> {parse_error, end_of_input}" using assms(3) by (auto simp: punctuation_def)
  from get_token_sound [OF assms(1,2) this] lexeme_punctuation [OF assms(3)] show ?thesis by fastforce
qed

lemma get_string_sound:
  assumes "at_parser ps s" and "ps_last_token (get_token ps) = value_string"
  shows "\<exists>w b rest. white w \<and> s = w @ (quote # b @ [quote]) @ rest \<and>
    string_text (lx_token_buffer (ps_lexer (get_token ps))) b \<and> at_parser (get_token ps) rest"
proof -
  have "map_of punctuation c \<noteq> Some value_string" "map_of literals b \<noteq> Some value_string" for c b
    by (auto simp: punctuation_def literals_def dest!: map_of_SomeD)
  then have "lexeme value_string lx b \<Longrightarrow> \<exists>b'. b = quote # b' @ [quote] \<and> string_text (lx_token_buffer lx) b'" for lx b
    by (auto simp: lexeme_def token_number_def)
  with get_token_sound [OF assms] show ?thesis by fastforce
qed

end
