(* ===== verification/Json_Grammar.thy ===== *)
theory Json_Grammar
  imports Json_Token
begin

text \<open>
  The JSON texts of RFC 8259 with the documents they stand for, and that the parser reads every one of
  them: its tree builder stores the document of each value at the place the value belongs to.
\<close>

section \<open>The grammar\<close>

text \<open>
  \<open>value_text j t\<close>: the text \<open>t\<close> is a value with the document \<open>j\<close>. A number has to be finite as a
  \<open>double\<close> unless it is an integer that fits. The members of an object are in the order of their keys, and the last
  one of a key counts.
\<close>

inductive value_text :: "json \<Rightarrow> string \<Rightarrow> bool"
  and elements_text :: "json list \<Rightarrow> string \<Rightarrow> bool"
  and members_text :: "(string \<times> json) list \<Rightarrow> string \<Rightarrow> bool"
where
  null_text: "value_text JNull ''null''"
| true_text: "value_text (JBool True) ''true''"
| false_text: "value_text (JBool False) ''false''"
| number_text: "json_number x \<Longrightarrow> number_value x = j \<Longrightarrow> (\<And>f. j = JFloat f \<Longrightarrow> isfinite f) \<Longrightarrow> value_text j x"
| quoted_text: "string_text s b \<Longrightarrow> value_text (JString s) (quote # b @ [quote])"
| empty_array: "white w \<Longrightarrow> value_text (JArray []) (CHR ''['' # w @ '']'')"
| array_text: "elements_text js t \<Longrightarrow> value_text (JArray js) (CHR ''['' # t @ '']'')"
| empty_object: "white w \<Longrightarrow> value_text (JObject []) (CHR ''{'' # w @ ''}'')"
| object_text: "members_text ms t \<Longrightarrow> sorted_wrt (<) (map fst kvs) \<Longrightarrow> map_of kvs = map_of (rev ms) \<Longrightarrow>
    value_text (JObject kvs) (CHR ''{'' # t @ ''}'')"
| one_element: "white w \<Longrightarrow> value_text j t \<Longrightarrow> white w' \<Longrightarrow> elements_text [j] (w @ t @ w')"
| more_elements: "white w \<Longrightarrow> value_text j t \<Longrightarrow> white w' \<Longrightarrow> elements_text js ts \<Longrightarrow>
    elements_text (j # js) (w @ t @ w' @ CHR '','' # ts)"
| one_member: "white w1 \<Longrightarrow> string_text k b \<Longrightarrow> white w2 \<Longrightarrow> white w3 \<Longrightarrow> value_text j t \<Longrightarrow> white w4 \<Longrightarrow>
    members_text [(k, j)] (w1 @ (quote # b @ [quote]) @ w2 @ CHR '':'' # w3 @ t @ w4)"
| more_members: "white w1 \<Longrightarrow> string_text k b \<Longrightarrow> white w2 \<Longrightarrow> white w3 \<Longrightarrow> value_text j t \<Longrightarrow> white w4 \<Longrightarrow>
    members_text ms ts \<Longrightarrow>
    members_text ((k, j) # ms) (w1 @ (quote # b @ [quote]) @ w2 @ CHR '':'' # w3 @ t @ w4 @ CHR '','' # ts)"

text \<open>A text: a value in white space, after an optional byte order mark.\<close>

definition json_text :: "json \<Rightarrow> string \<Rightarrow> bool" where
  "json_text j s \<longleftrightarrow>
     (\<exists>bom w t w'. s = bom @ w @ t @ w' \<and> bom \<in> {[], byte_order_mark} \<and> white w \<and> value_text j t \<and> white w')"

section \<open>The tree builder at a place of the document\<close>

text \<open>
  \<open>receives dp r R\<close>: the builder stores the next value \<open>v\<close> at the reference \<open>r\<close> and has the document
  \<open>R v\<close> then; what is stored at \<open>r\<close> later replaces it.
\<close>

definition place :: "reference \<Rightarrow> (json \<Rightarrow> json) \<Rightarrow> bool" where
  "place r R \<longleftrightarrow> (\<forall>q v v'. deref (r @ q) (R v) = deref q v \<and> assign (r @ q) v' (R v) = R (assign q v' v))"

definition receives :: "dom \<Rightarrow> reference \<Rightarrow> (json \<Rightarrow> json) \<Rightarrow> bool" where
  "receives dp r R \<longleftrightarrow> place r R \<and> (\<forall>v. handle_value v dp = Inr (r, dp\<lparr>dp_root := R v\<rparr>))"

lemma receives_root: "receives new_dom [] (\<lambda>v. v)"
  by (simp add: receives_def place_def handle_value_def new_dom_def)

lemma place_at:
  assumes "place r R"
  shows "deref r (R v) = Some v" and "assign r v' (R v) = R v'"
proof -
  have "deref (r @ []) (R v) = deref [] v \<and> assign (r @ []) v' (R v) = R (assign [] v' v)"
    using assms unfolding place_def by blast
  then show "deref r (R v) = Some v" and "assign r v' (R v) = R v'"
    by (simp_all only: append_Nil2 deref.simps(1) assign.simps(1))
qed

text \<open>\<open>inside c r R dp\<close>: the innermost container the builder is in, at \<open>r\<close>, is \<open>c\<close>.\<close>

definition inside :: "json \<Rightarrow> reference \<Rightarrow> (json \<Rightarrow> json) \<Rightarrow> reference list \<Rightarrow> dom \<Rightarrow> bool" where
  "inside c r R refs dp \<longleftrightarrow> place r R \<and> dp_ref_stack dp = r # refs \<and> dp_root dp = R c"

lemma element_assign:
  "assign (Index (length js) # q) v' (JArray (js @ [v])) = JArray (js @ [assign q v' v])"
  "deref (Index (length js) # q) (JArray (js @ [v])) = deref q v"
  by simp_all

lemma receives_element:
  assumes "inside (JArray js) r R refs dp"
  shows "receives dp (r @ [Index (length js)]) (\<lambda>v. R (JArray (js @ [v])))"
proof -
  have place: "place r R" using assms by (simp add: inside_def)
  then have "place (r @ [Index (length js)]) (\<lambda>v. R (JArray (js @ [v])))"
    using element_assign by (simp only: place_def append_assoc append_Cons append_Nil) blast
  with assms show ?thesis by (simp add: receives_def inside_def place_at handle_value_def)
qed

text \<open>The value of a key is put in its place or replaced.\<close>

definition put_member :: "string \<Rightarrow> json \<Rightarrow> (string \<times> json) list \<Rightarrow> (string \<times> json) list" where
  "put_member k v kvs = map (\<lambda>(k', w). (k', if k' = k then v else w)) (map_emplace k kvs)"

lemma map_of_emplace: "k' \<noteq> k \<Longrightarrow> map_of (map_emplace k kvs) k' = map_of kvs k'" "map_of (map_emplace k kvs) k \<noteq> None"
  by (induction k kvs rule: map_emplace.induct) auto

lemma put_member_map_of: "map_of (put_member k v kvs) = (map_of kvs)(k \<mapsto> v)"
proof
  fix k'
  have "map_of (map (\<lambda>(k', w). (k', if k' = k then v else w)) xs) k' =
      (if k' = k then map_option (\<lambda>_. v) (map_of xs k) else map_of xs k')" for xs
    by (induction xs) auto
  then show "map_of (put_member k v kvs) k' = ((map_of kvs)(k \<mapsto> v)) k'"
    using map_of_emplace(2) [of k kvs] by (auto simp: put_member_def map_of_emplace(1))
qed

lemma put_member_sorted: "sorted_wrt (<) (map fst kvs) \<Longrightarrow> sorted_wrt (<) (map fst (put_member k v kvs))"
proof -
  have "map fst (put_member k v kvs) = map fst (map_emplace k kvs)" by (auto simp: put_member_def)
  then show "sorted_wrt (<) (map fst kvs) \<Longrightarrow> ?thesis" by (simp add: map_emplace_sorted)
qed

lemma put_member_assign:
  "assign (Key k # q) v' (JObject (put_member k v kvs)) = JObject (put_member k (assign q v' v) kvs)"
  "deref (Key k # q) (JObject (put_member k v kvs)) = deref q v"
  by (auto simp: put_member_map_of) (auto simp: put_member_def)

lemma sax_key_inside:
  assumes "inside (JObject kvs) r R refs dp"
  shows "\<exists>dp'. sax_key k dp = Inr dp' \<and> dp_ref_stack dp' = r # refs \<and>
    receives dp' (r @ [Key k]) (\<lambda>v. R (JObject (put_member k v kvs)))"
proof -
  let ?dp = "dp\<lparr>dp_root := R (JObject (map_emplace k kvs)), dp_object_element := Some (r @ [Key k])\<rparr>"
  have place: "place r R" using assms by (simp add: inside_def)
  have "sax_key k dp = Inr ?dp" using assms by (simp add: sax_key_def inside_def place_at)
  moreover have "place (r @ [Key k]) (\<lambda>v. R (JObject (put_member k v kvs)))"
    using place put_member_assign by (simp only: place_def append_assoc append_Cons append_Nil) blast
  moreover have "assign (r @ [Key k]) v (R (JObject (map_emplace k kvs))) = R (JObject (put_member k v kvs))" for v
    using place by (simp add: place_def put_member_def cong: if_cong)
  ultimately show ?thesis
    using assms by (intro exI [of _ ?dp]) (simp add: receives_def inside_def place_at handle_value_def)
qed

lemma sax_start_inside:
  assumes "receives dp r R"
  shows "\<exists>dp'. sax_start c dp = Inr dp' \<and> inside c r R (dp_ref_stack dp) dp'"
  using assms by (simp add: sax_start_def receives_def inside_def bind_result_def)

lemma sax_end_inside:
  "inside (JObject kvs) r R refs dp \<Longrightarrow> sax_end_object dp = Inr (dp\<lparr>dp_ref_stack := refs\<rparr>)"
  "inside (JArray js) r R refs dp \<Longrightarrow> sax_end_array dp = Inr (dp\<lparr>dp_ref_stack := refs\<rparr>)"
  by (simp_all add: sax_end_object_def sax_end_array_def inside_def place_at)

text \<open>The object that members make up is determined by its keys and values.\<close>

definition object_members :: "(string \<times> json) list \<Rightarrow> (string \<times> json) list \<Rightarrow> (string \<times> json) list" where
  "object_members ms kvs = fold (\<lambda>(k, v). put_member k v) ms kvs"

lemma object_members_map_of: "map_of (object_members ms kvs) = map_of kvs ++ map_of (rev ms)"
  by (induction ms arbitrary: kvs) (auto simp: object_members_def put_member_map_of fun_eq_iff map_add_def split: option.split)

lemma object_members_sorted:
  "sorted_wrt (<) (map fst kvs) \<Longrightarrow> sorted_wrt (<) (map fst (object_members ms kvs))"
  by (induction ms arbitrary: kvs) (auto simp: object_members_def put_member_sorted)

lemma sorted_members_unique:
  fixes kvs kvs' :: "(string \<times> json) list"
  assumes "sorted_wrt (<) (map fst kvs)" "sorted_wrt (<) (map fst kvs')" "map_of kvs = map_of kvs'"
  shows "kvs = kvs'"
proof -
  have keys: "map fst kvs = map fst kvs'"
  proof (rule strict_sorted_equal [OF assms(2,1)])
    show "set (map fst kvs) = set (map fst kvs')" using assms(3) dom_map_of_conv_image_fst by (metis list.set_map)
  qed
  have entry: "kv = (fst kv, the (map_of xs (fst kv)))"
    if "kv \<in> set xs" "sorted_wrt (<) (map fst xs)" for kv and xs :: "(string \<times> json) list"
  proof -
    have "map_of xs (fst kv) = Some (snd kv)"
      using that by (intro map_of_is_SomeI) (simp_all add: strict_sorted_iff)
    then show ?thesis by simp
  qed
  have "kvs = map (\<lambda>k. (k, the (map_of kvs k))) (map fst kvs)"
    using entry assms(1) by (auto simp: map_idI)
  also have "\<dots> = map (\<lambda>k. (k, the (map_of kvs' k))) (map fst kvs')" by (simp only: keys assms(3))
  also have "\<dots> = kvs'" using entry assms(2) by (auto simp: map_idI)
  finally show ?thesis .
qed

section \<open>The parser reads every text of the grammar\<close>

text \<open>What the parser does at the start of a value, of the elements of an array and of the members of an object.\<close>

definition parses_value :: "json \<Rightarrow> string \<Rightarrow> bool" where
  "parses_value j t \<longleftrightarrow>
     (\<forall>sts ps dp r R w rest. white w \<longrightarrow> number_stop rest \<longrightarrow> at_parser ps (w @ t @ rest) \<longrightarrow> receives dp r R \<longrightarrow>
       (\<exists>ps' dp'. sax_parse_internal False sts (get_token ps) dp = sax_parse_internal True sts ps' dp' \<and>
          at_parser ps' rest \<and> dp_root dp' = R j \<and> dp_ref_stack dp' = dp_ref_stack dp))"

definition parses_elements :: "json list \<Rightarrow> string \<Rightarrow> bool" where
  "parses_elements js t \<longleftrightarrow>
     (\<forall>sts ps dp r R refs js0 rest. at_parser ps (t @ CHR '']'' # rest) \<longrightarrow> inside (JArray js0) r R refs dp \<longrightarrow>
       (\<exists>ps' dp'. sax_parse_internal False (True # sts) (get_token ps) dp = sax_parse_internal True sts ps' dp' \<and>
          at_parser ps' rest \<and> dp_root dp' = R (JArray (js0 @ js)) \<and> dp_ref_stack dp' = refs))"

text \<open>A key with its colon and the first token of its value.\<close>

definition read_member :: "bool list \<Rightarrow> parser \<Rightarrow> dom \<Rightarrow> (bool \<times> bool list \<times> parser \<times> dom) result" where
  "read_member states ps dp =
     (if ps_last_token ps \<noteq> value_string
      then Inl (syntax_error value_string ''object key'' ps)
      else bind_result (sax_key (lx_token_buffer (ps_lexer ps)) dp) (\<lambda>dp.
        let ps = get_token ps
        in if ps_last_token ps \<noteq> name_separator
           then Inl (syntax_error name_separator ''object separator'' ps)
           else Inr (False, False # states, get_token ps, dp)))"

lemma object_by_members:
  "parse_object_start states ps dp =
     bind_result (sax_start_object dp) (\<lambda>dp.
       let ps = get_token ps
       in if ps_last_token ps = end_object
          then bind_result (sax_end_object dp) (\<lambda>dp. Inr (True, states, ps, dp))
          else read_member states ps dp)"
  "evaluate_object (False # outer) outer ps dp =
     (let ps = get_token ps
      in if ps_last_token ps = value_separator then read_member outer (get_token ps) dp
         else if ps_last_token ps = end_object
         then bind_result (sax_end_object dp) (\<lambda>dp. Inr (True, outer, ps, dp))
         else Inl (syntax_error end_object ''object'' ps))"
  by (simp_all only: parse_object_start_def evaluate_object_def read_member_def Let_def)

definition parses_members :: "(string \<times> json) list \<Rightarrow> string \<Rightarrow> bool" where
  "parses_members ms t \<longleftrightarrow>
     (\<forall>sts ps dp r R refs kvs rest. at_parser ps (t @ CHR ''}'' # rest) \<longrightarrow> inside (JObject kvs) r R refs dp \<longrightarrow>
       (\<exists>ps1 dp1 ps' dp'. read_member sts (get_token ps) dp = Inr (False, False # sts, ps1, dp1) \<and>
          sax_parse_internal False (False # sts) ps1 dp1 = sax_parse_internal True sts ps' dp' \<and>
          at_parser ps' rest \<and> dp_root dp' = R (JObject (object_members ms kvs)) \<and> dp_ref_stack dp' = refs))"

lemma parse_value_step:
  assumes "parse_value sts ps dp = Inr (b, sts', ps', dp')"
  shows "sax_parse_internal False sts ps dp = sax_parse_internal b sts' ps' dp'"
  using assms by (cases b) (simp_all add: sax_parse_internal.simps [of False sts] sax_parse_internal.simps [of True sts'])

lemma evaluate_step:
  "evaluate_array (True # outer) outer ps dp = Inr (b, sts', ps', dp') \<Longrightarrow>
   sax_parse_internal True (True # outer) ps dp = sax_parse_internal b sts' ps' dp'"
  "evaluate_object (False # outer) outer ps dp = Inr (b, sts', ps', dp') \<Longrightarrow>
   sax_parse_internal True (False # outer) ps dp = sax_parse_internal b sts' ps' dp'"
  by (simp_all add: sax_parse_internal.simps [of True "_ # _"])

lemma number_stop_white:
  "white w \<Longrightarrow> c \<in> set '',]}'' \<Longrightarrow> number_stop (w @ c # r)"
  "white w \<Longrightarrow> number_stop w" "white w \<Longrightarrow> number_stop (w @ CHR 0x00 # r)"
  by (cases w; auto simp: number_stop_def is_json_space_def is_digit_def)+

lemma parses_scalar:
  assumes "\<And>ps w rest sts dp. white w \<Longrightarrow> number_stop rest \<Longrightarrow> at_parser ps (w @ t @ rest) \<Longrightarrow>
    at_parser (get_token ps) rest \<and> parse_value sts (get_token ps) dp = parse_scalar j sts (get_token ps) dp"
  shows "parses_value j t"
  unfolding parses_value_def
proof (intro allI impI)
  fix sts ps dp r R w rest
  assume w: "white w" "number_stop rest" "at_parser ps (w @ t @ rest)" and r: "receives dp r R"
  from r have "parse_scalar j sts (get_token ps) dp = Inr (True, sts, get_token ps, dp\<lparr>dp_root := R j\<rparr>)"
    by (simp add: parse_scalar_def sax_value_def receives_def bind_result_def)
  with assms [OF w] parse_value_step show "\<exists>ps' dp'.
      sax_parse_internal False sts (get_token ps) dp = sax_parse_internal True sts ps' dp' \<and>
      at_parser ps' rest \<and> dp_root dp' = R j \<and> dp_ref_stack dp' = dp_ref_stack dp"
    by (intro exI [of _ "get_token ps"] exI [of _ "dp\<lparr>dp_root := R j\<rparr>"]) simp
qed

lemma literal_tokens:
  "map_of literals ''null'' = Some literal_null" "map_of literals ''true'' = Some literal_true"
  "map_of literals ''false'' = Some literal_false"
  by (simp_all add: literals_def)

lemma punctuation_tokens:
  "map_of punctuation (CHR ''['') = Some begin_array" "map_of punctuation (CHR '']'') = Some end_array"
  "map_of punctuation (CHR ''{'') = Some begin_object" "map_of punctuation (CHR ''}'') = Some end_object"
  "map_of punctuation (CHR '':'') = Some name_separator" "map_of punctuation (CHR '','') = Some value_separator"
  by (simp_all add: punctuation_def)

lemma parses_literal:
  assumes "map_of literals b = Some t" "(t, j) \<in> {(literal_null, JNull), (literal_true, JBool True), (literal_false, JBool False)}"
  shows "parses_value j b"
proof (rule parses_scalar)
  fix ps w rest sts dp
  assume "white w" "at_parser ps (w @ b @ rest)"
  from get_literal [OF this(2,1) assms(1)]
  show "at_parser (get_token ps) rest \<and> parse_value sts (get_token ps) dp = parse_scalar j sts (get_token ps) dp"
    using assms(2) by (auto simp: parse_value_def)
qed

lemma parses_string: "string_text s b \<Longrightarrow> parses_value (JString s) (quote # b @ [quote])"
proof (rule parses_scalar)
  fix ps w rest sts dp
  assume "string_text s b" "white w" "at_parser ps (w @ (quote # b @ [quote]) @ rest)"
  with get_string [OF this(3,2,1)] show "at_parser (get_token ps) rest \<and>
      parse_value sts (get_token ps) dp = parse_scalar (JString s) sts (get_token ps) dp"
    by (simp add: parse_value_def)
qed

lemma parses_number:
  assumes "json_number x" "number_value x = j" "\<And>f. j = JFloat f \<Longrightarrow> isfinite f"
  shows "parses_value j x"
proof (rule parses_scalar)
  fix ps w rest sts dp
  assume "white w" "number_stop rest" "at_parser ps (w @ x @ rest)"
  from get_number [OF this(3,1) assms(1) this(2)]
  show "at_parser (get_token ps) rest \<and> parse_value sts (get_token ps) dp = parse_scalar j sts (get_token ps) dp"
    using assms(2,3) by (auto simp: parse_value_def token_number_def split: token_type.splits)
qed

text \<open>Arrays.\<close>

lemma parses_empty_array:
  assumes w': "white w'"
  shows "parses_value (JArray []) (CHR ''['' # w' @ '']'')"
  unfolding parses_value_def
proof (intro allI impI)
  fix sts ps dp r R w rest
  assume w: "white w" "at_parser ps (w @ (CHR ''['' # w' @ '']'') @ rest)" and r: "receives dp r R"
  have at: "at_parser ps (w @ CHR ''['' # w' @ CHR '']'' # rest)" using w(2) by simp
  note t1 = get_punctuation [OF at w(1) punctuation_tokens(1)]
  note t2 = get_punctuation [OF t1(2) w' punctuation_tokens(2)]
  obtain dp1 where "sax_start_array dp = Inr dp1" and i: "inside (JArray []) r R (dp_ref_stack dp) dp1"
    using sax_start_inside [OF r] by blast
  then have "parse_value sts (get_token ps) dp =
      Inr (True, sts, get_token (get_token ps), dp1\<lparr>dp_ref_stack := dp_ref_stack dp\<rparr>)"
    using t1(1) t2(1) sax_end_inside(2) [OF i] by (simp add: parse_value_def parse_array_start_def bind_result_def Let_def)
  from parse_value_step [OF this] t2(2) i
  show "\<exists>ps' dp'. sax_parse_internal False sts (get_token ps) dp = sax_parse_internal True sts ps' dp' \<and>
      at_parser ps' rest \<and> dp_root dp' = R (JArray []) \<and> dp_ref_stack dp' = dp_ref_stack dp"
    by (intro exI [of _ "get_token (get_token ps)"] exI [of _ "dp1\<lparr>dp_ref_stack := dp_ref_stack dp\<rparr>"]) (simp add: inside_def)
qed


lemma parses_array:
  assumes t: "parses_elements js t" and no_end: "\<And>ps rest. at_parser ps (t @ CHR '']'' # rest) \<Longrightarrow> ps_last_token (get_token ps) \<noteq> end_array"
  shows "parses_value (JArray js) (CHR ''['' # t @ '']'')"
  unfolding parses_value_def
proof (intro allI impI)
  fix sts ps dp r R w rest
  assume w: "white w" "at_parser ps (w @ (CHR ''['' # t @ '']'') @ rest)" and r: "receives dp r R"
  have at: "at_parser ps (w @ CHR ''['' # t @ CHR '']'' # rest)" using w(2) by simp
  note t1 = get_punctuation [OF at w(1) punctuation_tokens(1)]
  obtain dp1 where "sax_start_array dp = Inr dp1" and i: "inside (JArray []) r R (dp_ref_stack dp) dp1"
    using sax_start_inside [OF r] by blast
  then have "parse_value sts (get_token ps) dp = Inr (False, True # sts, get_token (get_token ps), dp1)"
    using t1(1) no_end [OF t1(2)] by (simp add: parse_value_def parse_array_start_def bind_result_def Let_def)
  from parse_value_step [OF this] t [unfolded parses_elements_def, rule_format, OF t1(2) i]
  show "\<exists>ps' dp'. sax_parse_internal False sts (get_token ps) dp = sax_parse_internal True sts ps' dp' \<and>
      at_parser ps' rest \<and> dp_root dp' = R (JArray js) \<and> dp_ref_stack dp' = dp_ref_stack dp"
    by simp
qed

lemma parses_element:
  assumes t: "parses_value j t" and w: "white w" "white w'"
    and at: "at_parser ps (w @ t @ w' @ c # rest)" and c: "c \<in> set '',]}''"
    and i: "inside (JArray js0) r R refs dp"
  shows "\<exists>ps1 dp1. sax_parse_internal False sts (get_token ps) dp = sax_parse_internal True sts ps1 dp1 \<and>
    at_parser ps1 (w' @ c # rest) \<and> inside (JArray (js0 @ [j])) r R refs dp1"
proof -
  obtain ps1 dp1 where "sax_parse_internal False sts (get_token ps) dp = sax_parse_internal True sts ps1 dp1"
    and "at_parser ps1 (w' @ c # rest)" and "dp_root dp1 = R (JArray (js0 @ [j]))" and "dp_ref_stack dp1 = dp_ref_stack dp"
    using t [unfolded parses_value_def, rule_format, OF w(1) number_stop_white(1) [OF w(2) c] at receives_element [OF i]]
    by blast
  with i show ?thesis unfolding inside_def by (intro exI [of _ ps1] exI [of _ dp1]) simp
qed

lemma parses_one_element:
  assumes t: "parses_value j t" and w: "white w" "white w'"
  shows "parses_elements [j] (w @ t @ w')"
  unfolding parses_elements_def
proof (intro allI impI)
  fix sts ps dp r R refs js0 rest
  assume "at_parser ps ((w @ t @ w') @ CHR '']'' # rest)" and i: "inside (JArray js0) r R refs dp"
  then have at: "at_parser ps (w @ t @ w' @ CHR '']'' # rest)" by simp
  from parses_element [OF t w at _ i, of "True # sts"] obtain ps1 dp1 where
    run: "sax_parse_internal False (True # sts) (get_token ps) dp = sax_parse_internal True (True # sts) ps1 dp1"
    and at1: "at_parser ps1 (w' @ CHR '']'' # rest)" and i1: "inside (JArray (js0 @ [j])) r R refs dp1" by auto
  note t1 = get_punctuation [OF at1 w(2) punctuation_tokens(2)]
  have "evaluate_array (True # sts) sts ps1 dp1 = Inr (True, sts, get_token ps1, dp1\<lparr>dp_ref_stack := refs\<rparr>)"
    using t1(1) sax_end_inside(2) [OF i1] by (simp add: evaluate_array_def bind_result_def)
  from evaluate_step(1) [OF this] run t1(2) i1
  show "\<exists>ps' dp'. sax_parse_internal False (True # sts) (get_token ps) dp = sax_parse_internal True sts ps' dp' \<and>
      at_parser ps' rest \<and> dp_root dp' = R (JArray (js0 @ [j])) \<and> dp_ref_stack dp' = refs"
    by (intro exI [of _ "get_token ps1"] exI [of _ "dp1\<lparr>dp_ref_stack := refs\<rparr>"]) (simp add: inside_def)
qed

lemma parses_more_elements:
  assumes t: "parses_value j t" and w: "white w" "white w'" and ts: "parses_elements js ts"
  shows "parses_elements (j # js) (w @ t @ w' @ CHR '','' # ts)"
  unfolding parses_elements_def
proof (intro allI impI)
  fix sts ps dp r R refs js0 rest
  assume "at_parser ps ((w @ t @ w' @ CHR '','' # ts) @ CHR '']'' # rest)" and i: "inside (JArray js0) r R refs dp"
  then have at: "at_parser ps (w @ t @ w' @ CHR '','' # ts @ CHR '']'' # rest)" by simp
  from parses_element [OF t w at _ i, of "True # sts"] obtain ps1 dp1 where
    run: "sax_parse_internal False (True # sts) (get_token ps) dp = sax_parse_internal True (True # sts) ps1 dp1"
    and at1: "at_parser ps1 (w' @ CHR '','' # ts @ CHR '']'' # rest)" and i1: "inside (JArray (js0 @ [j])) r R refs dp1" by auto
  note t1 = get_punctuation [OF at1 w(2) punctuation_tokens(6)]
  have "evaluate_array (True # sts) sts ps1 dp1 = Inr (False, True # sts, get_token (get_token ps1), dp1)"
    using t1(1) by (simp add: evaluate_array_def)
  from evaluate_step(1) [OF this] run ts [unfolded parses_elements_def, rule_format, OF t1(2) i1]
  show "\<exists>ps' dp'. sax_parse_internal False (True # sts) (get_token ps) dp = sax_parse_internal True sts ps' dp' \<and>
      at_parser ps' rest \<and> dp_root dp' = R (JArray (js0 @ j # js)) \<and> dp_ref_stack dp' = refs"
    by simp
qed

text \<open>The first token of an array's elements does not close it.\<close>

lemma number_first:
  assumes "json_number x"
  shows "\<exists>c cs. x = c # cs \<and> \<not> is_json_space c \<and> c \<noteq> CHR '']'' \<and> c \<noteq> CHR 0xEF"
proof -
  obtain c cs where c: "x = c # cs" "c = CHR ''-'' \<or> is_digit c" using json_number_first [OF assms] by blast
  have "\<not> is_digit (CHR '']'')" "\<not> is_digit (CHR 0xEF)" by (simp_all add: is_digit_def)
  with c(2) have "c \<noteq> CHR '']''" "c \<noteq> CHR 0xEF" by auto
  with c not_space(4) [OF c(2)] show ?thesis by simp
qed

lemma value_first:
  assumes "value_text j t"
  shows "\<exists>c cs. t = c # cs \<and> \<not> is_json_space c \<and> c \<noteq> CHR '']'' \<and> c \<noteq> CHR 0xEF"
  using assms
proof (rule value_text.cases)
  fix x i
  assume "t = x" "json_number x"
  with number_first show ?thesis by simp
qed (simp_all add: is_json_space_def quote_def)

lemma elements_first:
  assumes "elements_text js t"
  shows "\<exists>w c cs. white w \<and> t = w @ c # cs \<and> \<not> is_json_space c \<and> c \<noteq> CHR '']''"
proof -
  from assms obtain w v t' j where "white w" "value_text j v" "t = w @ v @ t'"
    by (auto elim: elements_text.cases)
  with value_first [OF this(2)] show ?thesis by auto
qed

lemma lexeme_end_array: "lexeme end_array lx b \<Longrightarrow> b = [CHR '']'']"
proof -
  have "map_of punctuation c = Some end_array \<Longrightarrow> c = CHR '']''" for c
    by (drule map_of_SomeD) (simp add: punctuation_def)
  moreover have "map_of literals b \<noteq> Some end_array"
    by (auto simp: literals_def dest!: map_of_SomeD)
  ultimately show "lexeme end_array lx b \<Longrightarrow> ?thesis" by (auto simp: lexeme_def token_number_def)
qed

lemma elements_not_closed:
  assumes t: "elements_text js t" and at: "at_parser ps (t @ rest)"
  shows "ps_last_token (get_token ps) \<noteq> end_array"
proof
  assume fin: "ps_last_token (get_token ps) = end_array"
  obtain w c cs where c: "white w" "t = w @ c # cs" "\<not> is_json_space c" "c \<noteq> CHR '']''" using elements_first [OF t] by blast
  then obtain lx1 where lx1: "scan (ps_lexer ps) = scan_token lx1" "lx_current lx1 = Some c" "at_text lx1 (cs @ rest)"
    using scan_at [of "ps_lexer ps" w c "cs @ rest"] at by auto
  have "scan_token lx1 = (end_array, snd (scan_token lx1))" using fin lx1(1) by (simp add: get_token_def split: prod.splits)
  from scan_token_sound [OF lx1(3,2) this] lexeme_end_array c(4) show False by fastforce
qed

text \<open>Objects.\<close>

lemma parses_empty_object:
  assumes w': "white w'"
  shows "parses_value (JObject []) (CHR ''{'' # w' @ ''}'')"
  unfolding parses_value_def
proof (intro allI impI)
  fix sts ps dp r R w rest
  assume w: "white w" "at_parser ps (w @ (CHR ''{'' # w' @ ''}'') @ rest)" and r: "receives dp r R"
  have at: "at_parser ps (w @ CHR ''{'' # w' @ CHR ''}'' # rest)" using w(2) by simp
  note t1 = get_punctuation [OF at w(1) punctuation_tokens(3)]
  note t2 = get_punctuation [OF t1(2) w' punctuation_tokens(4)]
  obtain dp1 where "sax_start_object dp = Inr dp1" and i: "inside (JObject []) r R (dp_ref_stack dp) dp1"
    using sax_start_inside [OF r] by blast
  then have "parse_value sts (get_token ps) dp =
      Inr (True, sts, get_token (get_token ps), dp1\<lparr>dp_ref_stack := dp_ref_stack dp\<rparr>)"
    using t1(1) t2(1) sax_end_inside(1) [OF i] by (simp add: parse_value_def parse_object_start_def bind_result_def Let_def)
  from parse_value_step [OF this] t2(2) i
  show "\<exists>ps' dp'. sax_parse_internal False sts (get_token ps) dp = sax_parse_internal True sts ps' dp' \<and>
      at_parser ps' rest \<and> dp_root dp' = R (JObject []) \<and> dp_ref_stack dp' = dp_ref_stack dp"
    by (intro exI [of _ "get_token (get_token ps)"] exI [of _ "dp1\<lparr>dp_ref_stack := dp_ref_stack dp\<rparr>"]) (simp add: inside_def)
qed

lemma read_member_string: "read_member sts ps dp = Inr x \<Longrightarrow> ps_last_token ps = value_string"
  by (simp add: read_member_def split: if_splits)

lemma parses_object:
  assumes t: "parses_members ms t" and kvs: "sorted_wrt (<) (map fst kvs)" "map_of kvs = map_of (rev ms)"
  shows "parses_value (JObject kvs) (CHR ''{'' # t @ ''}'')"
  unfolding parses_value_def
proof (intro allI impI)
  fix sts ps dp r R w rest
  assume w: "white w" "at_parser ps (w @ (CHR ''{'' # t @ ''}'') @ rest)" and r: "receives dp r R"
  have at: "at_parser ps (w @ CHR ''{'' # t @ CHR ''}'' # rest)" using w(2) by simp
  note t1 = get_punctuation [OF at w(1) punctuation_tokens(3)]
  obtain dp1 where start: "sax_start_object dp = Inr dp1" and i: "inside (JObject []) r R (dp_ref_stack dp) dp1"
    using sax_start_inside [OF r] by blast
  obtain ps2 dp2 ps' dp' where key: "read_member sts (get_token (get_token ps)) dp1 = Inr (False, False # sts, ps2, dp2)"
    and run: "sax_parse_internal False (False # sts) ps2 dp2 = sax_parse_internal True sts ps' dp'"
      "at_parser ps' rest" "dp_root dp' = R (JObject (object_members ms []))" "dp_ref_stack dp' = dp_ref_stack dp"
    using t [unfolded parses_members_def, rule_format, OF t1(2) i] by blast
  have "parse_value sts (get_token ps) dp = Inr (False, False # sts, ps2, dp2)"
    using t1(1) key read_member_string [OF key] start by (simp add: parse_value_def object_by_members bind_result_def)
  moreover have "object_members ms [] = kvs"
    by (rule sorted_members_unique) (simp_all add: object_members_sorted object_members_map_of kvs)
  ultimately show "\<exists>ps' dp'. sax_parse_internal False sts (get_token ps) dp = sax_parse_internal True sts ps' dp' \<and>
      at_parser ps' rest \<and> dp_root dp' = R (JObject kvs) \<and> dp_ref_stack dp' = dp_ref_stack dp"
    using run parse_value_step [of sts "get_token ps" dp False] by (intro exI [of _ ps'] exI [of _ dp']) simp
qed

lemma parses_member:
  assumes k: "white w1" "string_text k b" "white w2" and t: "white w3" "parses_value j t" "white w4"
    and at: "at_parser ps (w1 @ (quote # b @ [quote]) @ w2 @ CHR '':'' # w3 @ t @ w4 @ c # rest)" and c: "c \<in> set '',]}''"
    and i: "inside (JObject kvs) r R refs dp"
  shows "\<exists>ps1 dp1 ps2 dp2. read_member sts (get_token ps) dp = Inr (False, False # sts, ps1, dp1) \<and>
    sax_parse_internal False (False # sts) ps1 dp1 = sax_parse_internal True (False # sts) ps2 dp2 \<and>
    at_parser ps2 (w4 @ c # rest) \<and> inside (JObject (put_member k j kvs)) r R refs dp2"
proof -
  note t1 = get_string [OF at k(1,2)]
  note t2 = get_punctuation [OF t1(3) k(3) punctuation_tokens(5)]
  obtain dp1 where key: "sax_key k dp = Inr dp1" "dp_ref_stack dp1 = r # refs"
      "receives dp1 (r @ [Key k]) (\<lambda>v. R (JObject (put_member k v kvs)))"
    using sax_key_inside [OF i] by blast
  have "read_member sts (get_token ps) dp = Inr (False, False # sts, get_token (get_token (get_token ps)), dp1)"
    using t1(1,2) t2(1) key(1) by (simp add: read_member_def bind_result_def)
  moreover obtain ps2 dp2 where
    "sax_parse_internal False (False # sts) (get_token (get_token (get_token ps))) dp1 = sax_parse_internal True (False # sts) ps2 dp2"
    and "at_parser ps2 (w4 @ c # rest)" and "dp_root dp2 = R (JObject (put_member k j kvs))" and "dp_ref_stack dp2 = dp_ref_stack dp1"
    using t(2) [unfolded parses_value_def, rule_format, OF t(1) number_stop_white(1) [OF t(3) c] t2(2) key(3)] by blast
  ultimately show ?thesis using i key(2) unfolding inside_def by fastforce
qed

lemma parses_one_member:
  assumes k: "white w1" "string_text k b" "white w2" and t: "white w3" "parses_value j t" "white w4"
  shows "parses_members [(k, j)] (w1 @ (quote # b @ [quote]) @ w2 @ CHR '':'' # w3 @ t @ w4)"
  unfolding parses_members_def
proof (intro allI impI)
  fix sts ps dp r R refs kvs rest
  assume "at_parser ps ((w1 @ (quote # b @ [quote]) @ w2 @ CHR '':'' # w3 @ t @ w4) @ CHR ''}'' # rest)"
    and i: "inside (JObject kvs) r R refs dp"
  then have at: "at_parser ps (w1 @ (quote # b @ [quote]) @ w2 @ CHR '':'' # w3 @ t @ w4 @ CHR ''}'' # rest)" by simp
  obtain ps1 dp1 ps2 dp2 where key: "read_member sts (get_token ps) dp = Inr (False, False # sts, ps1, dp1)"
    and run: "sax_parse_internal False (False # sts) ps1 dp1 = sax_parse_internal True (False # sts) ps2 dp2"
    and at2: "at_parser ps2 (w4 @ CHR ''}'' # rest)" and i2: "inside (JObject (put_member k j kvs)) r R refs dp2"
    using parses_member [OF k t at _ i, of sts] by auto
  note t2 = get_punctuation [OF at2 t(3) punctuation_tokens(4)]
  have "evaluate_object (False # sts) sts ps2 dp2 = Inr (True, sts, get_token ps2, dp2\<lparr>dp_ref_stack := refs\<rparr>)"
    using t2(1) sax_end_inside(1) [OF i2] by (simp add: object_by_members bind_result_def)
  from evaluate_step(2) [OF this] key run t2(2) i2
  show "\<exists>ps1 dp1 ps' dp'. read_member sts (get_token ps) dp = Inr (False, False # sts, ps1, dp1) \<and>
      sax_parse_internal False (False # sts) ps1 dp1 = sax_parse_internal True sts ps' dp' \<and>
      at_parser ps' rest \<and> dp_root dp' = R (JObject (object_members [(k, j)] kvs)) \<and> dp_ref_stack dp' = refs"
    by (intro exI [of _ ps1] exI [of _ dp1] exI [of _ "get_token ps2"] exI [of _ "dp2\<lparr>dp_ref_stack := refs\<rparr>"])
      (simp add: inside_def object_members_def)
qed

lemma parses_more_members:
  assumes k: "white w1" "string_text k b" "white w2" and t: "white w3" "parses_value j t" "white w4"
    and ms: "parses_members ms ts"
  shows "parses_members ((k, j) # ms) (w1 @ (quote # b @ [quote]) @ w2 @ CHR '':'' # w3 @ t @ w4 @ CHR '','' # ts)"
  unfolding parses_members_def
proof (intro allI impI)
  fix sts ps dp r R refs kvs rest
  assume "at_parser ps ((w1 @ (quote # b @ [quote]) @ w2 @ CHR '':'' # w3 @ t @ w4 @ CHR '','' # ts) @ CHR ''}'' # rest)"
    and i: "inside (JObject kvs) r R refs dp"
  then have at: "at_parser ps (w1 @ (quote # b @ [quote]) @ w2 @ CHR '':'' # w3 @ t @ w4 @ CHR '','' # ts @ CHR ''}'' # rest)"
    by simp
  obtain ps1 dp1 ps2 dp2 where key: "read_member sts (get_token ps) dp = Inr (False, False # sts, ps1, dp1)"
    and run: "sax_parse_internal False (False # sts) ps1 dp1 = sax_parse_internal True (False # sts) ps2 dp2"
    and at2: "at_parser ps2 (w4 @ CHR '','' # ts @ CHR ''}'' # rest)" and i2: "inside (JObject (put_member k j kvs)) r R refs dp2"
    using parses_member [OF k t at _ i, of sts] by auto
  note t2 = get_punctuation [OF at2 t(3) punctuation_tokens(6)]
  obtain ps3 dp3 ps' dp' where next_key: "read_member sts (get_token (get_token ps2)) dp2 = Inr (False, False # sts, ps3, dp3)"
    and rest: "sax_parse_internal False (False # sts) ps3 dp3 = sax_parse_internal True sts ps' dp'" "at_parser ps' rest"
      "dp_root dp' = R (JObject (object_members ms (put_member k j kvs)))" "dp_ref_stack dp' = refs"
    using ms [unfolded parses_members_def, rule_format, OF t2(2) i2] by blast
  have "evaluate_object (False # sts) sts ps2 dp2 = Inr (False, False # sts, ps3, dp3)"
    using t2(1) next_key by (simp add: object_by_members)
  from evaluate_step(2) [OF this] key run rest
  show "\<exists>ps1 dp1 ps' dp'. read_member sts (get_token ps) dp = Inr (False, False # sts, ps1, dp1) \<and>
      sax_parse_internal False (False # sts) ps1 dp1 = sax_parse_internal True sts ps' dp' \<and>
      at_parser ps' rest \<and> dp_root dp' = R (JObject (object_members ((k, j) # ms) kvs)) \<and> dp_ref_stack dp' = refs"
    by (intro exI [of _ ps1] exI [of _ dp1] exI [of _ ps'] exI [of _ dp']) (simp add: object_members_def)
qed

lemma grammar_parsed:
  "value_text j t \<Longrightarrow> parses_value j t"
  "elements_text js ts \<Longrightarrow> parses_elements js ts"
  "members_text ms tm \<Longrightarrow> parses_members ms tm"
proof (induction rule: value_text_elements_text_members_text.inducts)
  case (array_text js t)
  show ?case by (rule parses_array [OF array_text.IH elements_not_closed [OF array_text.hyps]])
qed (auto intro: parses_literal literal_tokens parses_number parses_string parses_empty_array parses_empty_object
    parses_object parses_one_element parses_more_elements parses_one_member [simplified] parses_more_members [simplified])

section \<open>Completeness\<close>

text \<open>The parser before the first token.\<close>

abbreviation fresh_parser :: "string \<Rightarrow> parser" where
  "fresh_parser input \<equiv> \<lparr>ps_last_token = uninitialized, ps_lexer = lexer_of input False\<rparr>"

lemma json_parse_fresh:
  "json_parse input =
     bind_result (sax_parse_internal False [] (get_token (fresh_parser input)) new_dom) (\<lambda>(ps, dp).
       if ps_last_token (get_token ps) \<noteq> end_of_input then Inl (syntax_error end_of_input ''value'' (get_token ps))
       else Inr (dp_root dp))"
  by (simp add: json_parse_def new_parser_def parser_parse_def Let_def)

lemma sax_parse_internal_done: "sax_parse_internal True [] ps dp = Inr (ps, dp)"
  by (simp add: sax_parse_internal.simps)

definition text_end :: "string \<Rightarrow> bool" where
  "text_end s \<longleftrightarrow> white s \<or> (\<exists>w r. white w \<and> s = w @ CHR 0x00 # r)"

lemma json_parse_complete:
  assumes t: "white w" "value_text j t" "text_end rest"
    and input: "input = bom @ w @ t @ rest" "bom \<in> {[], byte_order_mark}"
  shows "json_parse input = Inr j"
proof -
  obtain c cs where "t = c # cs" "c \<noteq> CHR 0xEF" using value_first [OF t(2)] by blast
  with t(1) have "first_char (w @ t @ rest) \<noteq> Some (CHR 0xEF)"
    by (cases w) (auto simp: is_json_space_def)
  with input have "start_text (lexer_of input False) (w @ t @ rest)" by (auto simp: start_text_def)
  then have at: "at_parser (fresh_parser input) (w @ t @ rest)" by (simp add: before_text_def)
  have "number_stop rest" using t(3) number_stop_white by (auto simp: text_end_def)
  with grammar_parsed(1) [OF t(2)] t(1) at receives_root obtain ps' dp' where
    run: "sax_parse_internal False [] (get_token (fresh_parser input)) new_dom = sax_parse_internal True [] ps' dp'"
      "at_parser ps' rest" "dp_root dp' = j"
    unfolding parses_value_def by blast
  have "ps_last_token (get_token ps') = end_of_input" using get_end [OF run(2)] t(3) by (simp add: text_end_def)
  with run show ?thesis by (simp add: json_parse_fresh sax_parse_internal_done bind_result_def)
qed

end
