(* ===== verification/Json_Equivalence.thy ===== *)
theory Json_Equivalence
  imports Json_Grammar
begin

text \<open>
  The parser accepts nothing but the texts of the grammar, by induction on the text that is left; so
  \<open>json::parse\<close> returns a document exactly for the texts of that document.
\<close>

section \<open>Soundness\<close>

text \<open>A token that the parser takes as a value of its own is the text of that value.\<close>

definition scalar_of :: "token_type \<Rightarrow> lexer \<Rightarrow> json option" where
  "scalar_of t lx =
     (case t of
        literal_null \<Rightarrow> Some JNull
      | literal_true \<Rightarrow> Some (JBool True)
      | literal_false \<Rightarrow> Some (JBool False)
      | value_string \<Rightarrow> Some (JString (lx_token_buffer lx))
      | value_unsigned \<Rightarrow> Some (JUnsigned (lx_value_unsigned lx))
      | value_integer \<Rightarrow> Some (JInteger (lx_value_integer lx))
      | value_float \<Rightarrow> if isfinite (lx_value_float lx) then Some (JFloat (lx_value_float lx)) else None
      | _ \<Rightarrow> None)"

lemma parse_value_scalar:
  assumes "parse_value sts ps dp = Inr (b, sts', ps', dp')" and "ps_last_token ps \<notin> {begin_object, begin_array}"
  shows "\<exists>j. scalar_of (ps_last_token ps) (ps_lexer ps) = Some j" and "b" and "sts' = sts" and "ps' = ps"
  using assms by (auto simp: parse_value_def scalar_of_def parse_scalar_def bind_result_Inr_iff Let_def
      split: token_type.splits if_splits)

lemma scalar_lexeme:
  assumes "scalar_of t lx = Some j" and "lexeme t lx b"
  shows "value_text j b"
  using assms(2) unfolding lexeme_def
proof (elim disjE exE conjE)
  fix c
  assume "map_of punctuation c = Some t"
  then have "(c, t) \<in> set punctuation" by (rule map_of_SomeD)
  with assms(1) show ?thesis by (auto simp: scalar_of_def punctuation_def)
next
  assume "map_of literals b = Some t"
  then have "(b, t) \<in> set literals" by (rule map_of_SomeD)
  with assms(1) show ?thesis
    by (auto simp: scalar_of_def literals_def intro: null_text true_text false_text)
next
  fix b'
  assume "t = value_string" "b = quote # b' @ [quote]" "string_text (lx_token_buffer lx) b'"
  with assms(1) quoted_text show ?thesis by (auto simp: scalar_of_def)
next
  assume "json_number b" "token_number t lx = Some (number_value b)"
  moreover from this(2) assms(1) have "number_value b = j" "\<And>f. j = JFloat f \<Longrightarrow> isfinite f"
    by (cases t; fastforce simp: scalar_of_def token_number_def split: if_splits)+
  ultimately show ?thesis by (intro number_text)
qed

text \<open>A successful run of the loop, one half of an iteration at a time.\<close>

lemma run_value:
  assumes "sax_parse_internal False sts ps dp = Inr res"
  shows "\<exists>b sts' ps' dp'. parse_value sts ps dp = Inr (b, sts', ps', dp') \<and> sax_parse_internal b sts' ps' dp' = Inr res"
proof (cases "parse_value sts ps dp")
  case (Inl e)
  with assms show ?thesis by (simp add: sax_parse_internal.simps [of False sts])
next
  case (Inr x)
  obtain b sts' ps' dp' where "x = (b, sts', ps', dp')" by (cases x)
  with Inr parse_value_step [of sts ps dp b sts' ps' dp'] assms show ?thesis by auto
qed

lemma run_evaluation:
  "sax_parse_internal True (True # outer) ps dp = Inr res \<Longrightarrow>
   \<exists>b sts' ps' dp'. evaluate_array (True # outer) outer ps dp = Inr (b, sts', ps', dp') \<and> sax_parse_internal b sts' ps' dp' = Inr res"
  "sax_parse_internal True (False # outer) ps dp = Inr res \<Longrightarrow>
   \<exists>b sts' ps' dp'. evaluate_object (False # outer) outer ps dp = Inr (b, sts', ps', dp') \<and> sax_parse_internal b sts' ps' dp' = Inr res"
  by (auto simp: sax_parse_internal.simps [of True "_ # _"] split: sum.splits prod.splits)

definition sound_value :: "nat \<Rightarrow> bool" where
  "sound_value n \<longleftrightarrow>
     (\<forall>ps s sts dp res. length s \<le> n \<longrightarrow> at_parser ps s \<longrightarrow> sax_parse_internal False sts (get_token ps) dp = Inr res \<longrightarrow>
       (\<exists>w t rest j ps' dp'. white w \<and> s = w @ t @ rest \<and> value_text j t \<and> at_parser ps' rest \<and>
          sax_parse_internal True sts ps' dp' = Inr res))"

definition sound_elements :: "nat \<Rightarrow> bool" where
  "sound_elements n \<longleftrightarrow>
     (\<forall>ps s sts dp res. length s \<le> n \<longrightarrow> at_parser ps s \<longrightarrow>
       sax_parse_internal False (True # sts) (get_token ps) dp = Inr res \<longrightarrow>
       (\<exists>t rest js ps' dp'. s = t @ CHR '']'' # rest \<and> elements_text js t \<and> at_parser ps' rest \<and>
          sax_parse_internal True sts ps' dp' = Inr res))"

definition sound_members :: "nat \<Rightarrow> bool" where
  "sound_members n \<longleftrightarrow>
     (\<forall>ps s sts dp res b sts1 ps1 dp1. length s \<le> n \<longrightarrow> at_parser ps s \<longrightarrow>
       read_member sts (get_token ps) dp = Inr (b, sts1, ps1, dp1) \<longrightarrow> sax_parse_internal b sts1 ps1 dp1 = Inr res \<longrightarrow>
       (\<exists>t rest ms ps' dp'. s = t @ CHR ''}'' # rest \<and> members_text ms t \<and> at_parser ps' rest \<and>
          sax_parse_internal True sts ps' dp' = Inr res))"

lemma sound_valueD:
  "sound_value n \<Longrightarrow> length s \<le> n \<Longrightarrow> at_parser ps s \<Longrightarrow> sax_parse_internal False sts (get_token ps) dp = Inr res \<Longrightarrow>
   \<exists>w t rest j ps' dp'. white w \<and> s = w @ t @ rest \<and> value_text j t \<and> at_parser ps' rest \<and>
     sax_parse_internal True sts ps' dp' = Inr res"
  unfolding sound_value_def by blast

lemma sound_elementsD:
  "sound_elements n \<Longrightarrow> length s \<le> n \<Longrightarrow> at_parser ps s \<Longrightarrow>
   sax_parse_internal False (True # sts) (get_token ps) dp = Inr res \<Longrightarrow>
   \<exists>t rest js ps' dp'. s = t @ CHR '']'' # rest \<and> elements_text js t \<and> at_parser ps' rest \<and>
     sax_parse_internal True sts ps' dp' = Inr res"
  unfolding sound_elements_def by blast

lemma sound_membersD:
  "sound_members n \<Longrightarrow> length s \<le> n \<Longrightarrow> at_parser ps s \<Longrightarrow>
   read_member sts (get_token ps) dp = Inr (b, sts1, ps1, dp1) \<Longrightarrow> sax_parse_internal b sts1 ps1 dp1 = Inr res \<Longrightarrow>
   \<exists>t rest ms ps' dp'. s = t @ CHR ''}'' # rest \<and> members_text ms t \<and> at_parser ps' rest \<and>
     sax_parse_internal True sts ps' dp' = Inr res"
  unfolding sound_members_def by blast

lemma punctuation_set:
  "(CHR ''['', begin_array) \<in> set punctuation" "(CHR '']'', end_array) \<in> set punctuation"
  "(CHR ''{'', begin_object) \<in> set punctuation" "(CHR ''}'', end_object) \<in> set punctuation"
  "(CHR '':'', name_separator) \<in> set punctuation" "(CHR '','', value_separator) \<in> set punctuation"
  by (simp_all add: punctuation_def)

text \<open>The three constructs of a value, on a text that is sound up to its length.\<close>

lemma array_sound:
  assumes IH: "\<And>m. m < length s \<Longrightarrow> sound_elements m" and at: "at_parser ps s"
    and tok: "ps_last_token (get_token ps) = begin_array"
    and val: "parse_value sts (get_token ps) dp = Inr (b, sts', ps', dp')" "sax_parse_internal b sts' ps' dp' = Inr res"
  shows "\<exists>w t rest j ps' dp'. white w \<and> s = w @ t @ rest \<and> value_text j t \<and> at_parser ps' rest \<and>
     sax_parse_internal True sts ps' dp' = Inr res"
proof -
  obtain w s1 where s: "white w" "s = w @ CHR ''['' # s1" and at1: "at_parser (get_token ps) s1"
    using get_punctuation_sound [OF at tok punctuation_set(1)] by blast
  let ?ps2 = "get_token (get_token ps)"
  have "parse_array_start sts (get_token ps) dp = Inr (b, sts', ps', dp')"
    using val(1) tok by (simp add: parse_value_def)
  then obtain dp1 where "(if ps_last_token ?ps2 = end_array
      then bind_result (sax_end_array dp1) (\<lambda>dp. Inr (True, sts, ?ps2, dp))
      else Inr (False, True # sts, ?ps2, dp1)) = Inr (b, sts', ps', dp')"
    by (auto simp: parse_array_start_def bind_result_Inr_iff Let_def)
  then consider (empty) "ps_last_token ?ps2 = end_array" "b" "sts' = sts" "ps' = ?ps2"
    | (elements) "sax_parse_internal False (True # sts) ?ps2 dp1 = Inr res"
    using val(2) by (auto simp: bind_result_Inr_iff split: if_splits)
  then show ?thesis
  proof cases
    case empty
    obtain w' rest where "white w'" "s1 = w' @ CHR '']'' # rest" "at_parser ?ps2 rest"
      using get_punctuation_sound [OF at1 empty(1) punctuation_set(2)] by blast
    with s empty val(2) empty_array [OF this(1)] show ?thesis
      by (intro exI [of _ w] exI [of _ "CHR ''['' # w' @ '']''"] exI [of _ rest]) auto
  next
    case elements
    have "length s1 < length s" using s by simp
    from sound_elementsD [OF IH [OF this] order_refl at1 elements]
    obtain t rest js ps3 dp3 where t: "s1 = t @ CHR '']'' # rest" "elements_text js t" "at_parser ps3 rest"
      "sax_parse_internal True sts ps3 dp3 = Inr res" by blast
    with s array_text [OF t(2)] show ?thesis
      by (intro exI [of _ w] exI [of _ "CHR ''['' # t @ '']''"] exI [of _ rest]) auto
  qed
qed

lemma object_sound:
  assumes IH: "\<And>m. m < length s \<Longrightarrow> sound_members m" and at: "at_parser ps s"
    and tok: "ps_last_token (get_token ps) = begin_object"
    and val: "parse_value sts (get_token ps) dp = Inr (b, sts', ps', dp')" "sax_parse_internal b sts' ps' dp' = Inr res"
  shows "\<exists>w t rest j ps' dp'. white w \<and> s = w @ t @ rest \<and> value_text j t \<and> at_parser ps' rest \<and>
     sax_parse_internal True sts ps' dp' = Inr res"
proof -
  obtain w s1 where s: "white w" "s = w @ CHR ''{'' # s1" and at1: "at_parser (get_token ps) s1"
    using get_punctuation_sound [OF at tok punctuation_set(3)] by blast
  let ?ps2 = "get_token (get_token ps)"
  have "parse_object_start sts (get_token ps) dp = Inr (b, sts', ps', dp')"
    using val(1) tok by (simp add: parse_value_def)
  then obtain dp1 where "(if ps_last_token ?ps2 = end_object
      then bind_result (sax_end_object dp1) (\<lambda>dp. Inr (True, sts, ?ps2, dp))
      else read_member sts ?ps2 dp1) = Inr (b, sts', ps', dp')"
    by (auto simp: object_by_members bind_result_Inr_iff Let_def)
  then consider (empty) "ps_last_token ?ps2 = end_object" "b" "sts' = sts" "ps' = ?ps2"
    | (members) "read_member sts ?ps2 dp1 = Inr (b, sts', ps', dp')"
    using val(2) by (auto simp: bind_result_Inr_iff split: if_splits)
  then show ?thesis
  proof cases
    case empty
    obtain w' rest where "white w'" "s1 = w' @ CHR ''}'' # rest" "at_parser ?ps2 rest"
      using get_punctuation_sound [OF at1 empty(1) punctuation_set(4)] by blast
    with s empty val(2) empty_object [OF this(1)] show ?thesis
      by (intro exI [of _ w] exI [of _ "CHR ''{'' # w' @ ''}''"] exI [of _ rest]) auto
  next
    case members
    have "length s1 < length s" using s by simp
    from sound_membersD [OF IH [OF this] order_refl at1 members val(2)]
    obtain t rest ms ps3 dp3 where t: "s1 = t @ CHR ''}'' # rest" "members_text ms t" "at_parser ps3 rest"
      "sax_parse_internal True sts ps3 dp3 = Inr res" by blast
    have "value_text (JObject (object_members ms [])) (CHR ''{'' # t @ ''}'')"
      by (rule object_text [OF t(2)]) (simp_all add: object_members_sorted object_members_map_of)
    with s t show ?thesis
      by (intro exI [of _ w] exI [of _ "CHR ''{'' # t @ ''}''"] exI [of _ rest]) auto
  qed
qed

lemma value_sound_step:
  assumes "\<And>m. m < n \<Longrightarrow> sound_elements m" and "\<And>m. m < n \<Longrightarrow> sound_members m"
  shows "sound_value n"
  unfolding sound_value_def
proof (intro allI impI)
  fix ps s sts dp res
  assume n: "length s \<le> n" and at: "at_parser ps s" and run: "sax_parse_internal False sts (get_token ps) dp = Inr res"
  obtain b sts' ps' dp' where val: "parse_value sts (get_token ps) dp = Inr (b, sts', ps', dp')"
      "sax_parse_internal b sts' ps' dp' = Inr res"
    using run_value [OF run] by blast
  have IH: "sound_elements m" "sound_members m" if "m < length s" for m using assms n that by simp_all
  let ?t = "ps_last_token (get_token ps)"
  show "\<exists>w t rest j ps' dp'. white w \<and> s = w @ t @ rest \<and> value_text j t \<and> at_parser ps' rest \<and>
     sax_parse_internal True sts ps' dp' = Inr res"
  proof (cases "?t \<in> {begin_object, begin_array}")
    case True
    with array_sound [OF IH(1) at _ val] object_sound [OF IH(2) at _ val] show ?thesis by blast
  next
    case False
    note sc = parse_value_scalar [OF val(1) False]
    obtain j where j: "scalar_of ?t (ps_lexer (get_token ps)) = Some j" using sc(1) by blast
    then have "?t \<notin> {parse_error, end_of_input}" by (auto simp: scalar_of_def)
    then obtain w t rest where t: "white w" "s = w @ t @ rest" "lexeme ?t (ps_lexer (get_token ps)) t"
        "at_parser (get_token ps) rest"
      using get_token_sound [OF at refl] by blast
    have "sax_parse_internal True sts (get_token ps) dp' = Inr res" using val(2) sc by simp
    with t scalar_lexeme [OF j t(3)] show ?thesis by blast
  qed
qed

lemma elements_sound_step:
  assumes val: "sound_value n" and IH: "\<And>m. m < n \<Longrightarrow> sound_elements m"
  shows "sound_elements n"
  unfolding sound_elements_def
proof (intro allI impI)
  fix ps s sts dp res
  assume n: "length s \<le> n" and at: "at_parser ps s"
    and run: "sax_parse_internal False (True # sts) (get_token ps) dp = Inr res"
  obtain w t s1 j ps1 dp1 where v: "white w" "s = w @ t @ s1" "value_text j t" and at1: "at_parser ps1 s1"
    and run1: "sax_parse_internal True (True # sts) ps1 dp1 = Inr res"
    using sound_valueD [OF val n at run] by blast
  obtain b sts' ps' dp' where ev: "evaluate_array (True # sts) sts ps1 dp1 = Inr (b, sts', ps', dp')"
    and run2: "sax_parse_internal b sts' ps' dp' = Inr res"
    using run_evaluation(1) [OF run1] by blast
  consider (more) "ps_last_token (get_token ps1) = value_separator"
      "b = False" "sts' = True # sts" "ps' = get_token (get_token ps1)"
    | (fin) "ps_last_token (get_token ps1) = end_array" "b = True" "sts' = sts" "ps' = get_token ps1"
    using ev by (auto simp: evaluate_array_def Let_def bind_result_Inr_iff split: if_splits)
  then show "\<exists>t rest js ps' dp'. s = t @ CHR '']'' # rest \<and> elements_text js t \<and> at_parser ps' rest \<and>
      sax_parse_internal True sts ps' dp' = Inr res"
  proof cases
    case more
    obtain w' s2 where s1: "white w'" "s1 = w' @ CHR '','' # s2" and at2: "at_parser (get_token ps1) s2"
      using get_punctuation_sound [OF at1 more(1) punctuation_set(6)] by blast
    have "length s2 < n" using n v(2) s1(2) by simp
    moreover have "sax_parse_internal False (True # sts) (get_token (get_token ps1)) dp' = Inr res"
      using run2 more by simp
    ultimately obtain ts rest js ps3 dp3 where ts: "s2 = ts @ CHR '']'' # rest" "elements_text js ts" "at_parser ps3 rest"
      "sax_parse_internal True sts ps3 dp3 = Inr res"
      using sound_elementsD [OF IH order_refl at2] by blast
    from more_elements [OF v(1,3) s1(1) ts(2)] v(2) s1(2) ts(1,3,4) show ?thesis
      by (intro exI [of _ "w @ t @ w' @ CHR '','' # ts"] exI [of _ rest]) auto
  next
    case fin
    obtain w' rest where s1: "white w'" "s1 = w' @ CHR '']'' # rest" "at_parser (get_token ps1) rest"
      using get_punctuation_sound [OF at1 fin(1) punctuation_set(2)] by blast
    from one_element [OF v(1,3) s1(1)] v(2) s1 fin run2 show ?thesis
      by (intro exI [of _ "w @ t @ w'"] exI [of _ rest]) auto
  qed
qed

lemma read_member_sound:
  assumes at: "at_parser ps s" and read: "read_member sts (get_token ps) dp = Inr (b, sts1, ps1, dp1)"
  shows "\<exists>w k bs w' s1 ps2. white w \<and> string_text k bs \<and> white w' \<and> s = w @ (quote # bs @ [quote]) @ w' @ CHR '':'' # s1 \<and>
    at_parser ps2 s1 \<and> b = False \<and> sts1 = False # sts \<and> ps1 = get_token ps2"
proof -
  have tok: "ps_last_token (get_token ps) = value_string" by (rule read_member_string [OF read])
  have sep: "ps_last_token (get_token (get_token ps)) = name_separator"
    and r: "b = False" "sts1 = False # sts" "ps1 = get_token (get_token (get_token ps))"
    using read by (auto simp: read_member_def Let_def bind_result_Inr_iff split: if_splits)
  obtain w k bs s0 where s: "white w" "s = w @ (quote # bs @ [quote]) @ s0" "string_text k bs" and at0: "at_parser (get_token ps) s0"
    using get_string_sound [OF at tok] by blast
  obtain w' s1 where s0: "white w'" "s0 = w' @ CHR '':'' # s1" "at_parser (get_token (get_token ps)) s1"
    using get_punctuation_sound [OF at0 sep punctuation_set(5)] by blast
  have "s = w @ (quote # bs @ [quote]) @ w' @ CHR '':'' # s1" using s(2) s0(2) by simp
  with s(1,3) s0(1,3) r show ?thesis by blast
qed

lemma members_sound_step:
  assumes val: "\<And>m. m < n \<Longrightarrow> sound_value m" and IH: "\<And>m. m < n \<Longrightarrow> sound_members m"
  shows "sound_members n"
  unfolding sound_members_def
proof (intro allI impI)
  fix ps s sts dp res b sts1 ps1 dp1
  assume n: "length s \<le> n" and at: "at_parser ps s" and read: "read_member sts (get_token ps) dp = Inr (b, sts1, ps1, dp1)"
    and run: "sax_parse_internal b sts1 ps1 dp1 = Inr res"
  obtain w1 k bs w2 s1 ps2 where key: "white w1" "string_text k bs" "white w2"
      "s = w1 @ (quote # bs @ [quote]) @ w2 @ CHR '':'' # s1"
    and at2: "at_parser ps2 s1" and r: "b = False" "sts1 = False # sts" "ps1 = get_token ps2"
    using read_member_sound [OF at read] by blast
  have len: "length s1 < n" using n key(4) by simp
  have "sax_parse_internal False (False # sts) (get_token ps2) dp1 = Inr res" using run r by simp
  from sound_valueD [OF val [OF len] order_refl at2 this]
  obtain w3 t s2 j ps3 dp3 where v: "white w3" "s1 = w3 @ t @ s2" "value_text j t" and at3: "at_parser ps3 s2"
    and run3: "sax_parse_internal True (False # sts) ps3 dp3 = Inr res" by blast
  obtain b' sts' ps' dp' where ev: "evaluate_object (False # sts) sts ps3 dp3 = Inr (b', sts', ps', dp')"
    and run4: "sax_parse_internal b' sts' ps' dp' = Inr res"
    using run_evaluation(2) [OF run3] by blast
  consider (more) "ps_last_token (get_token ps3) = value_separator"
      "read_member sts (get_token (get_token ps3)) dp3 = Inr (b', sts', ps', dp')"
    | (fin) "ps_last_token (get_token ps3) = end_object" "b' = True" "sts' = sts" "ps' = get_token ps3"
    using ev by (auto simp: object_by_members Let_def bind_result_Inr_iff split: if_splits)
  then show "\<exists>t rest ms ps' dp'. s = t @ CHR ''}'' # rest \<and> members_text ms t \<and> at_parser ps' rest \<and>
      sax_parse_internal True sts ps' dp' = Inr res"
  proof cases
    case more
    obtain w4 s3 where s2: "white w4" "s2 = w4 @ CHR '','' # s3" and at4: "at_parser (get_token ps3) s3"
      using get_punctuation_sound [OF at3 more(1) punctuation_set(6)] by blast
    have "length s3 < n" using len v(2) s2(2) by simp
    from sound_membersD [OF IH [OF this] order_refl at4 more(2) run4]
    obtain ts rest ms ps5 dp5 where ts: "s3 = ts @ CHR ''}'' # rest" "members_text ms ts" "at_parser ps5 rest"
      "sax_parse_internal True sts ps5 dp5 = Inr res" by blast
    have "s = (w1 @ (quote # bs @ [quote]) @ w2 @ CHR '':'' # w3 @ t @ w4 @ CHR '','' # ts) @ CHR ''}'' # rest"
      using key(4) v(2) s2(2) ts(1) by simp
    with more_members [OF key(1-3) v(1,3) s2(1) ts(2)] ts(3,4) show ?thesis by blast
  next
    case fin
    obtain w4 rest where s2: "white w4" "s2 = w4 @ CHR ''}'' # rest" "at_parser (get_token ps3) rest"
      using get_punctuation_sound [OF at3 fin(1) punctuation_set(4)] by blast
    have "s = (w1 @ (quote # bs @ [quote]) @ w2 @ CHR '':'' # w3 @ t @ w4) @ CHR ''}'' # rest"
      using key(4) v(2) s2(2) by simp
    moreover have "sax_parse_internal True sts (get_token ps3) dp' = Inr res" using run4 fin by simp
    ultimately show ?thesis using one_member [OF key(1-3) v(1,3) s2(1)] s2(3) by blast
  qed
qed

lemma parser_sound: "sound_value n \<and> sound_elements n \<and> sound_members n"
proof (induction n rule: less_induct)
  case (less n)
  then have IH: "sound_value m" "sound_elements m" "sound_members m" if "m < n" for m using that by simp_all
  have v: "sound_value n" by (rule value_sound_step [OF IH(2,3)])
  moreover have "sound_elements n" by (rule elements_sound_step [OF v IH(2)])
  moreover have "sound_members n" by (rule members_sound_step [OF IH(1,3)])
  ultimately show ?case by simp
qed

text \<open>A text that does not start with part of a byte order mark only, or the parser fails.\<close>

lemma lexer_start:
  assumes "ps_last_token (get_token (fresh_parser input)) \<noteq> parse_error"
  shows "\<exists>bom s. input = bom @ s \<and> bom \<in> {[], byte_order_mark} \<and> at_parser (fresh_parser input) s"
proof (cases "first_char input = Some (CHR 0xEF)")
  case False
  then show ?thesis by (auto simp: before_text_def start_text_def)
next
  case True
  then obtain r where r: "input = CHR 0xEF # r" by (auto simp: first_char_Some)
  have "fst (skip_bom (lexer_of input False))"
    using assms by (auto simp: get_token_def scan_def split: prod.splits bool.splits)
  then have "first_char r = Some (CHR 0xBB)" "first_char (tl r) = Some (CHR 0xBF)"
    using r by (auto simp: skip_bom_def Let_def get_reads split: if_splits)
  then obtain s where "input = byte_order_mark @ s" using r by (auto simp: first_char_Some byte_order_mark_def)
  then show ?thesis by (auto simp: before_text_def start_text_def)
qed

lemma json_parse_sound:
  assumes parse: "json_parse input = Inr j"
  shows "\<exists>bom w t rest j'. input = bom @ w @ t @ rest \<and> bom \<in> {[], byte_order_mark} \<and> white w \<and>
    value_text j' t \<and> text_end rest"
proof -
  obtain ps dp where run: "sax_parse_internal False [] (get_token (fresh_parser input)) new_dom = Inr (ps, dp)"
    and fin: "ps_last_token (get_token ps) = end_of_input"
    using parse by (auto simp: json_parse_fresh bind_result_Inr_iff split: if_splits)
  have "ps_last_token (get_token (fresh_parser input)) \<noteq> parse_error"
    using run_value [OF run] by (auto simp: parse_value_def)
  then obtain bom s where bom: "input = bom @ s" "bom \<in> {[], byte_order_mark}" and at: "at_parser (fresh_parser input) s"
    using lexer_start by blast
  from sound_valueD [OF _ order_refl at run] parser_sound
  obtain w t rest j' ps' dp' where t: "white w" "s = w @ t @ rest" "value_text j' t" "at_parser ps' rest"
      "sax_parse_internal True [] ps' dp' = Inr (ps, dp)" by blast
  then have "at_parser ps rest" by (simp add: sax_parse_internal_done)
  moreover obtain lx where "scan (ps_lexer ps) = (end_of_input, lx)"
    using fin by (cases "scan (ps_lexer ps)") (simp add: get_token_def)
  ultimately have "text_end rest" using scan_sound by (fastforce simp: text_end_def)
  with bom t show ?thesis by blast
qed

text \<open>
  C23: \<open>json::parse\<close> is the grammar of RFC 8259. It returns the document \<open>j\<close> exactly when the input is
  a JSON text of \<open>j\<close>, an optional byte order mark, white space and one value with its escapes decoded,
  its numbers rounded and the last of repeated keys kept, and nothing follows but white space, or
  anything behind a NUL byte, which the lexer takes as the end of the input.
\<close>

theorem json_parse_grammar:
  "json_parse input = Inr j \<longleftrightarrow> (\<exists>s r. json_text j s \<and> (input = s \<or> input = s @ CHR 0x00 # r))"
proof
  assume parse: "json_parse input = Inr j"
  obtain bom w t rest j' where t: "input = bom @ w @ t @ rest" "bom \<in> {[], byte_order_mark}" "white w"
      "value_text j' t" "text_end rest"
    using json_parse_sound [OF parse] by (elim exE conjE)
  have "j' = j" using json_parse_complete [OF t(3-5,1,2)] parse by simp
  then have doc: "json_text j (bom @ w @ t @ w')" if "white w'" for w' using t that by (auto simp: json_text_def)
  from t(5) show "\<exists>s r. json_text j s \<and> (input = s \<or> input = s @ CHR 0x00 # r)"
    unfolding text_end_def
  proof (elim disjE exE conjE)
    assume "white rest"
    with doc t(1) show ?thesis by blast
  next
    fix w' r
    assume "white w'" "rest = w' @ CHR 0x00 # r"
    with doc [of w'] t(1) show ?thesis by (intro exI [of _ "bom @ w @ t @ w'"] exI [of _ r]) simp
  qed
next
  assume "\<exists>s r. json_text j s \<and> (input = s \<or> input = s @ CHR 0x00 # r)"
  then obtain s r where s: "json_text j s" "input = s \<or> input = s @ CHR 0x00 # r" by blast
  obtain bom w t w' where t: "s = bom @ w @ t @ w'" "bom \<in> {[], byte_order_mark}" "white w" "value_text j t" "white w'"
    using s(1) unfolding json_text_def by (elim exE conjE)
  have rest: "text_end w'" "text_end (w' @ CHR 0x00 # r)" using t(5) by (auto simp: text_end_def)
  from s(2) show "json_parse input = Inr j"
  proof
    assume "input = s"
    with t(1) show ?thesis by (intro json_parse_complete [OF t(3,4) rest(1) _ t(2)]) simp
  next
    assume "input = s @ CHR 0x00 # r"
    with t(1) show ?thesis by (intro json_parse_complete [OF t(3,4) rest(2) _ t(2)]) simp
  qed
qed

end
