(* ===== verification/Http_Text.thy ===== *)
theory Http_Text
  imports Cornus_Prelude "HOL-Library.Code_Target_Nat" "HOL-Library.Code_Target_Int"
begin

text \<open>
  The text level of the bundled HTTP library (\<open>httplib.hpp\<close>, the same file under \<open>DBMS/include\<close> and
  \<open>Cornus/include/lib\<close>): percent-encoding, splitting and trimming, header maps, lines of a stream, the
  header block and the request line.
\<close>

unbundle bit_operations_syntax

section \<open>Characters\<close>

abbreviation byte :: "char \<Rightarrow> nat" where
  "byte c \<equiv> of_char c"

definition is_hex :: "char \<Rightarrow> nat option" where
  "is_hex c =
     (if is_digit c then Some (byte c - 48)
      else if 65 \<le> byte c \<and> byte c \<le> 70 then Some (byte c - 65 + 10)
      else if 97 \<le> byte c \<and> byte c \<le> 102 then Some (byte c - 97 + 10)
      else None)"

text \<open>The digits from the given position on; the end of the string reads as the byte 0.\<close>

fun from_hex_to_i :: "string \<Rightarrow> nat \<Rightarrow> nat \<Rightarrow> nat option" where
  "from_hex_to_i [] cnt val = (if cnt = 0 then Some val else None)"
| "from_hex_to_i (c # s) cnt val =
     (if cnt = 0 then Some val
      else (case is_hex c of None \<Rightarrow> None | Some v \<Rightarrow> from_hex_to_i s (cnt - 1) (val * 16 + v)))"

definition to_utf8 :: "nat \<Rightarrow> string" where
  "to_utf8 cp =
     (if cp < 0x80 then [char_of (cp AND 0x7F)]
      else if cp < 0x800 then
        [char_of (0xC0 OR (drop_bit 6 cp AND 0x1F)), char_of (0x80 OR (cp AND 0x3F))]
      else if cp < 0xD800 then
        [char_of (0xE0 OR (drop_bit 12 cp AND 0xF)), char_of (0x80 OR (drop_bit 6 cp AND 0x3F)),
         char_of (0x80 OR (cp AND 0x3F))]
      else if cp < 0xE000 then []
      else if cp < 0x10000 then
        [char_of (0xE0 OR (drop_bit 12 cp AND 0xF)), char_of (0x80 OR (drop_bit 6 cp AND 0x3F)),
         char_of (0x80 OR (cp AND 0x3F))]
      else if cp < 0x110000 then
        [char_of (0xF0 OR (drop_bit 18 cp AND 0x7)), char_of (0x80 OR (drop_bit 12 cp AND 0x3F)),
         char_of (0x80 OR (drop_bit 6 cp AND 0x3F)), char_of (0x80 OR (cp AND 0x3F))]
      else [])"

text \<open>A \<open>std::string\<close> as a C string ends at its first byte 0.\<close>

abbreviation c_str :: "string \<Rightarrow> string" where
  "c_str s \<equiv> takeWhile (\<lambda>c. c \<noteq> CHR 0x00) s"

section \<open>Percent-encoding\<close>

definition upper_hex :: "nat \<Rightarrow> char" where
  "upper_hex d = char_of (if d < 10 then 48 + d else 55 + d)"

definition encode_char :: "char \<Rightarrow> string" where
  "encode_char c =
     (if c = CHR '' '' then ''%20''
      else if c = CHR ''+'' then ''%2B''
      else if c = CHR 0x0D then ''%0D''
      else if c = CHR 0x0A then ''%0A''
      else if c = CHR 0x27 then ''%27''
      else if c = CHR '','' then ''%2C''
      else if c = CHR '';'' then ''%3B''
      else if 0x80 \<le> byte c then [CHR ''%'', upper_hex (byte c div 16), upper_hex (byte c mod 16)]
      else [c])"

definition encode_url :: "string \<Rightarrow> string" where
  "encode_url s = concat (map encode_char (c_str s))"

function decode_url :: "string \<Rightarrow> bool \<Rightarrow> string" where
  "decode_url [] convert_plus_to_space = []"
| "decode_url (c # s) convert_plus_to_space =
     (if c = CHR ''%'' \<and> s \<noteq> [] then
        if hd s = CHR ''u'' then
          (case from_hex_to_i (tl s) 4 0 of
             Some val \<Rightarrow> to_utf8 val @ decode_url (drop 5 s) convert_plus_to_space
           | None \<Rightarrow> c # decode_url s convert_plus_to_space)
        else
          (case from_hex_to_i s 2 0 of
             Some val \<Rightarrow> char_of val # decode_url (drop 2 s) convert_plus_to_space
           | None \<Rightarrow> c # decode_url s convert_plus_to_space)
      else if convert_plus_to_space \<and> c = CHR ''+'' then CHR '' '' # decode_url s convert_plus_to_space
      else c # decode_url s convert_plus_to_space)"
  by pat_completeness auto

termination
  by (relation "measure (\<lambda>(s, _). length s)") auto

section \<open>Splitting and trimming\<close>

definition is_space_or_tab :: "char \<Rightarrow> bool" where
  "is_space_or_tab c \<longleftrightarrow> c = CHR '' '' \<or> c = CHR 0x09"

definition trim :: "string \<Rightarrow> string" where
  "trim s = rev (dropWhile is_space_or_tab (rev (dropWhile is_space_or_tab s)))"

text \<open>The text between the separators; \<open>split\<close> calls its function on the trimmed pieces that are not empty.\<close>

fun pieces :: "char \<Rightarrow> string \<Rightarrow> string \<Rightarrow> string list" where
  "pieces d acc [] = [rev acc]"
| "pieces d acc (c # s) = (if c = d then rev acc # pieces d [] s else pieces d (c # acc) s)"

definition split_on :: "char \<Rightarrow> string \<Rightarrow> string list" where
  "split_on d s = List.filter (\<lambda>p. p \<noteq> []) (map trim (pieces d [] s))"

section \<open>Header maps\<close>

text \<open>
  A \<open>std::multimap\<close> whose order ignores the case of letters, as the list of its entries. A new entry
  comes behind those with an equal key.
\<close>

type_synonym headers = "(string \<times> string) list"

definition to_lower :: "char \<Rightarrow> char" where
  "to_lower c = (if 65 \<le> byte c \<and> byte c \<le> 90 then char_of (byte c + 32) else c)"

definition ci_key :: "string \<Rightarrow> string" where
  "ci_key s = map to_lower s"

fun emplace_header :: "string \<Rightarrow> string \<Rightarrow> headers \<Rightarrow> headers" where
  "emplace_header k v [] = [(k, v)]"
| "emplace_header k v ((k', v') # hs) =
     (if ci_key k < ci_key k' then (k, v) # (k', v') # hs else (k', v') # emplace_header k v hs)"

definition has_header :: "headers \<Rightarrow> string \<Rightarrow> bool" where
  "has_header hs k \<longleftrightarrow> (\<exists>kv\<in>set hs. ci_key (fst kv) = ci_key k)"

definition get_header_value :: "headers \<Rightarrow> string \<Rightarrow> string" where
  "get_header_value hs k =
     (case List.find (\<lambda>kv. ci_key (fst kv) = ci_key k) hs of None \<Rightarrow> [] | Some (_, v) \<Rightarrow> c_str v)"

text \<open>\<open>std::strtoull\<close> to base 10: no digits give 0, too large values the largest one.\<close>

definition strtoull :: "string \<Rightarrow> nat" where
  "strtoull s =
     (case scan_number s of
        None \<Rightarrow> 0
      | Some (neg, v) \<Rightarrow>
          if 2 ^ 64 \<le> v then 2 ^ 64 - 1 else if neg then (2 ^ 64 - v) mod 2 ^ 64 else v)"

definition get_header_value_u64 :: "headers \<Rightarrow> string \<Rightarrow> nat" where
  "get_header_value_u64 hs k = (if has_header hs k then strtoull (get_header_value hs k) else 0)"

definition has_crlf :: "string \<Rightarrow> bool" where
  "has_crlf s \<longleftrightarrow> (\<exists>c\<in>set (c_str s). c = CHR 0x0D \<or> c = CHR 0x0A)"

definition set_header :: "string \<Rightarrow> string \<Rightarrow> headers \<Rightarrow> headers" where
  "set_header k v hs = (if \<not> has_crlf k \<and> \<not> has_crlf v then emplace_header k v hs else hs)"

abbreviation crlf :: string where
  "crlf \<equiv> [CHR 0x0D, CHR 0x0A]"

definition write_headers :: "headers \<Rightarrow> string" where
  "write_headers hs = concat (map (\<lambda>(k, v). c_str k @ '': '' @ c_str v @ crlf) hs) @ crlf"

section \<open>Lines of a stream\<close>

text \<open>
  What the peer sends, and what follows: the connection is closed, or nothing more arrives and a read
  fails after its time-out.
\<close>

datatype stream_end = Closed | Silent

type_synonym stream = "string \<times> stream_end"

fun read_line :: "string \<Rightarrow> string \<times> string" where
  "read_line [] = ([], [])"
| "read_line (c # s) =
     (if c = CHR 0x0A then ([c], s) else (case read_line s of (line, rest) \<Rightarrow> (c # line, rest)))"

definition getline :: "stream \<Rightarrow> (string \<times> stream) option" where
  "getline strm =
     (case strm of (s, e) \<Rightarrow>
        case read_line s of (line, rest) \<Rightarrow>
          if CHR 0x0A \<in> set line \<or> e = Closed \<and> line \<noteq> [] then Some (line, (rest, e)) else None)"

definition end_with_crlf :: "string \<Rightarrow> bool" where
  "end_with_crlf line \<longleftrightarrow>
     2 \<le> length line \<and> line ! (length line - 2) = CHR 0x0D \<and> line ! (length line - 1) = CHR 0x0A"

lemma read_line_length: "read_line s = (line, rest) \<Longrightarrow> s = line @ rest"
  by (induction s arbitrary: line rest) (auto split: if_splits prod.splits)

lemma getline_length: "getline strm = Some (line, strm') \<Longrightarrow> length (fst strm') < length (fst strm)"
  by (auto simp: getline_def split: prod.splits if_splits dest!: read_line_length)

section \<open>Header lines\<close>

definition HEADER_MAX_LENGTH :: nat where
  "HEADER_MAX_LENGTH = 8192"

definition parse_header :: "string \<Rightarrow> headers \<Rightarrow> headers" where
  "parse_header line hs =
     (let s = rev (dropWhile is_space_or_tab (rev line));
          key = takeWhile (\<lambda>c. c \<noteq> CHR '':'') s;
          after_key = dropWhile (\<lambda>c. c \<noteq> CHR '':'') s;
          val = dropWhile is_space_or_tab (tl after_key)
      in if after_key = [] \<or> val = [] then hs
         else emplace_header key (if ci_key key = ci_key ''Location'' then val else decode_url val False) hs)"

text \<open>The result is false when the stream ends or a line is too long; the headers read so far stay.\<close>

function read_headers :: "headers \<Rightarrow> stream \<Rightarrow> (bool \<times> headers) \<times> stream" where
  "read_headers hs strm =
     (case getline strm of
        None \<Rightarrow> ((False, hs), ([], snd strm))
      | Some (line, strm') \<Rightarrow>
          if \<not> end_with_crlf line then read_headers hs strm'
          else if length line = 2 then ((True, hs), strm')
          else if HEADER_MAX_LENGTH < length line then ((False, hs), strm')
          else read_headers (parse_header (take (length line - 2) line) hs) strm')"
  by pat_completeness auto

termination
  by (relation "measure (\<lambda>(hs, strm). length (fst strm))") (auto dest: getline_length)

declare read_headers.simps [simp del]

section \<open>The request line\<close>

text \<open>The parameters of a query are a \<open>std::multimap\<close> too.\<close>

fun emplace_param :: "string \<Rightarrow> string \<Rightarrow> (string \<times> string) list \<Rightarrow> (string \<times> string) list" where
  "emplace_param k v [] = [(k, v)]"
| "emplace_param k v ((k', v') # ps) =
     (if k < k' then (k, v) # (k', v') # ps else (k', v') # emplace_param k v ps)"

definition parse_pair :: "string \<Rightarrow> string \<times> string" where
  "parse_pair kv =
     fold (\<lambda>p (key, val). if key = [] then (p, val) else (key, p)) (split_on (CHR ''='') kv) ([], [])"

definition parse_query_text :: "string \<Rightarrow> (string \<times> string) list \<Rightarrow> (string \<times> string) list" where
  "parse_query_text s params =
     fold (\<lambda>kv ps. case parse_pair kv of (key, val) \<Rightarrow>
         if key = [] then ps else emplace_param (decode_url key True) (decode_url val True) ps)
       (rev (remdups (rev (split_on (CHR ''&'') s)))) params"

record server_request =
  sr_method :: string
  sr_target :: string
  sr_version :: string
  sr_path :: string
  sr_params :: "(string \<times> string) list"
  sr_headers :: headers

definition new_request :: server_request where
  "new_request = \<lparr>sr_method = [], sr_target = [], sr_version = [], sr_path = [], sr_params = [], sr_headers = []\<rparr>"

definition http_methods :: "string list" where
  "http_methods =
     [''GET'', ''HEAD'', ''POST'', ''PUT'', ''DELETE'', ''CONNECT'', ''OPTIONS'', ''TRACE'', ''PATCH'', ''PRI'']"

definition nth_piece :: "string list \<Rightarrow> nat \<Rightarrow> string" where
  "nth_piece ps i = (if i < length ps then ps ! i else [])"

text \<open>The target without its fragment gives the path and the query.\<close>

definition parse_target :: "server_request \<Rightarrow> bool \<times> server_request" where
  "parse_target req =
     (let target = takeWhile (\<lambda>c. c \<noteq> CHR ''#'') (sr_target req);
          parts = split_on (CHR ''?'') target
      in (length parts \<le> 2,
          req\<lparr>sr_target := target,
              sr_path := (if 1 \<le> length parts then decode_url (parts ! 0) False else sr_path req),
              sr_params := (if 2 \<le> length parts then parse_query_text (parts ! 1) (sr_params req) else sr_params req)\<rparr>))"

definition parse_request_line :: "string \<Rightarrow> bool \<times> server_request" where
  "parse_request_line line =
     (let s = c_str line
      in if \<not> end_with_crlf s then (False, new_request)
         else
           (let words = split_on (CHR '' '') (take (length s - 2) s);
                req = new_request\<lparr>sr_method := nth_piece words 0, sr_target := nth_piece words 1,
                                  sr_version := nth_piece words 2\<rparr>
            in if length words \<noteq> 3 then (False, req)
               else if sr_method req \<notin> set http_methods then (False, req)
               else if sr_version req \<noteq> ''HTTP/1.1'' \<and> sr_version req \<noteq> ''HTTP/1.0'' then (False, req)
               else parse_target req))"

section \<open>Decoding undoes encoding\<close>

lemma is_hex_upper_hex: "d < 16 \<Longrightarrow> is_hex (upper_hex d) = Some d \<and> upper_hex d \<noteq> CHR ''u''"
proof -
  have "\<forall>d\<in>set [0..<16]. is_hex (upper_hex d) = Some d \<and> upper_hex d \<noteq> CHR ''u''"
    by (simp add: upt_rec is_hex_def upper_hex_def is_digit_def char_of_eq_iff)
  then show "d < 16 \<Longrightarrow> ?thesis" by simp
qed

lemma from_hex_to_i_0 [simp]: "from_hex_to_i s 0 val = Some val"
  by (cases s) simp_all

lemma decode_url_escape:
  assumes "h < 16" and "l < 16"
  shows "decode_url (CHR ''%'' # upper_hex h # upper_hex l # s) b = char_of (16 * h + l) # decode_url s b"
  using is_hex_upper_hex [OF assms(1)] is_hex_upper_hex [OF assms(2)] by (simp add: mult.commute)

lemma decode_url_plain: "c \<noteq> CHR ''%'' \<Longrightarrow> decode_url (c # s) False = c # decode_url s False"
  by simp

declare decode_url.simps(2) [simp del]

lemma upper_hex_chars:
  "upper_hex 2 = CHR ''2''" "upper_hex 0 = CHR ''0''" "upper_hex 11 = CHR ''B''" "upper_hex 13 = CHR ''D''"
  "upper_hex 10 = CHR ''A''" "upper_hex 7 = CHR ''7''" "upper_hex 12 = CHR ''C''" "upper_hex 3 = CHR ''3''"
  by (simp_all add: upper_hex_def char_of_eq_iff)


lemma decode_encode_char:
  assumes "c \<noteq> CHR ''%''"
  shows "decode_url (encode_char c @ s) False = c # decode_url s False"
proof -
  note escapes = decode_url_escape [of 2 0] decode_url_escape [of 2 11] decode_url_escape [of 0 13]
    decode_url_escape [of 0 10] decode_url_escape [of 2 7] decode_url_escape [of 2 12] decode_url_escape [of 3 11]
  have "16 * (byte c div 16) + byte c mod 16 = byte c" by simp
  moreover have "byte c div 16 < 16" "byte c mod 16 < 16"
    using nat_of_char_less_256 [of c] by (auto simp: less_mult_imp_div_less)
  ultimately show ?thesis
    using assms escapes decode_url_escape [of "byte c div 16" "byte c mod 16" s False]
    by (auto simp: encode_char_def decode_url_plain upper_hex_chars char_of_eq_iff)
qed

lemma decode_encode_url:
  "CHR ''%'' \<notin> set s \<Longrightarrow> CHR 0x00 \<notin> set s \<Longrightarrow> decode_url (encode_url s) False = s"
proof -
  have "CHR ''%'' \<notin> set s \<Longrightarrow> decode_url (concat (map encode_char s)) False = s"
    by (induction s) (auto simp: decode_encode_char)
  moreover assume "CHR ''%'' \<notin> set s" "CHR 0x00 \<notin> set s"
  then have "c_str s = s" by (auto simp: takeWhile_eq_all_conv)
  ultimately show ?thesis using \<open>CHR ''%'' \<notin> set s\<close> by (simp only: encode_url_def not_False_eq_True)
qed

section \<open>Reading what was written\<close>

abbreviation LF :: char where
  "LF \<equiv> CHR 0x0A"

lemma read_line_LF: "LF \<notin> set l \<Longrightarrow> read_line (l @ LF # s) = (l @ [LF], s)"
  by (induction l) auto

lemma getline_crlf: "LF \<notin> set l \<Longrightarrow> getline (l @ crlf @ s, e) = Some (l @ crlf, (s, e))"
  using read_line_LF [of "l @ [CHR 0x0D]" s] by (simp add: getline_def)

lemma end_with_crlf_line [simp]: "end_with_crlf (l @ crlf)"
  by (simp add: end_with_crlf_def nth_append)

text \<open>Header lines that the reader takes as they were written.\<close>

definition header_line :: "string \<times> string \<Rightarrow> string" where
  "header_line kv = c_str (fst kv) @ '': '' @ c_str (snd kv)"

definition line_ok :: "string \<times> string \<Rightarrow> bool" where
  "line_ok kv \<longleftrightarrow> LF \<notin> set (header_line kv) \<and> length (header_line kv) + 2 \<le> HEADER_MAX_LENGTH"

lemma write_headers_simps:
  "write_headers [] = crlf" "write_headers (kv # hs) = header_line kv @ crlf @ write_headers hs"
  by (cases kv; simp add: write_headers_def header_line_def)+

lemma read_headers_written:
  "\<forall>kv\<in>set hs. line_ok kv \<Longrightarrow>
   read_headers acc (write_headers hs @ s, e) = ((True, fold (\<lambda>kv. parse_header (header_line kv)) hs acc), (s, e))"
proof (induction hs arbitrary: acc)
  case Nil
  show ?case
    using getline_crlf [of "[]" s e] by (subst read_headers.simps) (simp add: write_headers_simps end_with_crlf_def)
next
  case (Cons kv hs)
  have "header_line kv \<noteq> []" by (simp add: header_line_def)
  with Cons getline_crlf [of "header_line kv" "write_headers hs @ s" e] show ?case
    by (subst read_headers.simps) (simp add: write_headers_simps line_ok_def)
qed

lemma dropWhile_blank [simp]: "v \<noteq> [] \<Longrightarrow> \<not> is_space_or_tab (hd v) \<Longrightarrow> dropWhile is_space_or_tab v = v"
  by (cases v) auto

lemma colon_not_blank [simp]: "\<not> is_space_or_tab (CHR '':'')" "is_space_or_tab (CHR '' '')"
  by (simp_all add: is_space_or_tab_def)

text \<open>Without the blanks at its end a line has the same key.\<close>

lemma strip_header_line:
  assumes "CHR '':'' \<notin> set k"
  shows "\<exists>v'. rev (dropWhile is_space_or_tab (rev (k @ '': '' @ v))) = k @ '':'' @ v'"
proof (cases "dropWhile is_space_or_tab (rev v) = []")
  case True
  then have "dropWhile is_space_or_tab (rev v @ ['' '' ! 0, CHR '':''] @ rev k) = CHR '':'' # rev k"
    by (simp add: dropWhile_append)
  then show ?thesis by simp
next
  case False
  then have "dropWhile is_space_or_tab (rev v @ ['' '' ! 0, CHR '':''] @ rev k) =
      dropWhile is_space_or_tab (rev v) @ ['' '' ! 0, CHR '':''] @ rev k"
    by (auto simp: dropWhile_append)
  then show ?thesis by simp
qed

lemma key_of_line:
  assumes "CHR '':'' \<notin> set k"
  shows "takeWhile (\<lambda>c. c \<noteq> CHR '':'') (k @ '':'' @ v) = k" "dropWhile (\<lambda>c. c \<noteq> CHR '':'') (k @ '':'' @ v) = '':'' @ v"
  using assms by (auto simp: takeWhile_append dropWhile_append)

lemma parse_header_any:
  "CHR '':'' \<notin> set k \<Longrightarrow> parse_header (k @ '': '' @ v) hs = hs \<or> (\<exists>v'. parse_header (k @ '': '' @ v) hs = emplace_header k v' hs)"
  using strip_header_line [of k v] key_of_line [of k] by (auto simp: parse_header_def Let_def)

lemma parse_header_value:
  assumes "CHR '':'' \<notin> set k" and "ci_key k \<noteq> ci_key ''Location''"
    and v: "v \<noteq> []" "\<not> is_space_or_tab (hd v)" "\<not> is_space_or_tab (last v)"
  shows "parse_header (k @ '': '' @ v) hs = emplace_header k (decode_url v False) hs"
proof -
  have "rev (dropWhile is_space_or_tab (rev (k @ '': '' @ v))) = k @ '': '' @ v"
    using v by (cases v rule: rev_cases) auto
  moreover have "\<not> Ball (set v) is_space_or_tab" using v hd_in_set by blast
  ultimately show ?thesis using assms key_of_line [OF assms(1), of "'' '' @ v"] by (auto simp: parse_header_def Let_def)
qed

section \<open>Looking up headers\<close>

lemma has_header_simps [simp]:
  "\<not> has_header [] k" "has_header ((k', v) # hs) k \<longleftrightarrow> ci_key k' = ci_key k \<or> has_header hs k"
  by (simp_all add: has_header_def)

lemma get_header_value_simps [simp]:
  "get_header_value [] k = []"
  "get_header_value ((k', v) # hs) k = (if ci_key k' = ci_key k then c_str v else get_header_value hs k)"
  by (simp_all add: get_header_value_def)

lemma has_header_emplace [simp]: "has_header (emplace_header k' v hs) k \<longleftrightarrow> ci_key k' = ci_key k \<or> has_header hs k"
  by (induction k' v hs rule: emplace_header.induct) auto

lemma get_header_value_emplace [simp]:
  "ci_key k' \<noteq> ci_key k \<Longrightarrow> get_header_value (emplace_header k' v hs) k = get_header_value hs k"
  by (induction k' v hs rule: emplace_header.induct) auto

lemma has_header_set [simp]:
  "ci_key k' \<noteq> ci_key k \<Longrightarrow> has_header (set_header k' v hs) k \<longleftrightarrow> has_header hs k"
  by (simp add: set_header_def)

lemma get_header_value_set [simp]:
  "ci_key k' \<noteq> ci_key k \<Longrightarrow> get_header_value (set_header k' v hs) k = get_header_value hs k"
  by (simp add: set_header_def)

section \<open>The request line\<close>

lemma pieces_word: "d \<notin> set w \<Longrightarrow> pieces d acc (w @ d # s) = (rev acc @ w) # pieces d [] s"
  by (induction w arbitrary: acc) auto

lemma pieces_last: "d \<notin> set w \<Longrightarrow> pieces d acc w = [rev acc @ w]"
  by (induction w arbitrary: acc) auto

definition word_ok :: "string \<Rightarrow> bool" where
  "word_ok w \<longleftrightarrow> w \<noteq> [] \<and> \<not> is_space_or_tab (hd w) \<and> \<not> is_space_or_tab (last w)"

lemma trim_word: "word_ok w \<Longrightarrow> trim w = w"
  by (cases w rule: rev_cases) (auto simp: word_ok_def trim_def hd_append split: if_splits)

lemma split_on_simps:
  "word_ok w \<Longrightarrow> d \<notin> set w \<Longrightarrow> split_on d (w @ d # s) = w # split_on d s"
  "word_ok w \<Longrightarrow> d \<notin> set w \<Longrightarrow> split_on d w = [w]"
  by (simp_all add: split_on_def pieces_word pieces_last trim_word) (simp_all add: word_ok_def)

text \<open>A path that survives the request line: no byte of it is taken for something else.\<close>

definition path_ok :: "string \<Rightarrow> bool" where
  "path_ok p \<longleftrightarrow>
     p \<noteq> [] \<and> list_all (\<lambda>c. c \<notin> {CHR ''%'', CHR ''#'', CHR ''?'', CHR 0x00, CHR 0x09}) p \<and>
     length (encode_url p) + 16 \<le> HEADER_MAX_LENGTH"

lemma upper_hex_code: "d < 16 \<Longrightarrow> byte (upper_hex d) = (if d < 10 then 48 + d else 55 + d)"
  by (simp add: upper_hex_def)

lemma encode_char_safe:
  assumes "c \<notin> {CHR ''#'', CHR ''?'', CHR 0x00, CHR 0x09}" and "x \<in> set (encode_char c)"
  shows "x \<notin> {CHR '' '', CHR 0x0D, LF, CHR ''#'', CHR ''?'', CHR 0x00, CHR 0x09}"
proof -
  have "byte c div 16 < 16" "byte c mod 16 < 16"
    using nat_of_char_less_256 [of c] by (auto simp: less_mult_imp_div_less)
  then have "upper_hex (byte c div 16) \<notin> {CHR '' '', CHR 0x0D, LF, CHR ''#'', CHR ''?'', CHR 0x00, CHR 0x09}"
    "upper_hex (byte c mod 16) \<notin> {CHR '' '', CHR 0x0D, LF, CHR ''#'', CHR ''?'', CHR 0x00, CHR 0x09}"
    using upper_hex_code [of "byte c div 16"] upper_hex_code [of "byte c mod 16"] by (auto split: if_splits)
  with assms show ?thesis by (auto simp: encode_char_def split: if_splits)
qed

lemma encode_url_safe:
  assumes "path_ok p" and "x \<in> set (encode_url p)"
  shows "x \<notin> {CHR '' '', CHR 0x0D, LF, CHR ''#'', CHR ''?'', CHR 0x00, CHR 0x09}"
proof -
  obtain c where "c \<in> set p" "x \<in> set (encode_char c)"
    using assms(2) by (auto simp: encode_url_def dest: set_takeWhileD)
  with assms(1) encode_char_safe [of c x] show ?thesis by (auto simp: path_ok_def list_all_iff)
qed

lemma path_ok_c_str: "path_ok p \<Longrightarrow> c_str p = p"
  by (auto simp: path_ok_def list_all_iff takeWhile_eq_all_conv)

lemma encode_url_nonempty: "path_ok p \<Longrightarrow> encode_url p \<noteq> []"
  by (frule path_ok_c_str) (cases p; auto simp: encode_url_def path_ok_def encode_char_def)

lemma encode_url_word: "path_ok p \<Longrightarrow> word_ok (encode_url p)"
  using encode_url_safe [of p "hd (encode_url p)"] encode_url_safe [of p "last (encode_url p)"] encode_url_nonempty [of p]
  by (auto simp: word_ok_def is_space_or_tab_def)

text \<open>The request line of the client is understood by the server.\<close>

lemma parse_request_line_words:
  assumes "c_str line = words @ crlf" and "split_on (CHR '' '') words = [m, t, v]"
    and "m \<in> set http_methods" and "v = ''HTTP/1.1''"
  shows "parse_request_line line = parse_target (new_request\<lparr>sr_method := m, sr_target := t, sr_version := v\<rparr>)"
  using assms by (simp add: parse_request_line_def nth_piece_def Let_def)

lemma parse_target_path:
  assumes "takeWhile (\<lambda>c. c \<noteq> CHR ''#'') (sr_target req) = t" and "split_on (CHR ''?'') t = [t]"
  shows "parse_target req = (True, req\<lparr>sr_target := t, sr_path := decode_url t False\<rparr>)"
  using assms by (simp add: parse_target_def Let_def)

lemma parse_request_line_written:
  assumes m: "m \<in> set http_methods" and p: "path_ok p"
  shows "parse_request_line (m @ '' '' @ encode_url p @ '' HTTP/1.1'' @ crlf) =
    (True, new_request\<lparr>sr_method := m, sr_target := encode_url p, sr_version := ''HTTP/1.1'', sr_path := p\<rparr>)"
proof -
  let ?u = "encode_url p" and ?v = "''HTTP/1.1''"
  let ?line = "m @ '' '' @ ?u @ '' HTTP/1.1''"
  have mword: "word_ok m" "CHR '' '' \<notin> set m" "CHR 0x00 \<notin> set m"
    using m by (auto simp: http_methods_def word_ok_def is_space_or_tab_def)
  have safe: "CHR '' '' \<notin> set ?u" "CHR 0x00 \<notin> set ?u" "CHR ''#'' \<notin> set ?u" "CHR ''?'' \<notin> set ?u"
    using encode_url_safe [OF p] by blast+
  have vword: "word_ok ?v" "CHR '' '' \<notin> set ?v" by (simp_all add: word_ok_def is_space_or_tab_def)
  have c: "c_str (?line @ crlf) = ?line @ crlf" using mword safe by (auto simp: takeWhile_eq_all_conv)
  have w: "split_on (CHR '' '') ?line = [m, ?u, ?v]"
    using split_on_simps(1) [OF mword(1,2), of "?u @ CHR '' '' # ?v"] split_on_simps(1) [OF encode_url_word [OF p] safe(1), of ?v]
      split_on_simps(2) [OF vword] by simp
  have "takeWhile (\<lambda>c. c \<noteq> CHR ''#'') ?u = ?u" using safe by (auto simp: takeWhile_eq_all_conv)
  then have t: "takeWhile (\<lambda>c. c \<noteq> CHR ''#'')
      (sr_target (new_request\<lparr>sr_method := m, sr_target := ?u, sr_version := ?v\<rparr>)) = ?u" by simp
  have "decode_url ?u False = p" using p by (intro decode_encode_url) (auto simp: path_ok_def list_all_iff)
  with parse_request_line_words [OF c w m refl]
    parse_target_path [OF t split_on_simps(2) [OF encode_url_word [OF p] safe(4)]]
  show ?thesis by simp
qed

end
