(* ===== verification/Http_Exchange.thy ===== *)
theory Http_Exchange
  imports Http_Server
begin

text \<open>
  The client side of the bundled HTTP library, as the DBMS client of a node uses it: the address it
  connects to, the request it writes and the response it reads. With the server of the DBMS this gives
  a transport over bytes, and the theorem that it is the transport the rest of the development uses.
\<close>

section \<open>The address of the server\<close>

definition port_suffix :: "string \<Rightarrow> string option" where
  "port_suffix s =
     (if s = [] then Some []
      else if hd s = CHR '':'' \<and> tl s \<noteq> [] \<and> list_all is_digit (tl s) then Some (tl s) else None)"

text \<open>The pattern of an address: a scheme, a host or an IPv6 address in brackets, a port.\<close>

definition split_scheme :: "string \<Rightarrow> string \<times> string" where
  "split_scheme s =
     (let letters = takeWhile (\<lambda>c. 97 \<le> byte c \<and> byte c \<le> 122) s; rest = drop (length letters) s
      in if letters \<noteq> [] \<and> take 3 rest = ''://'' then (letters, drop 3 rest) else ([], s))"

definition bracket_host :: "string \<Rightarrow> (string \<times> string) option" where
  "bracket_host s =
     (if s = [] \<or> hd s \<noteq> CHR ''['' then None
      else
        (let h = takeWhile (\<lambda>c. is_digit c \<or> c = CHR '':'') (tl s); rest = drop (length h) (tl s)
         in if h = [] \<or> rest = [] \<or> hd rest \<noteq> CHR '']'' then None
            else map_option (\<lambda>p. (h, p)) (port_suffix (tl rest))))"

definition name_host :: "string \<Rightarrow> (string \<times> string) option" where
  "name_host s =
     (let h = takeWhile (\<lambda>c. c \<notin> {CHR '':'', CHR ''/'', CHR ''?'', CHR ''#''}) s
      in if h = [] then None else map_option (\<lambda>p. (h, p)) (port_suffix (drop (length h) s)))"

definition http_address :: "string \<Rightarrow> (string \<times> int) result" where
  "http_address s =
     (case split_scheme s of (scheme, rest) \<Rightarrow>
        (case (case bracket_host rest of None \<Rightarrow> name_host rest | Some x \<Rightarrow> Some x) of
           None \<Rightarrow> Inr (s, 80)
         | Some (h, port) \<Rightarrow>
             if scheme \<noteq> [] \<and> scheme \<noteq> ''http'' then Inl Invalid_argument
             else if port = [] then Inr (h, 80) else bind_result (stoi port) (\<lambda>p. Inr (h, p))))"

definition adjust_host_string :: "string \<Rightarrow> string" where
  "adjust_host_string h = (if CHR '':'' \<in> set h then ''['' @ h @ '']'' else h)"

section \<open>Writing a request\<close>

fun method_name :: "http_method \<Rightarrow> string" where
  "method_name Get = ''GET''"
| "method_name Post = ''POST''"

text \<open>\<open>Post\<close> with the content type \<open>text/plain\<close>, and \<open>Get\<close>: the headers before the request is written.\<close>

definition initial_headers :: "http_method \<Rightarrow> headers" where
  "initial_headers m = (if m = Post then set_header ''Content-Type'' ''text/plain'' [] else [])"

definition unless_present :: "string \<Rightarrow> string \<Rightarrow> headers \<Rightarrow> headers" where
  "unless_present k v hs = (if has_header hs k then hs else set_header k v hs)"

definition request_headers :: "string \<Rightarrow> int \<Rightarrow> http_request \<Rightarrow> headers" where
  "request_headers h port req =
     (let hs = unless_present ''Connection'' ''close'' (initial_headers (hr_method req));
          hs = unless_present ''Host''
                 (if port = 80 then h else adjust_host_string h @ '':'' @ to_string_int port) hs;
          hs = unless_present ''Accept'' ''*/*'' hs;
          hs = unless_present ''User-Agent'' ''cpp-httplib/0.14.1'' hs
      in if hr_body req = [] then
           (if hr_method req = Post then set_header ''Content-Length'' ''0'' hs else hs)
         else unless_present ''Content-Length'' (to_string_nat (length (hr_body req)))
                (unless_present ''Content-Type'' ''text/plain'' hs))"

definition request_head :: "string \<Rightarrow> int \<Rightarrow> http_request \<Rightarrow> string" where
  "request_head h port req =
     c_str (method_name (hr_method req)) @ '' '' @ encode_url (hr_path req) @ '' HTTP/1.1'' @ crlf @
     write_headers (request_headers h port req)"

definition write_request :: "string \<Rightarrow> int \<Rightarrow> http_request \<Rightarrow> string" where
  "write_request h port req = request_head h port req @ hr_body req"

section \<open>Reading a response\<close>

text \<open>The pattern of a status line: version, three digits, and perhaps a text without line ends.\<close>

definition match_status_line :: "string \<Rightarrow> (string \<times> nat \<times> string) option" where
  "match_status_line line =
     (let s = c_str line; version = take 8 s; code = take 3 (drop 9 s); rest = drop 12 s;
          reason = take (length rest - 3) (drop 1 rest)
      in if version \<in> {''HTTP/1.0'', ''HTTP/1.1''} \<and> take 1 (drop 8 s) = '' '' \<and>
            length code = 3 \<and> list_all is_digit code
         then if rest = crlf then Some (version, digits_value code, [])
              else if take 1 rest = '' '' \<and> CHR 0x0D \<notin> set reason \<and> CHR 0x0A \<notin> set reason \<and>
                   rest = '' '' @ reason @ crlf
              then Some (version, digits_value code, reason) else None
         else None)"

text \<open>The lines of an interim response are skipped.\<close>

function read_status :: "string \<times> nat \<times> string \<Rightarrow> stream \<Rightarrow> (string \<times> nat \<times> string) option \<times> stream" where
  "read_status m strm =
     (if fst (snd m) \<noteq> 100 then (Some m, strm)
      else
        (case getline strm of
           None \<Rightarrow> (None, ([], snd strm))
         | Some (_, strm1) \<Rightarrow>
             (case getline strm1 of
                None \<Rightarrow> (None, ([], snd strm))
              | Some (line, strm2) \<Rightarrow>
                  (case match_status_line line of None \<Rightarrow> (None, strm2) | Some m' \<Rightarrow> read_status m' strm2))))"
  by pat_completeness auto

termination
  by (relation "measure (\<lambda>(m, strm). length (fst strm))") (auto dest!: getline_length)

declare read_status.simps [simp del]

definition read_response_line :: "stream \<Rightarrow> (string \<times> nat \<times> string) option \<times> stream" where
  "read_response_line strm =
     (case getline strm of
        None \<Rightarrow> (None, ([], snd strm))
      | Some (line, strm') \<Rightarrow>
          (case match_status_line line of None \<Rightarrow> (None, strm') | Some m \<Rightarrow> read_status m strm'))"

text \<open>Any failure is an error of the call; redirections are not followed.\<close>

definition receive_response :: "stream \<Rightarrow> http_response option" where
  "receive_response strm =
     (case read_response_line strm of
        (None, _) \<Rightarrow> None
      | (Some (version, st, reason), strm1) \<Rightarrow>
          (case read_headers [] strm1 of
             ((False, _), _) \<Rightarrow> None
           | ((True, hs), strm2) \<Rightarrow>
               if st = 204 then Some \<lparr>status = st, body = []\<rparr>
               else
                 (case read_content hs strm2 of
                    ((None, content, _), _) \<Rightarrow> Some \<lparr>status = st, body = content\<rparr>
                  | ((Some _, _, _), _) \<Rightarrow> None)))"

section \<open>The transport over bytes\<close>

text \<open>
  A call of a node: the client opens a connection, writes its request and reads the answer; the server
  closes its end when it has served the connection.
\<close>

definition http_transport ::
  "(cxx_error \<Rightarrow> string) \<Rightarrow> nat \<Rightarrow> endpoints \<Rightarrow> (nat \<Rightarrow> nat) \<Rightarrow> string \<Rightarrow> int \<Rightarrow> http_request \<Rightarrow> log_store \<Rightarrow>
   (http_response option \<times> log_store) option" where
  "http_transport std_what socket ep ahead h port req logs =
     (case serve_connection std_what socket ep ahead (write_request h port req, Silent) logs of
        None \<Rightarrow> None
      | Some (reply, logs') \<Rightarrow> Some (receive_response (reply, Closed), logs'))"

section \<open>The headers on the wire\<close>

lemma decode_url_no_percent: "CHR ''%'' \<notin> set s \<Longrightarrow> decode_url s False = s"
  by (induction s) (auto simp: decode_url_plain)

lemma digits_clean:
  assumes "list_all is_digit s"
  shows "c_str s = s" "\<not> has_crlf s" "decode_url s False = s" "LF \<notin> set s"
proof -
  have "c \<in> set s \<Longrightarrow> c \<notin> {CHR 0x00, CHR 0x0D, LF, CHR ''%''}" for c
    using assms by (auto simp: list_all_iff is_digit_def)
  then have clean: "CHR 0x00 \<notin> set s" "CHR 0x0D \<notin> set s" "LF \<notin> set s" "CHR ''%'' \<notin> set s" by blast+
  show c: "c_str s = s" using clean by (auto simp: takeWhile_eq_all_conv)
  show "\<not> has_crlf s" using clean by (auto simp: has_crlf_def c)
  show "decode_url s False = s" "LF \<notin> set s" using clean decode_url_no_percent by auto
qed

lemma header_order:
  "ci_key ''Accept'' < ci_key ''Connection''" "ci_key ''Accept'' < ci_key ''Content-Type''"
  "ci_key ''Connection'' < ci_key ''Content-Type''" "ci_key ''Connection'' < ci_key ''Content-Length''"
  "ci_key ''Connection'' < ci_key ''EXCEPTION_WHAT''" "ci_key ''Content-Length'' < ci_key ''EXCEPTION_WHAT''"
  "ci_key ''Content-Length'' < ci_key ''Content-Type''" "ci_key ''Content-Type'' < ci_key ''Host''"
  "ci_key ''Content-Length'' < ci_key ''Host''" "ci_key ''Content-Length'' < ci_key ''User-Agent''"
  "ci_key ''Connection'' < ci_key ''Host''" "ci_key ''Connection'' < ci_key ''User-Agent''"
  "ci_key ''Accept'' < ci_key ''Host''" "ci_key ''Accept'' < ci_key ''User-Agent''"
  "ci_key ''Accept'' < ci_key ''Content-Length''"
  "ci_key ''Content-Type'' < ci_key ''User-Agent''" "ci_key ''Host'' < ci_key ''User-Agent''"
  by code_simp+

lemmas header_compare = header_order header_order [THEN less_not_sym] header_order [THEN less_imp_neq]
  header_order [THEN less_imp_neq, THEN not_sym]

lemma plain_values:
  "\<not> has_crlf ''text/plain''" "\<not> has_crlf ''close''" "\<not> has_crlf ''*/*''" "\<not> has_crlf ''cpp-httplib/0.14.1''"
  "\<not> has_crlf ''Content-Type''" "\<not> has_crlf ''Connection''" "\<not> has_crlf ''Accept''" "\<not> has_crlf ''User-Agent''"
  "\<not> has_crlf ''Host''" "\<not> has_crlf ''Content-Length''" "\<not> has_crlf ''EXCEPTION_WHAT''" "\<not> has_crlf ''0''"
  by (simp_all add: has_crlf_def)

definition host_header :: "string \<Rightarrow> int \<Rightarrow> headers" where
  "host_header h port =
     (let v = (if port = 80 then h else adjust_host_string h @ '':'' @ to_string_int port)
      in if has_crlf v then [] else [(''Host'', v)])"

definition wire_headers :: "http_method \<Rightarrow> nat \<Rightarrow> headers \<Rightarrow> headers" where
  "wire_headers m n host =
     [(''Accept'', ''*/*''), (''Connection'', ''close'')] @
     (if m = Post then [(''Content-Length'', to_string_nat n), (''Content-Type'', ''text/plain'')] else []) @
     host @ [(''User-Agent'', ''cpp-httplib/0.14.1'')]"

lemma to_string_nat_0: "to_string_nat 0 = ''0''"
  by code_simp

lemma request_headers_wire:
  assumes "hr_method req = Get \<Longrightarrow> hr_body req = []"
  shows "request_headers h port req = wire_headers (hr_method req) (length (hr_body req)) (host_header h port)"
  using assms digits_clean(2) [OF to_string_nat_digits]
  by (cases "hr_method req"; cases "hr_body req = []")
    (simp_all add: request_headers_def initial_headers_def unless_present_def wire_headers_def host_header_def
      set_header_def Let_def header_compare plain_values to_string_nat_0)

text \<open>What the server has read: the value of the host may differ, the rest is as written.\<close>

definition host_only :: "headers \<Rightarrow> bool" where
  "host_only hs \<longleftrightarrow> hs = [] \<or> (\<exists>v. hs = [(''Host'', v)])"

lemma parse_header_written:
  "parse_header (header_line (''Accept'', ''*/*'')) hs = emplace_header ''Accept'' ''*/*'' hs"
  "parse_header (header_line (''Connection'', ''close'')) hs = emplace_header ''Connection'' ''close'' hs"
  "parse_header (header_line (''Content-Type'', ''text/plain'')) hs = emplace_header ''Content-Type'' ''text/plain'' hs"
  "parse_header (header_line (''User-Agent'', ''cpp-httplib/0.14.1'')) hs =
     emplace_header ''User-Agent'' ''cpp-httplib/0.14.1'' hs"
  "parse_header (header_line (''Content-Length'', to_string_nat n)) hs = emplace_header ''Content-Length'' (to_string_nat n) hs"
proof -
  have loc: "ci_key ''Accept'' \<noteq> ci_key ''Location''" "ci_key ''Connection'' \<noteq> ci_key ''Location''"
    "ci_key ''Content-Type'' \<noteq> ci_key ''Location''" "ci_key ''User-Agent'' \<noteq> ci_key ''Location''"
    "ci_key ''Content-Length'' \<noteq> ci_key ''Location''" by code_simp+
  note parse = parse_header_value [OF _ loc(1), of "''*/*''"] parse_header_value [OF _ loc(2), of "''close''"]
    parse_header_value [OF _ loc(3), of "''text/plain''"] parse_header_value [OF _ loc(4), of "''cpp-httplib/0.14.1''"]
  show "parse_header (header_line (''Accept'', ''*/*'')) hs = emplace_header ''Accept'' ''*/*'' hs"
    "parse_header (header_line (''Connection'', ''close'')) hs = emplace_header ''Connection'' ''close'' hs"
    "parse_header (header_line (''Content-Type'', ''text/plain'')) hs = emplace_header ''Content-Type'' ''text/plain'' hs"
    "parse_header (header_line (''User-Agent'', ''cpp-httplib/0.14.1'')) hs =
       emplace_header ''User-Agent'' ''cpp-httplib/0.14.1'' hs"
    using parse by (simp_all add: header_line_def is_space_or_tab_def decode_url_no_percent)
  have blank: "is_digit c \<Longrightarrow> \<not> is_space_or_tab c" for c by (auto simp: is_digit_def is_space_or_tab_def)
  have d: "to_string_nat n \<noteq> []" "\<not> is_space_or_tab (hd (to_string_nat n))" "\<not> is_space_or_tab (last (to_string_nat n))"
    using to_string_nat_digits [of n] hd_in_set [of "to_string_nat n"] last_in_set [of "to_string_nat n"]
    by (simp_all add: list_all_iff blank)
  show "parse_header (header_line (''Content-Length'', to_string_nat n)) hs = emplace_header ''Content-Length'' (to_string_nat n) hs"
    using parse_header_value [OF _ loc(5) d]
    by (simp add: header_line_def digits_clean(1,3) [OF to_string_nat_digits])
qed

lemma wire_headers_read:
  "\<exists>host'. host_only host' \<and>
    fold (\<lambda>kv. parse_header (header_line kv)) (wire_headers m n (host_header h port)) [] = wire_headers m n host'"
proof -
  let ?parse = "\<lambda>kv. parse_header (header_line kv)"
  let ?front = "[(''Accept'', ''*/*''), (''Connection'', ''close'')] @
     (if m = Post then [(''Content-Length'', to_string_nat n), (''Content-Type'', ''text/plain'')] else [])"
  have front: "fold ?parse ?front [] = ?front" by (simp add: parse_header_written header_compare)
  have "\<exists>host'. host_only host' \<and> fold ?parse (host_header h port) ?front = ?front @ host'"
  proof (cases "host_header h port = []")
    case False
    then obtain v where v: "host_header h port = [(''Host'', v)]" by (auto simp: host_header_def Let_def split: if_splits)
    from parse_header_any [of "''Host''" "c_str v" ?front]
    consider "?parse (''Host'', v) ?front = ?front" | v' where "?parse (''Host'', v) ?front = emplace_header ''Host'' v' ?front"
      by (auto simp: header_line_def)
    then show ?thesis
    proof cases
      case 1
      with v show ?thesis by (intro exI [of _ "[]"]) (simp add: host_only_def)
    next
      case 2
      have "emplace_header ''Host'' v' ?front = ?front @ [(''Host'', v')]" by (simp add: header_compare)
      with 2 v show ?thesis by (intro exI [of _ "[(''Host'', v')]"]) (simp add: host_only_def)
    qed
  qed (simp add: host_only_def)
  then obtain host' where host': "host_only host'" "fold ?parse (host_header h port) ?front = ?front @ host'" by blast
  have "emplace_header ''User-Agent'' ''cpp-httplib/0.14.1'' (?front @ host') = wire_headers m n host'"
    using host'(1) by (auto simp: wire_headers_def host_only_def header_compare)
  then have "fold ?parse (?front @ host_header h port @ [(''User-Agent'', ''cpp-httplib/0.14.1'')]) [] = wire_headers m n host'"
    using front host'(2) by (simp only: fold_append comp_apply fold.simps id_apply parse_header_written)
  with host'(1) show ?thesis by (intro exI [of _ host']) (simp add: wire_headers_def)
qed

section \<open>The server reads the request of the client\<close>

lemma strtoull_to_string_nat: "n < 2 ^ 64 \<Longrightarrow> strtoull (to_string_nat n) = n"
  by (simp add: strtoull_def)

text \<open>The header names in use are different, also when case is ignored.\<close>

definition known_headers :: "string list" where
  "known_headers =
     [''Accept'', ''Connection'', ''Content-Length'', ''Content-Type'', ''Host'', ''User-Agent'', ''Range'', ''Expect'',
      ''Transfer-Encoding'', ''Content-Encoding'', ''Keep-Alive'', ''EXCEPTION_WHAT'', ''REMOTE_ADDR'',
      ''REMOTE_PORT'', ''LOCAL_ADDR'', ''LOCAL_PORT'', ''Location'', ''Accept-Ranges'']"

lemma distinct_known: "distinct (map ci_key known_headers)"
  by code_simp

lemma ci_key_known:
  "k \<in> set known_headers \<Longrightarrow> k' \<in> set known_headers \<Longrightarrow> ci_key k = ci_key k' \<longleftrightarrow> k = k'"
  using distinct_known by (auto simp: distinct_map dest: inj_onD)

lemma known_members:
  "''Accept'' \<in> set known_headers" "''Connection'' \<in> set known_headers" "''Content-Length'' \<in> set known_headers"
  "''Content-Type'' \<in> set known_headers" "''Host'' \<in> set known_headers" "''User-Agent'' \<in> set known_headers"
  "''Range'' \<in> set known_headers" "''Expect'' \<in> set known_headers" "''Transfer-Encoding'' \<in> set known_headers"
  "''Content-Encoding'' \<in> set known_headers" "''Keep-Alive'' \<in> set known_headers"
  "''EXCEPTION_WHAT'' \<in> set known_headers" "''REMOTE_ADDR'' \<in> set known_headers"
  "''REMOTE_PORT'' \<in> set known_headers" "''LOCAL_ADDR'' \<in> set known_headers" "''LOCAL_PORT'' \<in> set known_headers"
  "''Location'' \<in> set known_headers" "''Accept-Ranges'' \<in> set known_headers"
  by (simp_all add: known_headers_def)

lemmas header_names = ci_key_known known_members

text \<open>The headers the server looks at.\<close>

lemma wire_headers_lookup:
  assumes "host_only host"
  shows "get_header_value (wire_headers m n host) ''Connection'' = ''close''"
    "\<not> has_header (wire_headers m n host) ''Range''" "get_header_value (wire_headers m n host) ''Expect'' = []"
    "get_header_value (wire_headers m n host) ''Transfer-Encoding'' = []"
    "get_header_value (wire_headers m n host) ''Content-Encoding'' = []"
    "get_header_value (wire_headers m n host) ''Content-Type'' = (if m = Post then ''text/plain'' else [])"
    "has_header (wire_headers m n host) ''Content-Length'' \<longleftrightarrow> m = Post"
    "m = Post \<Longrightarrow> get_header_value (wire_headers m n host) ''Content-Length'' = to_string_nat n"
  using assms digits_clean(1) [OF to_string_nat_digits, of n]
  by (auto simp: wire_headers_def host_only_def header_names simp del: takeWhile_eq_all_conv)

lemma address_keys:
  assumes "k \<in> {''Connection'', ''Range'', ''Expect'', ''Transfer-Encoding'', ''Content-Encoding'', ''Content-Type'', ''Content-Length''}"
  shows "has_header (sr_headers (add_addresses ep req)) k = has_header (sr_headers req) k"
    "get_header_value (sr_headers (add_addresses ep req)) k = get_header_value (sr_headers req) k"
proof -
  have "ci_key ''REMOTE_ADDR'' \<noteq> ci_key k" "ci_key ''REMOTE_PORT'' \<noteq> ci_key k"
    "ci_key ''LOCAL_ADDR'' \<noteq> ci_key k" "ci_key ''LOCAL_PORT'' \<noteq> ci_key k"
    using assms by (auto simp: header_names)
  then show "has_header (sr_headers (add_addresses ep req)) k = has_header (sr_headers req) k"
    "get_header_value (sr_headers (add_addresses ep req)) k = get_header_value (sr_headers req) k"
    by (simp_all add: add_addresses_def)
qed

text \<open>What a request must be like to be read as it was meant.\<close>

definition request_ok :: "string \<Rightarrow> int \<Rightarrow> http_request \<Rightarrow> bool" where
  "request_ok h port req \<longleftrightarrow>
     path_ok (hr_path req) \<and> length (hr_body req) < 2 ^ 64 \<and> (hr_method req = Get \<longrightarrow> hr_body req = []) \<and>
     (\<forall>kv\<in>set (host_header h port). line_ok kv)"

definition read_request :: "http_request \<Rightarrow> headers \<Rightarrow> server_request" where
  "read_request req host =
     new_request\<lparr>sr_method := method_name (hr_method req), sr_target := encode_url (hr_path req),
       sr_version := ''HTTP/1.1'', sr_path := hr_path req,
       sr_headers := wire_headers (hr_method req) (length (hr_body req)) host\<rparr>"

lemma to_string_nat_length: "n < 2 ^ 64 \<Longrightarrow> length (to_string_nat n) \<le> 65"
proof -
  have "n < 2 ^ k \<Longrightarrow> length (nat_digits n) \<le> Suc k" for k
  proof (induction n arbitrary: k rule: nat_digits.induct)
    case (1 n)
    show ?case
    proof (cases "n < 10")
      case False
      then obtain k' where k: "k = Suc k'" using "1.prems" by (cases k) auto
      have "n div 10 < 2 ^ k'" using "1.prems" k by simp
      from "1.IH" [OF False this] k False show ?thesis by (simp add: nat_digits.simps [of n])
    qed (simp add: nat_digits.simps [of n])
  qed
  from this [of 64] show "n < 2 ^ 64 \<Longrightarrow> ?thesis" by (simp add: to_string_nat_def)
qed

lemma wire_lines_ok:
  assumes "n < 2 ^ 64" and "\<forall>kv\<in>set host. line_ok kv"
  shows "\<forall>kv\<in>set (wire_headers m n host). line_ok kv"
proof -
  have "header_line (''Content-Length'', to_string_nat n) = ''Content-Length: '' @ to_string_nat n"
    by (simp add: header_line_def digits_clean(1) [OF to_string_nat_digits])
  moreover have "LF \<notin> set (to_string_nat n)" by (rule digits_clean(4) [OF to_string_nat_digits])
  ultimately have "line_ok (''Content-Length'', to_string_nat n)"
    using to_string_nat_length [OF assms(1)] by (simp add: line_ok_def HEADER_MAX_LENGTH_def)
  moreover have "line_ok (''Accept'', ''*/*'')" "line_ok (''Connection'', ''close'')"
    "line_ok (''Content-Type'', ''text/plain'')" "line_ok (''User-Agent'', ''cpp-httplib/0.14.1'')"
    by (simp_all add: line_ok_def header_line_def HEADER_MAX_LENGTH_def)
  ultimately show ?thesis using assms(2) by (auto simp: wire_headers_def)
qed

lemma receive_request_written:
  assumes "request_ok h port req" and "socket < FD_SETSIZE"
  shows "\<exists>host. host_only host \<and>
    receive_request socket (request_head h port req @ s, e) = (Received (read_request req host), (s, e))"
proof -
  let ?m = "method_name (hr_method req)" and ?n = "length (hr_body req)"
  let ?line = "?m @ '' '' @ encode_url (hr_path req) @ '' HTTP/1.1''"
  let ?hs = "wire_headers (hr_method req) ?n (host_header h port)"
  have ok: "path_ok (hr_path req)" "?n < 2 ^ 64" "\<forall>kv\<in>set (host_header h port). line_ok kv"
    "hr_method req = Get \<Longrightarrow> hr_body req = []"
    using assms(1) by (simp_all add: request_ok_def)
  have m: "?m \<in> set http_methods" "c_str ?m = ?m" "LF \<notin> set ?m" "length ?m \<le> 4"
    by (cases "hr_method req"; simp add: http_methods_def)+
  have w: "request_head h port req @ s = ?line @ crlf @ write_headers ?hs @ s"
    using request_headers_wire [OF ok(4)] m(2) by (simp add: request_head_def)
  have "LF \<notin> set ?line" using m(3) encode_url_safe [OF ok(1)] by auto
  then have line: "getline (request_head h port req @ s, e) = Some (?line @ crlf, (write_headers ?hs @ s, e))"
    unfolding w by (rule getline_crlf)
  have "length (?line @ crlf) \<le> REQUEST_URI_MAX_LENGTH"
    using ok(1) m(4) by (simp add: path_ok_def HEADER_MAX_LENGTH_def REQUEST_URI_MAX_LENGTH_def)
  moreover have "parse_request_line (?line @ crlf) =
      (True, new_request\<lparr>sr_method := ?m, sr_target := encode_url (hr_path req), sr_version := ''HTTP/1.1'',
        sr_path := hr_path req\<rparr>)"
    using parse_request_line_written [OF m(1) ok(1)] by simp
  moreover obtain host where host: "host_only host"
      "fold (\<lambda>kv. parse_header (header_line kv)) ?hs [] = wire_headers (hr_method req) ?n host"
    using wire_headers_read by blast
  then have "read_headers [] (write_headers ?hs @ s, e) =
      ((True, wire_headers (hr_method req) ?n host), (s, e))"
    using read_headers_written [OF wire_lines_ok [OF ok(2,3)], of "[]" "hr_method req" s e] by simp
  ultimately have "receive_request socket (request_head h port req @ s, e) =
      (Received (read_request req host), (s, e))"
    using assms(2) by (simp only: receive_request_def line) (simp add: read_request_def)
  with host(1) show ?thesis by blast
qed

text \<open>The body is as long as it says, or the stream ends before.\<close>

lemma read_content_written:
  assumes "host_only host" and "hr_method req = Post" and "length (hr_body req) < 2 ^ 64"
    and "sr_headers q = sr_headers (add_addresses ep (read_request req host))"
  shows "read_content (sr_headers q) (hr_body req, e) = ((None, hr_body req, sr_headers q), ([], e))"
    and "length s < length (hr_body req) \<Longrightarrow>
      read_content (sr_headers q) (s, e) = ((Some 400, s, sr_headers q), ([], e))"
proof -
  have "get_header_value (sr_headers q) ''Content-Encoding'' = []"
    "get_header_value (sr_headers q) ''Transfer-Encoding'' = []"
    "has_header (sr_headers q) ''Content-Length''"
    "get_header_value (sr_headers q) ''Content-Length'' = to_string_nat (length (hr_body req))"
    using assms by (simp_all add: address_keys read_request_def wire_headers_lookup)
  then show "read_content (sr_headers q) (hr_body req, e) = ((None, hr_body req, sr_headers q), ([], e))"
    and "length s < length (hr_body req) \<Longrightarrow>
      read_content (sr_headers q) (s, e) = ((Some 400, s, sr_headers q), ([], e))"
    using assms(3)
    by (simp_all add: read_content_def is_compressed_def is_chunked_transfer_encoding_def ci_key_def
        get_header_value_u64_def strtoull_to_string_nat read_content_with_length_def)
qed

section \<open>The routes do what the abstract server does\<close>

text \<open>The three kinds of answers.\<close>

inductive answers :: "bool \<times> server_response \<Rightarrow> http_response \<Rightarrow> bool" where
  content: "answers (True, set_content c ''text/plain'' new_response) \<lparr>status = 200, body = c\<rparr>"
| exception: "length w \<le> 1000 \<Longrightarrow> answers (False, new_response\<lparr>rp_status := Some 500, rp_headers := [(''EXCEPTION_WHAT'', escape_what w)]\<rparr>)
     \<lparr>status = 500, body = []\<rparr>"
| unknown: "answers (False, new_response) \<lparr>status = 404, body = []\<rparr>"

lemma escape_what_clean:
  "CHR 0x0D \<notin> set (escape_what s)" "LF \<notin> set (escape_what s)" "c_str (escape_what s) = escape_what s"
  "\<not> has_crlf (escape_what s)"
proof -
  have x: "x \<in> set (escape_what s) \<Longrightarrow> x \<notin> {CHR 0x0D, LF, CHR 0x00}" for x
    by (auto simp: escape_what_def split: if_splits dest: set_takeWhileD)
  then show "CHR 0x0D \<notin> set (escape_what s)" "LF \<notin> set (escape_what s)" by blast+
  show c: "c_str (escape_what s) = escape_what s" using x by (auto simp: takeWhile_eq_all_conv)
  show "\<not> has_crlf (escape_what s)" unfolding has_crlf_def c using x by blast
qed

text \<open>The exceptions of the handlers have short texts, as far as this code writes them itself.\<close>

definition short_what :: "(cxx_error \<Rightarrow> string) \<Rightarrow> bool" where
  "short_what std_what \<longleftrightarrow> (\<forall>e. length (std_what e) \<le> 1000)"

definition handler_error :: "cxx_error \<Rightarrow> bool" where
  "handler_error e \<longleftrightarrow>
     e \<in> {Out_of_range, Invalid_argument, Runtime_error ''Unknown log type!'',
       Runtime_error ''Got decision that wasn't COMMIT, ABORT, or VOTE-YES!'', Runtime_error ''LOG ONCE NOT FOR DATA LOGS!''}"

lemma handler_error_what: "short_what std_what \<Longrightarrow> handler_error e \<Longrightarrow> length (exception_what std_what e) \<le> 1000"
  by (auto simp: handler_error_def exception_what_def short_what_def)

lemma stoul_error: "stoul s = Inl e \<Longrightarrow> e \<in> {Out_of_range, Invalid_argument}"
  by (auto simp: stoul_def split: option.splits if_splits)

lemma getLogAddress_error: "getLogAddress ps = Inl e \<Longrightarrow> handler_error e"
  by (auto simp: getLogAddress_def path_param_def handler_error_def bind_result_def
      split: option.splits sum.splits if_splits dest: stoul_error)

lemma manager_error:
  "LogManager_LOG_READ addr c logs = (Inl e, logs') \<Longrightarrow> handler_error e"
  "LogManager_LOG_WRITE addr c logs = (Inl e, logs') \<Longrightarrow> handler_error e"
  "LogManager_LOG_ONCE addr c logs = (Inl e, logs') \<Longrightarrow> handler_error e"
  by (auto simp: LogManager_LOG_READ_def LogManager_LOG_WRITE_def LogManager_LOG_ONCE_def apply_log_def
      handler_error_def bind_result_def DataLog_LOG_WRITE_def DataLog_LOG_ONCE_def TransactionLog_LOG_WRITE_def
      TransactionLog_LOG_ONCE_def checkUndefinedInput_def split: prod.splits sum.splits if_splits)

lemma log_result_error:
  "log_result (\<lambda>addr. LogManager_LOG_READ addr c) ps logs = (Inl e, logs') \<Longrightarrow> handler_error e"
  "log_result (\<lambda>addr. LogManager_LOG_WRITE addr c) ps logs = (Inl e, logs') \<Longrightarrow> handler_error e"
  "log_result (\<lambda>addr. LogManager_LOG_ONCE addr c) ps logs = (Inl e, logs') \<Longrightarrow> handler_error e"
  by (auto simp: log_result_def manager_error getLogAddress_error split: sum.splits)

lemma respond_answers:
  assumes "short_what std_what" and "\<And>e. r = Inl e \<Longrightarrow> handler_error e"
  shows "answers (respond std_what r new_response) (http_result r)"
proof (cases r)
  case (Inl e)
  have "set_header ''EXCEPTION_WHAT'' (escape_what w) [] = [(''EXCEPTION_WHAT'', escape_what w)]" for w
    by (simp add: set_header_def escape_what_clean plain_values)
  with Inl show ?thesis
    using answers.exception [OF handler_error_what [OF assms(1) assms(2) [OF Inl]]]
    by (simp add: respond_def http_result_def new_response_def)
next
  case (Inr c)
  then show ?thesis using answers.content [of c] by (simp add: respond_def http_result_def)
qed

lemma log_result_route: "route f ps logs = (case log_result f ps logs of (r, logs') \<Rightarrow> (http_result r, logs'))"
  by (simp add: route_def log_result_def split: sum.split prod.split)

lemma routing_answers:
  assumes "request_ok h port req" and "host_only host" and short: "short_what std_what"
    and routed: "routing std_what (add_addresses ep (read_request req host)) (hr_body req, e) logs = (r, strm, logs')"
  shows "answers r (fst (dbms_server req logs)) \<and> logs' = snd (dbms_server req logs)"
proof (cases "hr_method req")
  case Get
  then show ?thesis
    using routed answers.unknown log_result_error
    by (auto simp: routing_def Let_def read_request_def add_addresses_def dbms_server_def handle_LOG_READ_def
        log_result_route new_response_def split: option.splits prod.splits
        intro!: respond_answers [OF short, unfolded new_response_def])
next
  case Post
  let ?q = "add_addresses ep (read_request req host)"
  have q: "sr_method ?q = ''POST''" "sr_path ?q = hr_path req" by (simp_all add: add_addresses_def read_request_def Post)
  have "length (hr_body req) < 2 ^ 64" using assms(1) by (simp add: request_ok_def)
  from read_content_written(1) [OF assms(2) Post this refl]
  have content: "read_content (sr_headers ?q) (hr_body req, e) = ((None, hr_body req, sr_headers ?q), ([], e))" .
  have new: "new_response\<lparr>rp_status := None\<rparr> = new_response" by (simp add: new_response_def)
  have "get_header_value (sr_headers ?q) ''Content-Type'' = ''text/plain''"
    using assms(2) Post by (simp add: address_keys read_request_def wire_headers_lookup)
  then have unread: "read_request_body ?q (hr_body req, e) = (None, ([], e))"
    using content by (simp add: read_request_body_def q is_form_urlencoded_def)
  show ?thesis
    using routed Post answers.unknown log_result_error
    by (auto simp: routing_def Let_def q content unread new handle_with_body_def dbms_server_def
        handle_LOG_WRITE_def handle_LOG_ONCE_def log_result_route split: option.splits prod.splits
        intro!: respond_answers [OF short])
qed

section \<open>The client reads the answer\<close>

text \<open>The headers of the three kinds of answers on a connection that is to be closed.\<close>

definition answer_headers :: "nat \<Rightarrow> headers \<Rightarrow> headers" where
  "answer_headers n extra = [(''Connection'', ''close''), (''Content-Length'', to_string_nat n)] @ extra"

definition answer_bytes :: "http_response \<Rightarrow> headers \<Rightarrow> string" where
  "answer_bytes resp extra =
     ''HTTP/1.1 '' @ to_string_nat (status resp) @ '' '' @ status_message (status resp) @ crlf @
     write_headers (answer_headers (length (body resp)) extra) @ body resp"

definition extra_ok :: "headers \<Rightarrow> bool" where
  "extra_ok extra \<longleftrightarrow>
     (\<forall>kv\<in>set extra. line_ok kv) \<and> (extra = [] \<or> (\<exists>k v. extra = [(k, v)] \<and> k \<in> {''Content-Type'', ''EXCEPTION_WHAT''}))"

lemma status_lines:
  "match_status_line (''HTTP/1.1 '' @ to_string_nat 200 @ '' '' @ status_message 200 @ crlf) = Some (''HTTP/1.1'', 200, ''OK'')"
  "match_status_line (''HTTP/1.1 '' @ to_string_nat 404 @ '' '' @ status_message 404 @ crlf) =
     Some (''HTTP/1.1'', 404, ''Not Found'')"
  "match_status_line (''HTTP/1.1 '' @ to_string_nat 500 @ '' '' @ status_message 500 @ crlf) =
     Some (''HTTP/1.1'', 500, ''Internal Server Error'')"
  "LF \<notin> set (''HTTP/1.1 '' @ to_string_nat 200 @ '' '' @ status_message 200)"
  "LF \<notin> set (''HTTP/1.1 '' @ to_string_nat 404 @ '' '' @ status_message 404)"
  "LF \<notin> set (''HTTP/1.1 '' @ to_string_nat 500 @ '' '' @ status_message 500)"
  by code_simp+

lemma read_response_line_written:
  assumes "st \<in> {200, 404, 500}"
  shows "\<exists>reason. read_response_line (''HTTP/1.1 '' @ to_string_nat st @ '' '' @ status_message st @ crlf @ s, e) =
    (Some (''HTTP/1.1'', st, reason), (s, e))"
proof -
  let ?line = "''HTTP/1.1 '' @ to_string_nat st @ '' '' @ status_message st"
  obtain reason where m: "match_status_line (?line @ crlf) = Some (''HTTP/1.1'', st, reason)" and "LF \<notin> set ?line"
    using assms status_lines by auto
  then have "getline (?line @ crlf @ s, e) = Some (?line @ crlf, (s, e))" by (intro getline_crlf)
  then have "read_response_line (?line @ crlf @ s, e) = read_status (''HTTP/1.1'', st, reason) (s, e)"
    by (simp only: read_response_line_def option.case prod.case m)
  also have "\<dots> = (Some (''HTTP/1.1'', st, reason), (s, e))" using assms by (subst read_status.simps) auto
  finally show ?thesis by auto
qed

lemma answer_headers_read:
  assumes "extra_ok extra"
  shows "\<exists>extra'. fold (\<lambda>kv. parse_header (header_line kv)) (answer_headers n extra) [] = answer_headers n extra' \<and>
    (\<forall>kv\<in>set extra'. fst kv \<in> {''Content-Type'', ''EXCEPTION_WHAT''})"
proof (cases extra)
  case Nil
  then show ?thesis
    by (intro exI [of _ "[]"]) (simp add: answer_headers_def parse_header_written header_compare)
next
  case (Cons kv rest)
  with assms obtain k v where k: "extra = [(k, v)]" "k \<in> {''Content-Type'', ''EXCEPTION_WHAT''}"
    by (auto simp: extra_ok_def)
  let ?front = "answer_headers n []"
  have front: "fold (\<lambda>kv. parse_header (header_line kv)) ?front [] = ?front"
    by (simp add: answer_headers_def parse_header_written header_compare)
  have "CHR '':'' \<notin> set k" "c_str k = k" using k(2) by auto
  with parse_header_any [of k "c_str v" ?front]
  consider "parse_header (header_line (k, v)) ?front = ?front"
    | v' where "parse_header (header_line (k, v)) ?front = emplace_header k v' ?front"
    by (auto simp: header_line_def)
  moreover have "emplace_header k v' ?front = answer_headers n [(k, v')]" for v'
    using k(2) by (auto simp: answer_headers_def header_compare)
  moreover have "fold (\<lambda>kv. parse_header (header_line kv)) (answer_headers n extra) [] =
      parse_header (header_line (k, v)) ?front"
    using front by (simp add: k(1) answer_headers_def)
  ultimately show ?thesis using k(2)
    by cases (auto intro: exI [of _ "[]"] exI [of _ "[(k, _)]"])
qed

lemma answer_lines_ok:
  assumes "n < 2 ^ 64" and "extra_ok extra"
  shows "\<forall>kv\<in>set (answer_headers n extra). line_ok kv"
  using assms wire_lines_ok [OF assms(1), of "[]" Post] by (auto simp: answer_headers_def wire_headers_def extra_ok_def)

lemma receive_answer:
  assumes st: "status resp \<in> {200, 404, 500}" and n: "length (body resp) < 2 ^ 64" and extra: "extra_ok extra"
  shows "receive_response (answer_bytes resp extra, Closed) = Some resp"
proof -
  let ?n = "length (body resp)"
  obtain reason where line: "read_response_line (answer_bytes resp extra, Closed) =
      (Some (''HTTP/1.1'', status resp, reason), (write_headers (answer_headers ?n extra) @ body resp, Closed))"
    using read_response_line_written [OF st] by (auto simp: answer_bytes_def)
  obtain extra' where extra': "\<forall>kv\<in>set extra'. fst kv \<in> {''Content-Type'', ''EXCEPTION_WHAT''}"
      "read_headers [] (write_headers (answer_headers ?n extra) @ body resp, Closed) =
       ((True, answer_headers ?n extra'), (body resp, Closed))"
    using answer_headers_read [OF extra, of ?n] read_headers_written [OF answer_lines_ok [OF n extra], of "[]" "body resp" Closed]
    by auto
  have absent: "get_header_value hs k = []" if "\<forall>kv\<in>set hs. ci_key (fst kv) \<noteq> ci_key k" for hs k
    using that by (induction hs) auto
  have "get_header_value (answer_headers ?n extra') k = []" if "k \<in> {''Transfer-Encoding'', ''Content-Encoding''}" for k
    using that extra'(1) by (intro absent) (auto simp: answer_headers_def header_names)
  moreover have "has_header (answer_headers ?n extra') ''Content-Length''"
    "get_header_value (answer_headers ?n extra') ''Content-Length'' = to_string_nat ?n"
    using digits_clean(1) [OF to_string_nat_digits, of ?n] by (simp_all add: answer_headers_def header_names del: takeWhile_eq_all_conv)
  ultimately have "read_content (answer_headers ?n extra') (body resp, Closed) =
      ((None, body resp, answer_headers ?n extra'), ([], Closed))"
    using n by (simp add: read_content_def is_compressed_def is_chunked_transfer_encoding_def ci_key_def
        get_header_value_u64_def strtoull_to_string_nat read_content_with_length_def)
  with line extra'(2) st show ?thesis by (auto simp: receive_response_def)
qed

text \<open>The bytes of the three kinds of answers.\<close>

lemma response_headers_closing:
  assumes "get_header_value (sr_headers q) ''Connection'' = ''close''" and "sr_method q \<noteq> ''HEAD''"
  shows "response_headers b q (apply_ranges (set_content c ''text/plain'' new_response)) =
      answer_headers (length c) [(''Content-Type'', ''text/plain'')]"
    and "response_headers b q (new_response\<lparr>rp_headers := [(''EXCEPTION_WHAT'', w)], rp_status := st\<rparr>) =
      answer_headers 0 [(''EXCEPTION_WHAT'', w)]"
    and "response_headers b q (new_response\<lparr>rp_status := st\<rparr>) = answer_headers 0 []"
  using assms digits_clean(2) [OF to_string_nat_digits, of "length c"]
  by (cases c; simp add: response_headers_def apply_ranges_def set_content_def new_response_def answer_headers_def
      set_header_def plain_values header_compare header_names to_string_nat_0)+

lemma exception_line_ok:
  assumes "length w \<le> 1000"
  shows "line_ok (''EXCEPTION_WHAT'', escape_what w)"
proof -
  have "length (concat (map f s)) \<le> 2 * length s" if "\<And>c. length (f c) \<le> 2" for f :: "char \<Rightarrow> string" and s
  proof (induction s)
    case (Cons c s)
    with that [of c] show ?case by simp
  qed simp
  then have "length (escape_what w) \<le> 2 * length (c_str w)" by (simp add: escape_what_def)
  then have "length (escape_what w) \<le> 2000" using assms length_takeWhile_le [of "\<lambda>c. c \<noteq> CHR 0x00" w] by simp
  moreover have "header_line (''EXCEPTION_WHAT'', escape_what w) = ''EXCEPTION_WHAT: '' @ escape_what w"
    by (simp add: header_line_def escape_what_clean(3))
  ultimately show ?thesis by (simp add: line_ok_def HEADER_MAX_LENGTH_def escape_what_clean)
qed

lemma answer_is_answer_bytes:
  assumes "answers r resp" and "get_header_value (sr_headers q) ''Connection'' = ''close''" and "sr_method q \<noteq> ''HEAD''"
  shows "\<exists>extra. answer b q r = answer_bytes resp extra \<and> extra_ok extra \<and> status resp \<in> {200, 404, 500}"
  using assms(1)
proof cases
  case (content c)
  have "line_ok (''Content-Type'', ''text/plain'')" by (simp add: line_ok_def header_line_def HEADER_MAX_LENGTH_def)
  moreover have "apply_ranges (set_content c ''text/plain'' new_response\<lparr>rp_status := Some 200\<rparr>) =
      (apply_ranges (set_content c ''text/plain'' new_response))\<lparr>rp_status := Some 200\<rparr>"
    "rp_status (set_content c ''text/plain'' new_response) = None"
    "rp_body (apply_ranges (set_content c ''text/plain'' new_response)) = c"
    by (simp_all add: apply_ranges_def set_content_def new_response_def)
  moreover have "response_headers b q (res\<lparr>rp_status := st\<rparr>) = response_headers b q res" for res st
    by (simp add: response_headers_def)
  ultimately show ?thesis
    using content assms(3) response_headers_closing(1) [OF assms(2,3), of b c]
    by (intro exI [of _ "[(''Content-Type'', ''text/plain'')]"])
      (simp add: answer_def write_response_core_def answer_bytes_def extra_ok_def Let_def)
next
  case (exception w)
  then show ?thesis
    using assms(3) response_headers_closing(2) [OF assms(2,3), where w = "escape_what w" and st = "Some 500"] exception_line_ok [of w]
    by (intro exI [of _ "[(''EXCEPTION_WHAT'', escape_what w)]"])
      (simp add: answer_def write_response_core_def answer_bytes_def extra_ok_def Let_def new_response_def)
next
  case unknown
  then show ?thesis
    using assms(3) response_headers_closing(3) [OF assms(2,3), where st = "Some 404"]
    by (intro exI [of _ "[]"])
      (simp add: answer_def write_response_core_def answer_bytes_def extra_ok_def Let_def new_response_def)
qed

section \<open>The calls of a node over any faithful transport\<close>

text \<open>
  What a node needs of the way to the DBMS: on the requests it admits, it is the abstract transport.
  Then every call is the operation of the log manager that it stands for.
\<close>

locale faithful_transport =
  fixes call :: "http_request \<Rightarrow> log_store \<Rightarrow> http_response option \<times> log_store"
    and admits :: "http_request \<Rightarrow> log_store \<Rightarrow> bool"
  assumes call_admitted: "admits req logs \<Longrightarrow> call req logs = dbms_transport req logs"
begin

lemma db_call_manager:
  assumes "admits (db_request op) logs" and "CHR ''/'' \<notin> set (op_host op)"
  shows "db_call call op logs = (case manager_op op logs of (r, logs') \<Rightarrow> (Inr (body (http_result r)), logs'))"
proof -
  have "db_call call op logs = dbms_call op logs"
    using call_admitted [OF assms(1)] by (simp add: dbms_call_def db_call_def)
  then show ?thesis by (simp only: dbms_call_manager [OF assms(2)])
qed

end

section \<open>The exchange\<close>

lemma serve_one_request:
  assumes "request_ok h port req" and "socket < FD_SETSIZE" and "host_only host"
    and "receive_request socket (request_head h port req @ s, e) = (Received (read_request req host), (s, e))"
    and "routing std_what (add_addresses ep (read_request req host)) (s, e) logs = (r, strm, logs')"
  shows "serve_connection std_what socket ep ahead (request_head h port req @ s, e) logs =
    Some (answer False (add_addresses ep (read_request req host)) r, logs')"
proof -
  let ?q = "add_addresses ep (read_request req host)"
  have headers: "get_header_value (sr_headers ?q) ''Expect'' = []" "\<not> has_header (sr_headers ?q) ''Range''"
    "get_header_value (sr_headers ?q) ''Content-Type'' \<in> {[], ''text/plain''}"
    "get_header_value (sr_headers (read_request req host)) ''Connection'' = ''close''"
    using assms(3) by (simp_all add: address_keys read_request_def wire_headers_lookup)
  then have "in_model ?q" "continue_line ?q = []" "asks_to_close (read_request req host)"
    by (auto simp: in_model_def is_multipart_form_data_def continue_line_def asks_to_close_def)
  moreover have "keep_alive (request_head h port req @ s, e)"
    by (cases "hr_method req") (simp_all add: keep_alive_def request_head_def)
  ultimately show ?thesis
    using assms(4,5)
    by (simp add: serve_connection_def KEEPALIVE_MAX_COUNT_def eval_nat_numeral process_request_def Let_def)
qed

lemma http_transport_exact:
  assumes "request_ok h port req" and "socket < FD_SETSIZE" and "short_what std_what"
    and "length (body (fst (dbms_server req logs))) < 2 ^ 64"
  shows "http_transport std_what socket ep ahead h port req logs = Some (dbms_transport req logs)"
proof -
  obtain host where host: "host_only host"
      "receive_request socket (request_head h port req @ hr_body req, Silent) = (Received (read_request req host), (hr_body req, Silent))"
    using receive_request_written [OF assms(1,2)] by blast
  let ?q = "add_addresses ep (read_request req host)"
  obtain r strm logs' where r: "routing std_what ?q (hr_body req, Silent) logs = (r, strm, logs')"
    by (rule prod_cases3)
  have reply: "serve_connection std_what socket ep ahead (write_request h port req, Silent) logs = Some (answer False ?q r, logs')"
    unfolding write_request_def by (rule serve_one_request [OF assms(1,2) host r])
  have answers: "answers r (fst (dbms_server req logs))" "logs' = snd (dbms_server req logs)"
    using routing_answers [OF assms(1) host(1) assms(3) r] by simp_all
  have "get_header_value (sr_headers ?q) ''Connection'' = ''close''" "sr_method ?q \<noteq> ''HEAD''"
    using host(1) by (simp_all add: address_keys read_request_def wire_headers_lookup)
      (cases "hr_method req"; simp add: add_addresses_def)
  from answer_is_answer_bytes [OF answers(1) this]
  obtain extra where extra: "answer False ?q r = answer_bytes (fst (dbms_server req logs)) extra" "extra_ok extra"
      "status (fst (dbms_server req logs)) \<in> {200, 404, 500}" by blast
  have "receive_response (answer False ?q r, Closed) = Some (fst (dbms_server req logs))"
    unfolding extra(1) by (rule receive_answer [OF extra(3) assms(4) extra(2)])
  with reply answers(2) show ?thesis by (simp add: http_transport_def dbms_transport_def case_prod_beta)
qed

text \<open>The transport over bytes is one.\<close>

definition http_call ::
  "(cxx_error \<Rightarrow> string) \<Rightarrow> nat \<Rightarrow> endpoints \<Rightarrow> (nat \<Rightarrow> nat) \<Rightarrow> string \<Rightarrow> int \<Rightarrow> http_request \<Rightarrow> log_store \<Rightarrow>
   http_response option \<times> log_store" where
  "http_call std_what socket ep ahead h port req logs =
     (case http_transport std_what socket ep ahead h port req logs of None \<Rightarrow> (None, logs) | Some r \<Rightarrow> r)"

definition http_admits :: "(cxx_error \<Rightarrow> string) \<Rightarrow> nat \<Rightarrow> string \<Rightarrow> int \<Rightarrow> http_request \<Rightarrow> log_store \<Rightarrow> bool" where
  "http_admits std_what socket h port req logs \<longleftrightarrow>
     request_ok h port req \<and> socket < FD_SETSIZE \<and> short_what std_what \<and>
     length (body (fst (dbms_server req logs))) < 2 ^ 64"

interpretation http: faithful_transport "http_call std_what socket ep ahead h port" "http_admits std_what socket h port"
  for std_what socket ep ahead h port
  by unfold_locales (simp add: http_call_def http_admits_def http_transport_exact)

text \<open>
  C14: over bytes the DBMS behaves as the transport that the rest of the development works with. For
  every request whose path has no character with a meaning in a URL and whose lines are within the
  limits of the library, the client's bytes are read by the server as that request, the handlers of the
  DBMS run once on it, and the client reads the answer as the same status and body.
\<close>

theorem http_transport_refines:
  assumes "request_ok h port req" and "socket < FD_SETSIZE" and "short_what std_what"
    and "length (body (fst (dbms_server req logs))) < 2 ^ 64"
  shows "http_transport std_what socket ep ahead h port req logs = Some (dbms_transport req logs)"
  by (rule http_transport_exact [OF assms])

text \<open>A connection on which the witnesses run.\<close>

definition sample_endpoints :: endpoints where
  "sample_endpoints =
     \<lparr>ep_remote_addr = ''127.0.0.1'', ep_remote_port = 50000, ep_local_addr = ''127.0.0.1'', ep_local_port = 7000\<rparr>"

definition sample_read :: http_request where
  "sample_read = db_request (LOG_READ 65536 ''localhost:8002'' TRANSACTION)"

definition sample_write :: http_request where
  "sample_write = db_request (LOG_WRITE ''abcdef'' 65536 ''localhost:8002'' DATA)"

lemma sample_requests_ok: "request_ok ''localhost'' 7000 sample_read" "request_ok ''localhost'' 7000 sample_write"
  by code_simp+

theorem http_transport_refines_witness:
  "http_transport (\<lambda>e. []) 5 sample_endpoints (\<lambda>_. 0) ''localhost'' 7000 sample_read Map.empty =
    Some (dbms_transport sample_read Map.empty) \<and>
   fst (dbms_transport sample_read Map.empty) = Some \<lparr>status = 200, body = ''WORKING''\<rparr>"
proof -
  have response: "fst (dbms_server sample_read Map.empty) = \<lparr>status = 200, body = ''WORKING''\<rparr>" by code_simp
  then have "length (body (fst (dbms_server sample_read Map.empty))) < 2 ^ 64" by simp
  from http_transport_refines [OF sample_requests_ok(1) _ _ this, of 5 "\<lambda>e. []" sample_endpoints "\<lambda>_. 0"] response
  show ?thesis by (simp add: FD_SETSIZE_def short_what_def dbms_transport_def case_prod_beta)
qed

text \<open>
  C37: a body that is cut off is logged. When the connection of a client ends after a part of the body,
  the handler of the DBMS does not notice that the body could not be read and logs the part it has.
\<close>

theorem truncated_body_logged:
  assumes "request_ok h port req" and "socket < FD_SETSIZE" and "hr_method req = Post"
    and "k < length (hr_body req)"
  shows "\<exists>out. serve_connection std_what socket ep ahead (request_head h port req @ take k (hr_body req), e) logs =
    Some (out, snd (dbms_server (req\<lparr>hr_body := take k (hr_body req)\<rparr>) logs))"
proof -
  let ?s = "take k (hr_body req)"
  obtain host where host: "host_only host"
      "receive_request socket (request_head h port req @ ?s, e) = (Received (read_request req host), (?s, e))"
    using receive_request_written [OF assms(1,2)] by blast
  let ?q = "add_addresses ep (read_request req host)"
  obtain r strm logs' where r: "routing std_what ?q (?s, e) logs = (r, strm, logs')" by (rule prod_cases3)
  have q: "sr_method ?q = ''POST''" "sr_path ?q = hr_path req"
    using assms(3) by (simp_all add: add_addresses_def read_request_def)
  have "length (hr_body req) < 2 ^ 64" using assms(1) by (simp add: request_ok_def)
  from read_content_written(2) [OF host(1) assms(3) this refl, of ?s] assms(4)
  have content: "read_content (sr_headers ?q) (?s, e) = ((Some 400, ?s, sr_headers ?q), ([], e))" by simp
  then have "read_request_body ?q (?s, e) = (Some 400, ([], e))" by (simp add: read_request_body_def q)
  with r have "logs' = snd (dbms_server (req\<lparr>hr_body := ?s\<rparr>) logs)"
    by (auto simp: routing_def Let_def q content handle_with_body_def dbms_server_def assms(3)
        handle_LOG_WRITE_def handle_LOG_ONCE_def log_result_route split: option.splits prod.splits)
  with serve_one_request [OF assms(1,2) host r] show ?thesis by blast
qed

theorem truncated_body_logged_witness:
  "\<exists>out logs. serve_connection (\<lambda>e. []) 5 sample_endpoints (\<lambda>_. 0)
     (request_head ''localhost'' 7000 sample_write @ ''abc'', Closed) Map.empty = Some (out, logs) \<and>
   dataLog (the (the (logs 65536) ''localhost:8002'')) = ''abc''"
proof -
  have "hr_method sample_write = Post" "hr_body sample_write = ''abcdef''" by (simp_all add: sample_write_def)
  with truncated_body_logged [OF sample_requests_ok(2), of 5 3 "\<lambda>e. []" sample_endpoints "\<lambda>_. 0" Closed Map.empty]
  have "\<exists>out. serve_connection (\<lambda>e. []) 5 sample_endpoints (\<lambda>_. 0)
     (request_head ''localhost'' 7000 sample_write @ ''abc'', Closed) Map.empty =
     Some (out, snd (dbms_server (sample_write\<lparr>hr_body := ''abc''\<rparr>) Map.empty))"
    by (simp add: FD_SETSIZE_def)
  moreover have "dataLog (the (the (snd (dbms_server (sample_write\<lparr>hr_body := ''abc''\<rparr>) Map.empty) 65536) ''localhost:8002'')) = ''abc''"
    by code_simp
  ultimately show ?thesis by blast
qed

end
