(* ===== verification/Client_Front.thy ===== *)
theory Client_Front
  imports Http_Exchange Cornus_Runs
begin

text \<open>
  The HTTP server of a node, through which clients start transactions: the handler of \<open>/TRANSACTION\<close>
  that \<open>GlobalMessageHandler\<close> registers, on the bundled HTTP library. A client sends the text of a
  configuration as a form; the answer is the decision of the coordinator that is created for it. While
  the coordinator runs, the connection waits; the steps of a connection are interleaved with those of
  the rest of the system, of which they are client requests.
\<close>

section \<open>Reading a form\<close>

text \<open>\<open>Server::read_content\<close>: the body is read into the request, and the fields of a form too.\<close>

definition read_form_body :: "server_request \<Rightarrow> stream \<Rightarrow> (nat option \<times> server_request) \<times> stream" where
  "read_form_body req strm =
     (case read_content (sr_headers req) strm of
        ((failure, content, hs), strm') \<Rightarrow>
          (let req' = req\<lparr>sr_headers := hs\<rparr>
           in if failure \<noteq> None then ((failure, req'), strm')
              else if is_form_urlencoded hs then
                (if FORM_URL_ENCODED_PAYLOAD_MAX_LENGTH < length content then ((Some 413, req'), strm')
                 else ((None, req'\<lparr>sr_params := parse_query_text content (sr_params req')\<rparr>), strm'))
              else ((None, req'), strm')))"

definition get_param_value :: "string \<Rightarrow> (string \<times> string) list \<Rightarrow> string" where
  "get_param_value k params = (case List.find (\<lambda>kv. fst kv = k) params of None \<Rightarrow> [] | Some (_, v) \<Rightarrow> v)"

section \<open>Routing\<close>

text \<open>
  The only handler is that of \<open>POST\<close> with the path \<open>/TRANSACTION\<close>; its pattern has no special
  characters. A \<open>DELETE\<close> without a length is read like one without a body.
\<close>

datatype client_route =
    Coordinate string            \<comment> \<open>the handler, with the configuration\<close>
  | Unrouted server_response

definition client_routing :: "server_request \<Rightarrow> stream \<Rightarrow> client_route \<times> server_request \<times> stream" where
  "client_routing req strm =
     (let m = sr_method req; unrouted = (\<lambda>st. Unrouted (new_response\<lparr>rp_status := st\<rparr>))
      in if m = ''GET'' \<or> m = ''HEAD'' then (unrouted None, req, strm)
         else if m \<in> {''POST'', ''PUT'', ''PATCH'', ''PRI'', ''DELETE''} then
           (case (if m = ''DELETE'' \<and> \<not> has_header (sr_headers req) ''Content-Length'' then ((None, req), strm)
                  else read_form_body req strm) of
              ((Some st, req'), strm') \<Rightarrow> (unrouted (Some st), req', strm')
            | ((None, req'), strm') \<Rightarrow>
                if m = ''POST'' \<and> sr_path req' = ''/TRANSACTION'' then
                  (Coordinate (get_param_value ''config'' (sr_params req')), req', strm')
                else (unrouted (if m = ''PRI'' then Some 400 else None), req', strm'))
         else (unrouted (if m = ''OPTIONS'' then None else Some 400), req, strm))"

section \<open>A connection of a client\<close>

text \<open>
  Between its steps a connection reads the next request, or waits for the decision of a transaction;
  then it keeps the request, whether it is the last one that the server answers, and whether the
  client asked to close.
\<close>

datatype front_phase =
    Reading
  | Coordinating transaction_id server_request bool bool
  | Finished

record front =
  fr_phase :: front_phase
  fr_left :: nat                 \<comment> \<open>how many requests the server still answers\<close>
  fr_stream :: stream
  fr_out :: string

definition open_front :: "stream \<Rightarrow> front" where
  "open_front strm = \<lparr>fr_phase = Reading, fr_left = KEEPALIVE_MAX_COUNT, fr_stream = strm, fr_out = []\<rparr>"

text \<open>
  After an answer the next request is read, unless the client asked to close. The bytes that the stream
  of the answered request has read ahead are lost, \<open>ahead\<close> of them.
\<close>

definition front_answer :: "nat \<Rightarrow> bool \<Rightarrow> string \<Rightarrow> front \<Rightarrow> front" where
  "front_answer ahead closed reply fr =
     fr\<lparr>fr_phase := (if closed then Finished else Reading), fr_left := fr_left fr - 1,
        fr_stream := next_stream ahead (fr_stream fr), fr_out := fr_out fr @ reply\<rparr>"

text \<open>
  A request is read up to the start of the coordinator. The result is \<open>None\<close> for requests outside the
  model of the library.
\<close>

definition front_read ::
  "version \<Rightarrow> (cxx_error \<Rightarrow> string) \<Rightarrow> nat \<Rightarrow> endpoints \<Rightarrow> nat \<Rightarrow> front \<Rightarrow> node \<Rightarrow> handler_object list \<Rightarrow>
   (front \<times> node \<times> handler_object list) option" where
  "front_read ver std_what socket ep ahead fr nd hp =
     (if fr_left fr = 0 \<or> \<not> keep_alive (fr_stream fr) then Some (fr\<lparr>fr_phase := Finished\<rparr>, nd, hp)
      else
        (let close_connection = (fr_left fr = 1)
         in case receive_request socket (fr_stream fr) of
              (No_request, strm) \<Rightarrow> Some (fr\<lparr>fr_phase := Finished, fr_stream := strm\<rparr>, nd, hp)
            | (Rejected st req, strm) \<Rightarrow>
                Some (front_answer ahead False
                  (write_response_core False close_connection req (new_response\<lparr>rp_status := Some st\<rparr>))
                  (fr\<lparr>fr_stream := strm\<rparr>), nd, hp)
            | (Received req0, strm) \<Rightarrow>
                (let req = add_addresses ep req0; closed = asks_to_close req0
                 in if \<not> in_model req then None
                    else
                      (case client_routing req strm of
                         (Unrouted res, req', strm') \<Rightarrow>
                           Some (front_answer ahead closed (continue_line req @ answer close_connection req' (False, res))
                             (fr\<lparr>fr_stream := strm'\<rparr>), nd, hp)
                       | (Coordinate cfg, req', strm') \<Rightarrow>
                           (case onClientRequest ver cfg nd hp of
                              Inl e \<Rightarrow>
                                Some (front_answer ahead closed
                                  (continue_line req @ answer close_connection req' (respond std_what (Inl e) new_response))
                                  (fr\<lparr>fr_stream := strm'\<rparr>), nd, hp)
                            | Inr (nd', hp') \<Rightarrow>
                                Some (fr\<lparr>fr_phase := Coordinating (fst (getUniqueTransactionId nd)) req' close_connection closed,
                                         fr_stream := strm', fr_out := fr_out fr @ continue_line req\<rparr>,
                                      nd', hp'))))))"

text \<open>
  The end of \<open>handleTransaction\<close>: the decision is the answer and the node forgets the coordinator. An
  exception passes by the removal and is answered by the library.
\<close>

definition front_decided ::
  "(cxx_error \<Rightarrow> string) \<Rightarrow> nat \<Rightarrow> decision result \<Rightarrow> front \<Rightarrow> node \<Rightarrow> front \<times> node" where
  "front_decided std_what ahead r fr nd =
     (case fr_phase fr of
        Coordinating t req close_connection closed \<Rightarrow>
          (front_answer ahead closed (answer close_connection req (respond std_what r new_response)) fr,
           case r of Inr d \<Rightarrow> removeFromMap t Handlers nd | Inl e \<Rightarrow> nd)
      | _ \<Rightarrow> (fr, nd))"

section \<open>The connections are clients of the system\<close>

lemma client_routing_post: "client_routing req strm = (Coordinate cfg, req', strm') \<Longrightarrow> sr_method req' = ''POST''"
  by (auto simp: client_routing_def Let_def read_form_body_def split: if_splits prod.splits option.splits)

lemma front_read_cases:
  assumes "front_read ver std_what socket ep ahead fr nd hp = Some (fr', nd', hp')"
  shows "nd' = nd \<and> hp' = hp \<and> fr_phase fr' \<in> {Reading, Finished} \<or>
    (\<exists>cfg req c cl. onClientRequest ver cfg nd hp = Inr (nd', hp') \<and>
      fr_phase fr' = Coordinating (fst (getUniqueTransactionId nd)) req c cl \<and> sr_method req = ''POST'')"
  using assms
  by (auto simp: front_read_def front_answer_def Let_def split: if_splits received.splits prod.splits
      client_route.splits sum.splits) (auto dest: client_routing_post)

lemma front_read_step:
  assumes "front_read ver std_what socket ep ahead fr nd (heap s) = Some (fr', nd', heap')" and "nodes s h = Some nd"
  shows "s\<lparr>nodes := (nodes s)(h \<mapsto> nd'), heap := heap'\<rparr> = s \<or>
    cornus_step ver s (s\<lparr>nodes := (nodes s)(h \<mapsto> nd'), heap := heap'\<rparr>)"
  using front_read_cases [OF assms(1)]
proof (elim disjE exE conjE)
  assume "nd' = nd" "heap' = heap s"
  then show ?thesis using assms(2) by (simp add: fun_upd_idem)
qed (auto intro: cornus_step.client_request [OF assms(2)])

section \<open>Reading a form that was written\<close>

text \<open>
  The form encoding of a text: a byte may stand for itself unless it has a meaning, a blank may be a
  plus sign, and any byte may be given by its two hexadecimal digits.
\<close>

inductive form_text :: "string \<Rightarrow> string \<Rightarrow> bool" where
  form_end: "form_text [] []"
| form_plain: "form_text s w \<Longrightarrow> c \<notin> {CHR ''%'', CHR ''+'', CHR ''&'', CHR ''='', CHR '' '', CHR 0x09} \<Longrightarrow>
    form_text (c # s) (c # w)"
| form_blank: "form_text s w \<Longrightarrow> form_text (CHR '' '' # s) (CHR ''+'' # w)"
| form_escape: "form_text s w \<Longrightarrow> is_hex h = Some a \<Longrightarrow> is_hex l = Some b \<Longrightarrow>
    form_text (char_of (16 * a + b) # s) (CHR ''%'' # h # l # w)"

lemma is_hex_not: "is_hex CHR ''u'' = None" "is_hex CHR ''&'' = None" "is_hex CHR ''='' = None"
  "is_hex CHR '' '' = None" "is_hex CHR 0x09 = None"
  by (simp_all add: is_hex_def is_digit_def)

lemma form_text_decode: "form_text s w \<Longrightarrow> decode_url w True = s"
proof (induction rule: form_text.induct)
  case (form_escape s w h a l b)
  then have "h \<noteq> CHR ''u''" using is_hex_not(1) by auto
  with form_escape show ?case by (simp add: decode_url.simps(2) mult.commute)
qed (auto simp: decode_url.simps(2))

lemma form_text_chars: "form_text s w \<Longrightarrow> c \<in> set w \<Longrightarrow> c \<notin> {CHR ''&'', CHR ''='', CHR '' '', CHR 0x09}"
  by (induction arbitrary: c rule: form_text.induct) (auto simp: is_hex_not)

lemma trim_plain: "\<forall>c\<in>set w. \<not> is_space_or_tab c \<Longrightarrow> trim w = w"
proof -
  have d: "\<forall>c\<in>set u. \<not> is_space_or_tab c \<Longrightarrow> dropWhile is_space_or_tab u = u" for u by (cases u) auto
  assume "\<forall>c\<in>set w. \<not> is_space_or_tab c"
  then show ?thesis using d [of w] d [of "rev w"] by (simp add: trim_def)
qed

lemma parse_form_field:
  assumes "form_text s w" and "k \<noteq> []" and "\<forall>c\<in>set k. c \<notin> {CHR ''%'', CHR ''+'', CHR ''&'', CHR ''='', CHR '' '', CHR 0x09}"
  shows "parse_query_text (k @ ''='' @ w) [] = [(k, s)]"
proof -
  have blank: "\<forall>c\<in>set (k @ ''='' @ w). \<not> is_space_or_tab c" "CHR ''&'' \<notin> set (k @ ''='' @ w)"
    "CHR ''='' \<notin> set k" "CHR ''='' \<notin> set w" "\<forall>c\<in>set k. \<not> is_space_or_tab c" "\<forall>c\<in>set w. \<not> is_space_or_tab c"
    using form_text_chars [OF assms(1)] assms(3) by (auto simp: is_space_or_tab_def)
  have "split_on (CHR ''&'') (k @ ''='' @ w) = [k @ ''='' @ w]"
    using trim_plain [OF blank(1)] pieces_last [OF blank(2), of "[]"] by (simp add: split_on_def)
  moreover have "pieces (CHR ''='') [] (k @ CHR ''='' # w) = [k, w]"
    by (simp add: pieces_word [OF blank(3)] pieces_last [OF blank(4)])
  then have "parse_pair (k @ ''='' @ w) = (k, w)"
    using assms(2) trim_plain [OF blank(5)] trim_plain [OF blank(6)] by (auto simp: parse_pair_def split_on_def)
  moreover have "decode_url k True = k" using assms(3)
    by (induction k) (auto simp: decode_url.simps(2))
  ultimately show ?thesis using assms(2) form_text_decode [OF assms(1)] by (simp add: parse_query_text_def)
qed

section \<open>Reading headers that were written\<close>

text \<open>Headers that are read as they were written, whatever they are about.\<close>

definition plain_header :: "string \<times> string \<Rightarrow> bool" where
  "plain_header kv \<longleftrightarrow>
     (case kv of (k, v) \<Rightarrow>
        set k \<inter> {CHR '':'', CHR 0x00, LF} = {} \<and> ci_key k \<noteq> ci_key ''Location'' \<and>
        set v \<inter> {CHR ''%'', CHR 0x00, LF} = {} \<and> v \<noteq> [] \<and>
        \<not> is_space_or_tab (hd v) \<and> \<not> is_space_or_tab (last v) \<and> length k + length v + 4 \<le> HEADER_MAX_LENGTH)"

definition plain_headers :: "headers \<Rightarrow> bool" where
  "plain_headers hs \<longleftrightarrow> list_all plain_header hs \<and> distinct (map (\<lambda>kv. ci_key (fst kv)) hs)"

definition header_map :: "headers \<Rightarrow> headers" where
  "header_map hs = fold (\<lambda>kv. emplace_header (fst kv) (snd kv)) hs []"

lemma c_str_plain: "CHR 0x00 \<notin> set s \<Longrightarrow> c_str s = s"
  by (auto simp: takeWhile_eq_all_conv)

lemma plain_header_line:
  assumes "plain_header kv"
  shows "header_line kv = fst kv @ '': '' @ snd kv" "line_ok kv"
proof -
  have "CHR 0x00 \<notin> set (fst kv)" "CHR 0x00 \<notin> set (snd kv)" using assms by (auto simp: plain_header_def)
  from this [THEN c_str_plain] show line: "header_line kv = fst kv @ '': '' @ snd kv" by (simp only: header_line_def)
  show "line_ok kv" using assms by (auto simp: line_ok_def line plain_header_def)
qed

lemma parse_plain_header:
  assumes "plain_header kv"
  shows "parse_header (header_line kv) hs = emplace_header (fst kv) (snd kv) hs"
proof -
  have "decode_url (snd kv) False = snd kv" using assms by (intro decode_url_no_percent) (auto simp: plain_header_def)
  with assms plain_header_line(1) [OF assms] parse_header_value [of "fst kv" "snd kv" hs]
  show ?thesis by (auto simp: plain_header_def split: prod.splits)
qed

lemma read_plain_headers:
  assumes "plain_headers hs"
  shows "read_headers [] (write_headers hs @ s, e) = ((True, header_map hs), (s, e))"
proof -
  have all: "\<forall>kv\<in>set hs. plain_header kv" using assms by (simp add: plain_headers_def list_all_iff)
  then have "fold (\<lambda>kv. parse_header (header_line kv)) hs [] = header_map hs"
    unfolding header_map_def by (intro fold_cong refl ext) (simp add: parse_plain_header)
  moreover have "\<forall>kv\<in>set hs. line_ok kv" using all plain_header_line(2) by blast
  ultimately show ?thesis by (simp add: read_headers_written)
qed

lemma get_emplaced_header:
  "\<not> has_header hs k' \<Longrightarrow> get_header_value (emplace_header k' v hs) k =
     (if ci_key k' = ci_key k then c_str v else get_header_value hs k)"
  by (induction k' v hs rule: emplace_header.induct) auto

lemma fold_emplace_lookup:
  assumes "distinct (map (\<lambda>kv. ci_key (fst kv)) hs)" and "\<forall>kv\<in>set hs. \<not> has_header acc (fst kv)"
  shows "get_header_value (fold (\<lambda>kv. emplace_header (fst kv) (snd kv)) hs acc) k =
      (if has_header hs k then get_header_value hs k else get_header_value acc k) \<and>
    (has_header (fold (\<lambda>kv. emplace_header (fst kv) (snd kv)) hs acc) k \<longleftrightarrow> has_header hs k \<or> has_header acc k)"
  using assms
proof (induction hs arbitrary: acc)
  case (Cons kv hs)
  obtain k' v where kv: "kv = (k', v)" by fastforce
  have fresh: "\<not> has_header hs k'" using Cons.prems(1) by (force simp: kv has_header_def image_iff)
  then have "\<forall>kv\<in>set hs. ci_key k' \<noteq> ci_key (fst kv)" by (metis has_header_def)
  with Cons.prems fresh
  have absent: "\<forall>kv\<in>set hs. \<not> has_header (emplace_header k' v acc) (fst kv)" "\<not> has_header acc k'"
    "\<not> has_header hs k'" "distinct (map (\<lambda>kv. ci_key (fst kv)) hs)"
    by (simp_all add: kv)
  have "ci_key k' = ci_key k \<Longrightarrow> \<not> has_header hs k" using absent(3) by (simp add: has_header_def)
  with Cons.IH [OF absent(4,1)] absent(2) show ?case by (auto simp: kv get_emplaced_header)
qed simp

lemma get_header_value_absent: "\<not> has_header hs k \<Longrightarrow> get_header_value hs k = []"
  by (induction hs) auto

lemma header_map_lookup:
  assumes "plain_headers hs"
  shows "get_header_value (header_map hs) k = get_header_value hs k" "has_header (header_map hs) k \<longleftrightarrow> has_header hs k"
  using assms fold_emplace_lookup [of hs "[]" k] get_header_value_absent [of hs k]
  by (simp_all add: plain_headers_def header_map_def)

section \<open>The request of a client\<close>

text \<open>The headers of a form of the given length, in any order and letter case, with any others.\<close>

definition form_headers :: "nat \<Rightarrow> headers \<Rightarrow> bool" where
  "form_headers n hs \<longleftrightarrow>
     plain_headers hs \<and> get_header_value hs ''Content-Length'' = to_string_nat n \<and> is_form_urlencoded hs \<and>
     (\<forall>k\<in>{''Transfer-Encoding'', ''Content-Encoding'', ''Range'', ''Expect''}. \<not> has_header hs k)"

definition client_post :: "headers \<Rightarrow> string \<Rightarrow> string" where
  "client_post hs form = ''POST /TRANSACTION HTTP/1.1'' @ crlf @ write_headers hs @ form"

definition client_request :: "headers \<Rightarrow> server_request" where
  "client_request hs =
     new_request\<lparr>sr_method := ''POST'', sr_target := ''/TRANSACTION'', sr_version := ''HTTP/1.1'',
       sr_path := ''/TRANSACTION'', sr_headers := header_map hs\<rparr>"

lemma transaction_line:
  "parse_request_line (''POST /TRANSACTION HTTP/1.1'' @ crlf) = (True, client_request hs\<lparr>sr_headers := []\<rparr>)"
proof -
  have u: "encode_url ''/TRANSACTION'' = ''/TRANSACTION''" "path_ok ''/TRANSACTION''" "''POST'' \<in> set http_methods"
    by code_simp+
  show ?thesis using parse_request_line_written [OF u(3,2)] by (simp add: u(1) client_request_def new_request_def)
qed

lemma receive_client_request:
  assumes "plain_headers hs" and "socket < FD_SETSIZE"
  shows "receive_request socket (client_post hs form @ s, e) = (Received (client_request hs), (form @ s, e))"
proof -
  let ?line = "''POST /TRANSACTION HTTP/1.1''"
  have "getline (client_post hs form @ s, e) = Some (?line @ crlf, (write_headers hs @ form @ s, e))"
    using getline_crlf [of ?line "write_headers hs @ form @ s" e] by (simp add: client_post_def)
  moreover have "length (?line @ crlf) \<le> REQUEST_URI_MAX_LENGTH" by (simp add: REQUEST_URI_MAX_LENGTH_def)
  moreover have "client_request hs\<lparr>sr_headers := header_map hs\<rparr> = client_request hs" by (simp add: client_request_def)
  ultimately show ?thesis
    using assms(2) read_plain_headers [OF assms(1), of "form @ s" e]
    by (simp only: receive_request_def transaction_line [of hs] option.case prod.case bool.case not_le not_less
        if_False) simp
qed

text \<open>The form gives the configuration, unless it is too long.\<close>


lemma form_headers_lookup:
  assumes "form_headers n hs" and "sr_headers q = sr_headers (add_addresses ep (client_request hs))"
  shows "get_header_value (sr_headers q) ''Content-Length'' = to_string_nat n"
    "has_header (sr_headers q) ''Content-Length''" "is_form_urlencoded (sr_headers q)"
    "get_header_value (sr_headers q) ''Transfer-Encoding'' = []"
    "get_header_value (sr_headers q) ''Content-Encoding'' = []"
    "get_header_value (sr_headers q) ''Expect'' = []" "\<not> has_header (sr_headers q) ''Range''"
proof -
  have plain: "plain_headers hs" using assms(1) by (simp add: form_headers_def)
  have "sr_headers (client_request hs) = header_map hs" by (simp add: client_request_def)
  note same = assms(2) address_keys [of _ ep "client_request hs"] this header_map_lookup [OF plain]
  have "has_header hs ''Content-Length''"
    using assms(1) get_header_value_absent [of hs "''Content-Length''"] to_string_nat_nonempty [of n]
    by (auto simp: form_headers_def)
  with assms(1) show "get_header_value (sr_headers q) ''Content-Length'' = to_string_nat n"
    "has_header (sr_headers q) ''Content-Length''" "is_form_urlencoded (sr_headers q)"
    "get_header_value (sr_headers q) ''Transfer-Encoding'' = []"
    "get_header_value (sr_headers q) ''Content-Encoding'' = []"
    "get_header_value (sr_headers q) ''Expect'' = []" "\<not> has_header (sr_headers q) ''Range''"
    by (simp_all add: same form_headers_def is_form_urlencoded_def get_header_value_absent)
qed

lemma read_form:
  assumes "form_headers (length form) hs" and "length form < 2 ^ 64"
    and "sr_headers q = sr_headers (add_addresses ep (client_request hs))"
  shows "read_form_body q (form @ s, e) =
    (if FORM_URL_ENCODED_PAYLOAD_MAX_LENGTH < length form then ((Some 413, q), (s, e))
     else ((None, q\<lparr>sr_params := parse_query_text form (sr_params q)\<rparr>), (s, e)))"
proof -
  note headers = form_headers_lookup [OF assms(1,3)]
  have "read_content (sr_headers q) (form @ s, e) = ((None, form, sr_headers q), (s, e))"
    using headers assms(2)
    by (simp add: read_content_def is_compressed_def is_chunked_transfer_encoding_def ci_key_def
        get_header_value_u64_def strtoull_to_string_nat read_content_with_length_def)
  then show ?thesis using headers(3) by (simp add: read_form_body_def)
qed

lemma client_routing_form:
  assumes "form_headers (length form) hs" and "length form < 2 ^ 64"
    and q: "q = add_addresses ep (client_request hs)"
  shows "FORM_URL_ENCODED_PAYLOAD_MAX_LENGTH < length form \<Longrightarrow>
      client_routing q (form @ s, e) = (Unrouted (new_response\<lparr>rp_status := Some 413\<rparr>), q, (s, e))"
    and "length form \<le> FORM_URL_ENCODED_PAYLOAD_MAX_LENGTH \<Longrightarrow> form = ''config='' @ w \<Longrightarrow> form_text cfg w \<Longrightarrow>
      client_routing q (form @ s, e) = (Coordinate cfg, q\<lparr>sr_params := [(''config'', cfg)]\<rparr>, (s, e))"
proof -
  have m: "sr_method q = ''POST''" "sr_path q = ''/TRANSACTION''" "sr_params q = []"
    by (simp_all add: q add_addresses_def client_request_def new_request_def)
  have "sr_headers q = sr_headers (add_addresses ep (client_request hs))" by (simp add: q)
  note body = read_form [OF assms(1,2) this, of s e]
  show "FORM_URL_ENCODED_PAYLOAD_MAX_LENGTH < length form \<Longrightarrow>
      client_routing q (form @ s, e) = (Unrouted (new_response\<lparr>rp_status := Some 413\<rparr>), q, (s, e))"
    using body by (simp add: client_routing_def m)
  assume "length form \<le> FORM_URL_ENCODED_PAYLOAD_MAX_LENGTH" "form = ''config='' @ w" "form_text cfg w"
  then have "parse_query_text form [] = [(''config'', cfg)]" using parse_form_field [of cfg w "''config''"] by simp
  with body \<open>length form \<le> _\<close>
  show "client_routing q (form @ s, e) = (Coordinate cfg, q\<lparr>sr_params := [(''config'', cfg)]\<rparr>, (s, e))"
    by (simp add: client_routing_def m get_param_value_def)
qed

section \<open>The answer\<close>

text \<open>The headers of the answers, with or without a content, on a connection that closes or not.\<close>

definition reply_headers :: "bool \<Rightarrow> bool \<Rightarrow> nat \<Rightarrow> headers" where
  "reply_headers closing typed n =
     (if closing then [(''Connection'', ''close'')] else []) @ [(''Content-Length'', to_string_nat n)] @
     (if typed then [(''Content-Type'', ''text/plain'')] else []) @
     (if closing then [] else [(''Keep-Alive'', keep_alive_value)])"

definition reply_bytes :: "bool \<Rightarrow> bool \<Rightarrow> http_response \<Rightarrow> string" where
  "reply_bytes closing typed resp =
     ''HTTP/1.1 '' @ to_string_nat (status resp) @ '' '' @ status_message (status resp) @ crlf @
     write_headers (reply_headers closing typed (length (body resp))) @ body resp"

lemma keep_alive_order:
  "ci_key ''Content-Length'' < ci_key ''Keep-Alive''" "ci_key ''Content-Type'' < ci_key ''Keep-Alive''"
  by code_simp+

lemmas reply_compare = header_compare keep_alive_order keep_alive_order [THEN less_not_sym]
  keep_alive_order [THEN less_imp_neq] keep_alive_order [THEN less_imp_neq, THEN not_sym]

lemma keep_alive_plain: "\<not> has_crlf keep_alive_value" "\<not> has_crlf ''Keep-Alive''"
  by (simp_all add: keep_alive_value_def has_crlf_def)

lemma plain_reply_headers:
  assumes "n < 2 ^ 64"
  shows "plain_headers (reply_headers closing typed n)"
proof -
  have digits: "list_all is_digit (to_string_nat n)" "to_string_nat n \<noteq> []" "length (to_string_nat n) \<le> 65"
    using to_string_nat_digits to_string_nat_length [OF assms] to_string_nat_nonempty by blast+
  have "c \<in> set (to_string_nat n) \<Longrightarrow> c \<notin> {CHR ''%'', CHR 0x00, LF} \<and> \<not> is_space_or_tab c" for c
    using digits(1) by (auto simp: list_all_iff is_digit_def is_space_or_tab_def)
  moreover have "ci_key ''Content-Length'' \<noteq> ci_key ''Location''" by (simp add: header_names)
  ultimately have "plain_header (''Content-Length'', to_string_nat n)"
    using digits(2,3) by (auto simp: plain_header_def HEADER_MAX_LENGTH_def)
  moreover have "plain_header (''Connection'', ''close'')" "plain_header (''Content-Type'', ''text/plain'')"
    "plain_header (''Keep-Alive'', keep_alive_value)"
    by (simp_all add: plain_header_def header_names is_space_or_tab_def HEADER_MAX_LENGTH_def keep_alive_value_def)
  ultimately show ?thesis
    by (simp add: plain_headers_def reply_headers_def header_names)
qed

lemma response_headers_reply:
  assumes "sr_method q = ''POST''"
    and closing: "closing = (b \<or> get_header_value (sr_headers q) ''Connection'' = ''close'')"
  shows "response_headers b q (apply_ranges (set_content c ''text/plain'' new_response)) =
      reply_headers closing True (length c)"
    and "response_headers b q (new_response\<lparr>rp_status := st\<rparr>) = reply_headers closing False 0"
  using assms(1) digits_clean(2) [OF to_string_nat_digits, of "length c"]
  by (cases c; simp add: closing response_headers_def apply_ranges_def set_content_def new_response_def reply_headers_def
      set_header_def plain_values keep_alive_plain reply_compare header_names to_string_nat_0)+

lemma reply_status_lines:
  assumes "st \<in> {200, 413}"
  shows "\<exists>reason. match_status_line (''HTTP/1.1 '' @ to_string_nat st @ '' '' @ status_message st @ crlf) = Some (''HTTP/1.1'', st, reason)"
    and "LF \<notin> set (''HTTP/1.1 '' @ to_string_nat st @ '' '' @ status_message st)"
proof -
  have "match_status_line (''HTTP/1.1 '' @ to_string_nat 413 @ '' '' @ status_message 413 @ crlf) =
      Some (''HTTP/1.1'', 413, ''Payload Too Large'')"
    and "LF \<notin> set (''HTTP/1.1 '' @ to_string_nat 413 @ '' '' @ status_message 413)" by code_simp+
  with assms status_lines(1,4)
  show "\<exists>reason. match_status_line (''HTTP/1.1 '' @ to_string_nat st @ '' '' @ status_message st @ crlf) = Some (''HTTP/1.1'', st, reason)"
    and "LF \<notin> set (''HTTP/1.1 '' @ to_string_nat st @ '' '' @ status_message st)" by auto
qed

lemma receive_reply:
  assumes st: "status resp \<in> {200, 413}" and n: "length (body resp) < 2 ^ 64"
  shows "receive_response (reply_bytes closing typed resp, Closed) = Some resp"
proof -
  let ?n = "length (body resp)" and ?st = "status resp"
  let ?line = "''HTTP/1.1 '' @ to_string_nat ?st @ '' '' @ status_message ?st"
  let ?hs = "reply_headers closing typed ?n"
  obtain reason where m: "match_status_line (?line @ crlf) = Some (''HTTP/1.1'', ?st, reason)" and lf: "LF \<notin> set ?line"
    using reply_status_lines [OF st] by auto
  have "getline (?line @ crlf @ write_headers ?hs @ body resp, Closed) =
      Some (?line @ crlf, (write_headers ?hs @ body resp, Closed))"
    using lf by (rule getline_crlf)
  then have "read_response_line (reply_bytes closing typed resp, Closed) =
      read_status (''HTTP/1.1'', ?st, reason) (write_headers ?hs @ body resp, Closed)"
    by (simp only: read_response_line_def reply_bytes_def append_assoc option.case prod.case m [unfolded append_assoc])
  also have "\<dots> = (Some (''HTTP/1.1'', ?st, reason), (write_headers ?hs @ body resp, Closed))"
    using st by (subst read_status.simps) auto
  finally have line: "read_response_line (reply_bytes closing typed resp, Closed) =
      (Some (''HTTP/1.1'', ?st, reason), (write_headers ?hs @ body resp, Closed))" .
  note plain = plain_reply_headers [OF n, of closing typed]
  have "get_header_value (header_map ?hs) ''Transfer-Encoding'' = []"
    "get_header_value (header_map ?hs) ''Content-Encoding'' = []"
    "has_header (header_map ?hs) ''Content-Length''"
    "get_header_value (header_map ?hs) ''Content-Length'' = to_string_nat ?n"
    unfolding header_map_lookup [OF plain] using digits_clean(1) [OF to_string_nat_digits, of ?n]
    by (simp_all add: reply_headers_def header_names del: takeWhile_eq_all_conv)
  then have "read_content (header_map ?hs) (body resp, Closed) = ((None, body resp, header_map ?hs), ([], Closed))"
    using n by (simp add: read_content_def is_compressed_def is_chunked_transfer_encoding_def ci_key_def
        get_header_value_u64_def strtoull_to_string_nat read_content_with_length_def)
  with line read_plain_headers [OF plain, of "body resp" Closed] st show ?thesis
    by (auto simp: receive_response_def)
qed

lemma answer_decision:
  assumes "sr_method q = ''POST''"
  shows "\<exists>closing. answer b q (respond std_what (Inr d) new_response) = reply_bytes closing True \<lparr>status = 200, body = d\<rparr>"
proof -
  let ?res = "set_content d ''text/plain'' new_response"
  have "apply_ranges (?res\<lparr>rp_status := Some 200\<rparr>) = (apply_ranges ?res)\<lparr>rp_status := Some 200\<rparr>"
    "rp_status ?res = None" "rp_body (apply_ranges ?res) = d"
    by (simp_all add: apply_ranges_def set_content_def new_response_def)
  moreover have "response_headers b q (res\<lparr>rp_status := st\<rparr>) = response_headers b q res" for res st
    by (simp add: response_headers_def)
  ultimately show ?thesis
    using assms response_headers_reply(1) [OF assms refl, of b d]
    by (auto simp: respond_def answer_def write_response_core_def reply_bytes_def Let_def)
qed

lemma answer_refused:
  assumes "sr_method q = ''POST''"
  shows "\<exists>closing. answer b q (False, new_response\<lparr>rp_status := Some st\<rparr>) = reply_bytes closing False \<lparr>status = st, body = []\<rparr>"
  using assms response_headers_reply(2) [OF assms refl, of b "Some st"]
  by (auto simp: answer_def write_response_core_def reply_bytes_def new_response_def Let_def)

section \<open>A client starts a transaction\<close>

lemma onClientRequest_total: "\<exists>nd' hp'. onClientRequest ver cfg nd hp = Inr (nd', hp')"
  by (cases ver) (simp_all add: onClientRequest_def getUniqueTransactionId_def createNode_def Let_def bind_result_def)

lemma front_read_form:
  assumes "form_headers (length form) hs" and "length form < 2 ^ 64" and "socket < FD_SETSIZE"
    and "fr_left fr > 0" and "fr_stream fr = (client_post hs form @ rest, e)"
    and q: "q = add_addresses ep (client_request hs)"
  shows "front_read ver std_what socket ep ahead fr nd hp =
    (case client_routing q (form @ rest, e) of
       (Unrouted res, req', strm') \<Rightarrow>
         Some (front_answer ahead (asks_to_close (client_request hs)) (answer (fr_left fr = 1) req' (False, res))
           (fr\<lparr>fr_stream := strm'\<rparr>), nd, hp)
     | (Coordinate cfg, req', strm') \<Rightarrow>
         (case onClientRequest ver cfg nd hp of
            Inl err \<Rightarrow>
              Some (front_answer ahead (asks_to_close (client_request hs))
                (answer (fr_left fr = 1) req' (respond std_what (Inl err) new_response)) (fr\<lparr>fr_stream := strm'\<rparr>), nd, hp)
          | Inr (nd', hp') \<Rightarrow>
              Some (fr\<lparr>fr_phase := Coordinating (fst (getUniqueTransactionId nd)) req' (fr_left fr = 1)
                         (asks_to_close (client_request hs)), fr_stream := strm'\<rparr>, nd', hp')))"
proof -
  have "plain_headers hs" using assms(1) by (simp add: form_headers_def)
  note receive = receive_client_request [OF this assms(3), of form rest e]
  have "sr_headers q = sr_headers (add_addresses ep (client_request hs))" by (simp add: q)
  note headers = form_headers_lookup [OF assms(1) this]
  have "take 19 (get_header_value (sr_headers q) ''Content-Type'') = take 19 ''application/x-www-form-urlencoded''"
    using arg_cong [OF headers(3) [unfolded is_form_urlencoded_def], of "take 19"] by simp
  then have "continue_line q = []" "in_model q"
    using headers by (simp_all add: continue_line_def in_model_def is_multipart_form_data_def)
  moreover have "keep_alive (fr_stream fr)" using assms(5) by (simp add: keep_alive_def client_post_def)
  ultimately show ?thesis
    using assms(4,5) receive
    by (simp add: front_read_def Let_def q [symmetric] split: prod.split client_route.split sum.split)
qed

lemma form_transaction:
  assumes "form_headers (length form) hs" and "socket < FD_SETSIZE" and "fr_left fr > 0"
    and "fr_stream fr = (client_post hs form @ rest, e)"
    and "form = ''config='' @ w" and "form_text cfg w" and "length form \<le> FORM_URL_ENCODED_PAYLOAD_MAX_LENGTH"
    and req: "onClientRequest ver cfg nd hp = Inr (nd', hp')"
  shows "\<exists>q c cl. sr_method q = ''POST'' \<and> front_read ver std_what socket ep ahead fr nd hp =
    Some (fr\<lparr>fr_phase := Coordinating (fst (getUniqueTransactionId nd)) q c cl, fr_stream := (rest, e)\<rparr>, nd', hp')"
proof -
  let ?q = "add_addresses ep (client_request hs)"
  have len: "length form < 2 ^ 64" using assms(7) by (simp add: FORM_URL_ENCODED_PAYLOAD_MAX_LENGTH_def)
  have "sr_method (?q\<lparr>sr_params := [(''config'', cfg)]\<rparr>) = ''POST''"
    by (simp add: add_addresses_def client_request_def)
  moreover note front_read_form [OF assms(1) len assms(2-4) refl, of ver std_what ep ahead nd hp]
    client_routing_form(2) [OF assms(1) len refl assms(7,5,6), of ep rest e]
  ultimately show ?thesis using req by (intro exI conjI) simp_all
qed

lemma front_decided_reply:
  assumes "fr_phase fr = Coordinating t q c cl" and "sr_method q = ''POST''" and "length d < 2 ^ 64"
  shows "\<exists>reply. fr_out (fst (front_decided std_what ahead (Inr d) fr nd)) = fr_out fr @ reply \<and>
    receive_response (reply, Closed) = Some \<lparr>status = 200, body = d\<rparr> \<and>
    snd (front_decided std_what ahead (Inr d) fr nd) = removeFromMap t Handlers nd"
proof -
  obtain closing where "answer c q (respond std_what (Inr d) new_response) = reply_bytes closing True \<lparr>status = 200, body = d\<rparr>"
    using answer_decision [OF assms(2)] by blast
  with assms(1,3) show ?thesis by (simp add: front_decided_def front_answer_def receive_reply)
qed

text \<open>
  C15: a client starts the transaction it means. When a connection brings a form of at most 8192 bytes to
  \<open>/TRANSACTION\<close>, in any form encoding, under any headers that describe it, exactly one coordinator is
  created, for exactly the text that the client encoded; the connection is left after the form, waits,
  and when the coordinator decides, what it writes is read by an HTTP client as status 200 with the
  decision as its body, and the node forgets the transaction.
\<close>

theorem client_starts_transaction:
  assumes "form_headers (length form) hs" and "socket < FD_SETSIZE" and "fr_left fr > 0"
    and "fr_stream fr = (client_post hs form @ rest, e)"
    and "form = ''config='' @ w" and "form_text cfg w" and "length form \<le> FORM_URL_ENCODED_PAYLOAD_MAX_LENGTH"
  shows "\<exists>fr' nd' hp'. onClientRequest ver cfg nd hp = Inr (nd', hp') \<and>
    front_read ver std_what socket ep ahead fr nd hp = Some (fr', nd', hp') \<and>
    fr_stream fr' = (rest, e) \<and> fr_out fr' = fr_out fr \<and>
    (\<forall>ahead' d nd2. length d < 2 ^ 64 \<longrightarrow>
      (\<exists>reply. fr_out (fst (front_decided std_what ahead' (Inr d) fr' nd2)) = fr_out fr @ reply \<and>
        receive_response (reply, Closed) = Some \<lparr>status = 200, body = d\<rparr> \<and>
        snd (front_decided std_what ahead' (Inr d) fr' nd2) = removeFromMap (fst (getUniqueTransactionId nd)) Handlers nd2))"
proof -
  obtain nd' hp' where req: "onClientRequest ver cfg nd hp = Inr (nd', hp')" using onClientRequest_total by blast
  obtain q c cl where q: "sr_method q = ''POST''" "front_read ver std_what socket ep ahead fr nd hp =
      Some (fr\<lparr>fr_phase := Coordinating (fst (getUniqueTransactionId nd)) q c cl, fr_stream := (rest, e)\<rparr>, nd', hp')"
    (is "_ = Some (?fr, _, _)") using form_transaction [OF assms req] by blast
  have phase: "fr_phase ?fr = Coordinating (fst (getUniqueTransactionId nd)) q c cl" by simp
  have out: "fr_out ?fr = fr_out fr" "fr_stream ?fr = (rest, e)" by simp_all
  show ?thesis
    using front_decided_reply [OF phase q(1)] unfolding out
    by (intro exI [of _ ?fr] exI [of _ nd'] exI [of _ hp'] conjI allI impI) (simp_all add: req q(2))
qed

text \<open>The request that the Python client of the tests sends.\<close>

definition sample_form :: string where
  "sample_form = ''config=a%3A1+b%3A2+''"

definition sample_client_headers :: headers where
  "sample_client_headers =
     [(''Host'', ''localhost:8102''), (''User-Agent'', ''python-requests/2.31.0''),
      (''Accept-Encoding'', ''gzip, deflate''), (''Accept'', ''*/*''), (''Connection'', ''keep-alive''),
      (''content-type'', ''application/x-www-form-urlencoded''), (''Content-Length'', ''19'')]"

lemma sample_client_headers_ok: "form_headers (length sample_form) sample_client_headers"
  by code_simp

lemma sample_form_text: "form_text ''a:1 b:2 '' ''a%3A1+b%3A2+''"
proof -
  have hex: "is_hex CHR ''3'' = Some 3" "is_hex CHR ''A'' = Some 10" "char_of (16 * 3 + 10 :: nat) = CHR '':''" by code_simp+
  have colon: "form_text s w \<Longrightarrow> form_text (CHR '':'' # s) (CHR ''%'' # CHR ''3'' # CHR ''A'' # w)" for s w
    using form_escape [OF _ hex(1,2), of s w] by (simp only: hex(3))
  show ?thesis by (intro form_plain form_blank colon form_end; simp)
qed

lemma sample_transaction:
  obtains nd' ob where "onClientRequest PAPER_VERSION ''a:1 b:2 '' (start_node (run_host ''a:1'' 1)) [] = Inr (nd', [ob])"
    and "ob_config ob = run_config" and "nd_handlers nd' 1 = Some 0"
  by (simp add: onClientRequest_def getUniqueTransactionId_def createNode_def Let_def run_start_node run_txid run_config_parsed)

theorem client_starts_transaction_witness:
  "\<exists>fr' nd' ob. front_read PAPER_VERSION (\<lambda>e. []) 5 sample_endpoints 0
      (open_front (client_post sample_client_headers sample_form @ [], Silent)) (start_node (run_host ''a:1'' 1)) [] =
      Some (fr', nd', [ob]) \<and>
    ob_config ob = run_config \<and> nd_handlers nd' 1 = Some 0"
proof -
  let ?fr = "open_front (client_post sample_client_headers sample_form @ [], Silent)"
  have bounds: "length sample_form \<le> FORM_URL_ENCODED_PAYLOAD_MAX_LENGTH" "5 < FD_SETSIZE" "0 < fr_left ?fr"
    "fr_stream ?fr = (client_post sample_client_headers sample_form @ [], Silent)"
    by (simp_all add: sample_form_def FORM_URL_ENCODED_PAYLOAD_MAX_LENGTH_def FD_SETSIZE_def open_front_def KEEPALIVE_MAX_COUNT_def)
  have "sample_form = ''config='' @ ''a%3A1+b%3A2+''" by (simp add: sample_form_def)
  from client_starts_transaction [OF sample_client_headers_ok bounds(2-4) this sample_form_text bounds(1),
      of PAPER_VERSION "start_node (run_host ''a:1'' 1)" "[]" "\<lambda>e. []" sample_endpoints 0]
  obtain fr' nd' hp' where "onClientRequest PAPER_VERSION ''a:1 b:2 '' (start_node (run_host ''a:1'' 1)) [] = Inr (nd', hp')"
    "front_read PAPER_VERSION (\<lambda>e. []) 5 sample_endpoints 0 ?fr (start_node (run_host ''a:1'' 1)) [] = Some (fr', nd', hp')"
    by (elim exE conjE)
  then show ?thesis by (rule_tac sample_transaction) auto
qed

text \<open>
  C16: a form of more than 8192 bytes, of whatever content, is refused: no transaction starts, the node
  and its handlers are as before, and what the server writes is read by an HTTP client as status 413.
\<close>

theorem long_form_refused:
  assumes "form_headers (length form) hs" and "length form < 2 ^ 64" and "socket < FD_SETSIZE" and "fr_left fr > 0"
    and "fr_stream fr = (client_post hs form @ rest, e)" and "FORM_URL_ENCODED_PAYLOAD_MAX_LENGTH < length form"
  shows "\<exists>fr' reply. front_read ver std_what socket ep ahead fr nd hp = Some (fr', nd, hp) \<and>
    fr_out fr' = fr_out fr @ reply \<and> receive_response (reply, Closed) = Some \<lparr>status = 413, body = []\<rparr>"
proof -
  let ?q = "add_addresses ep (client_request hs)"
  have "sr_method ?q = ''POST''" by (simp add: add_addresses_def client_request_def)
  then obtain closing where
    "answer (fr_left fr = 1) ?q (False, new_response\<lparr>rp_status := Some 413\<rparr>) = reply_bytes closing False \<lparr>status = 413, body = []\<rparr>"
    using answer_refused by blast
  moreover note front_read_form [OF assms(1-5) refl, of ver std_what ep ahead nd hp]
    client_routing_form(1) [OF assms(1,2) refl assms(6), of ep rest e]
  ultimately show ?thesis by (simp add: front_answer_def receive_reply)
qed

text \<open>A form of 9000 bytes.\<close>

definition long_form :: string where
  "long_form = replicate 9000 CHR ''x''"

definition long_form_headers :: headers where
  "long_form_headers =
     [(''Host'', ''localhost:8102''), (''content-type'', ''application/x-www-form-urlencoded''), (''Content-Length'', ''9000'')]"

lemma long_form_headers_ok: "form_headers 9000 long_form_headers"
  by code_simp

theorem long_form_refused_witness:
  "\<exists>fr' reply. front_read PAPER_VERSION (\<lambda>e. []) 5 sample_endpoints 0
      (open_front (client_post long_form_headers long_form @ [], Silent)) (start_node (run_host ''a:1'' 1)) [] =
      Some (fr', start_node (run_host ''a:1'' 1), []) \<and>
    receive_response (reply, Closed) = Some \<lparr>status = 413, body = []\<rparr>"
proof -
  let ?fr = "open_front (client_post long_form_headers long_form @ [], Silent)"
  have "length long_form = 9000" by (simp add: long_form_def)
  then have "form_headers (length long_form) long_form_headers" "length long_form < 2 ^ 64"
    "FORM_URL_ENCODED_PAYLOAD_MAX_LENGTH < length long_form"
    by (simp_all add: long_form_headers_ok FORM_URL_ENCODED_PAYLOAD_MAX_LENGTH_def)
  moreover have "5 < FD_SETSIZE" "0 < fr_left ?fr"
    "fr_stream ?fr = (client_post long_form_headers long_form @ [], Silent)"
    by (simp_all add: FD_SETSIZE_def open_front_def KEEPALIVE_MAX_COUNT_def)
  ultimately show ?thesis
    using long_form_refused [of long_form long_form_headers 5 ?fr "[]" Silent PAPER_VERSION "\<lambda>e. []"
        sample_endpoints 0 "start_node (run_host ''a:1'' 1)" "[]"] by blast
qed

end
