(* ===== verification/Client_System.thy ===== *)
theory Client_System
  imports Client_Front Paper_Agreement
begin

text \<open>
  The system with its clients: the nodes, the requests between them and the DBMS as before, and the
  HTTP connections over which clients start transactions and read the decisions. What the connections
  do to the system are steps it has anyway, so its properties hold for the answers that clients read.
\<close>

section \<open>Connections of clients\<close>

record client_conn =
  cc_host :: host               \<comment> \<open>the node\<close>
  cc_front :: front
  cc_object :: nat              \<comment> \<open>the coordinator it waits for\<close>

text \<open>The replies to transactions are kept in the order in which they were written.\<close>

record client_system =
  cs_sys :: cornus
  cs_conns :: "client_conn list"
  cs_replies :: "(transaction_id \<times> string) list"

text \<open>
  A connection is opened with all that its client will send; a thread of the HTTP server reads a
  request; the coordinator has returned a decision, or has thrown an exception, and the answer is
  written. No string has \<open>2 ^ 64\<close> characters.
\<close>

inductive client_step ::
  "version \<Rightarrow> (cxx_error \<Rightarrow> string) \<Rightarrow> client_system \<Rightarrow> client_system \<Rightarrow> bool" for ver std_what
where
  system_step:
    "cornus_step ver (cs_sys cs) s' \<Longrightarrow> client_step ver std_what cs (cs\<lparr>cs_sys := s'\<rparr>)"
| opened:
    "client_step ver std_what cs
       (cs\<lparr>cs_conns := cs_conns cs @ [\<lparr>cc_host = h, cc_front = open_front strm, cc_object = 0\<rparr>]\<rparr>)"
| request_read:
    "i < length (cs_conns cs) \<Longrightarrow> cs_conns cs ! i = c \<Longrightarrow> fr_phase (cc_front c) = Reading \<Longrightarrow>
     nodes (cs_sys cs) (cc_host c) = Some nd \<Longrightarrow>
     front_read ver std_what socket ep ahead (cc_front c) nd (heap (cs_sys cs)) = Some (fr', nd', hp') \<Longrightarrow>
     client_step ver std_what cs
       (cs\<lparr>cs_sys := (cs_sys cs)\<lparr>nodes := (nodes (cs_sys cs))(cc_host c \<mapsto> nd'), heap := hp'\<rparr>,
           cs_conns := (cs_conns cs)[i := c\<lparr>cc_front := fr', cc_object := length (heap (cs_sys cs))\<rparr>]\<rparr>)"
| decision_answered:
    "i < length (cs_conns cs) \<Longrightarrow> cs_conns cs ! i = c \<Longrightarrow> fr_phase (cc_front c) = Coordinating t q b cl \<Longrightarrow>
     nodes (cs_sys cs) (cc_host c) = Some nd \<Longrightarrow> heap (cs_sys cs) ! cc_object c = ob \<Longrightarrow>
     ob_returned ob = Some d \<Longrightarrow> \<not> ob_removed ob \<Longrightarrow> length d < 2 ^ 64 \<Longrightarrow>
     front_decided std_what ahead (Inr d) (cc_front c) nd = (fr', nd') \<Longrightarrow> fr_out fr' = fr_out (cc_front c) @ reply \<Longrightarrow>
     client_step ver std_what cs
       (cs\<lparr>cs_sys := (cs_sys cs)\<lparr>nodes := (nodes (cs_sys cs))(cc_host c \<mapsto> nd'),
             heap := (heap (cs_sys cs))[cc_object c := ob\<lparr>ob_removed := True\<rparr>]\<rparr>,
           cs_conns := (cs_conns cs)[i := c\<lparr>cc_front := fr'\<rparr>], cs_replies := cs_replies cs @ [(t, reply)]\<rparr>)"
| exception_answered:
    "i < length (cs_conns cs) \<Longrightarrow> cs_conns cs ! i = c \<Longrightarrow> fr_phase (cc_front c) = Coordinating t q b cl \<Longrightarrow>
     nodes (cs_sys cs) (cc_host c) = Some nd \<Longrightarrow> ob_proc (heap (cs_sys cs) ! cc_object c) = Throw err \<Longrightarrow>
     front_decided std_what ahead (Inl err) (cc_front c) nd = (fr', nd) \<Longrightarrow> fr_out fr' = fr_out (cc_front c) @ reply \<Longrightarrow>
     client_step ver std_what cs
       (cs\<lparr>cs_conns := (cs_conns cs)[i := c\<lparr>cc_front := fr'\<rparr>], cs_replies := cs_replies cs @ [(t, reply)]\<rparr>)"

definition start_clients :: "(host \<rightharpoonup> host_config) \<Rightarrow> client_system" where
  "start_clients hosts = \<lparr>cs_sys = start hosts, cs_conns = [], cs_replies = []\<rparr>"

inductive client_reach ::
  "version \<Rightarrow> (cxx_error \<Rightarrow> string) \<Rightarrow> (host \<rightharpoonup> host_config) \<Rightarrow> client_system \<Rightarrow> bool" for ver std_what hosts
where
  clients_start: "client_reach ver std_what hosts (start_clients hosts)"
| clients_step: "client_reach ver std_what hosts cs \<Longrightarrow> client_step ver std_what cs cs' \<Longrightarrow> client_reach ver std_what hosts cs'"

section \<open>What the objects keep\<close>

text \<open>Objects stay where they are, with their class and configuration, and keep what they have returned.\<close>

definition same_object :: "handler_object \<Rightarrow> handler_object \<Rightarrow> bool" where
  "same_object ob ob' \<longleftrightarrow>
     sig ob' = sig ob \<and> ob_map ob' = ob_map ob \<and> (ob_returned ob \<noteq> None \<longrightarrow> ob_returned ob' = ob_returned ob)"

definition grows :: "handler_object list \<Rightarrow> handler_object list \<Rightarrow> bool" where
  "grows hp hp' \<longleftrightarrow> length hp \<le> length hp' \<and> (\<forall>k<length hp. same_object (hp ! k) (hp' ! k))"

lemma same_object_refl [simp]: "same_object ob ob"
  by (simp add: same_object_def)

lemma grows_refl [simp]: "grows hp hp"
  by (simp add: grows_def)

lemma grows_append: "grows hp (hp @ obs)"
  by (simp add: grows_def nth_append)

lemma grows_update: "same_object (hp ! k) ob \<Longrightarrow> grows hp (hp[k := ob])"
  by (cases "k < length hp") (auto simp: grows_def nth_list_update list_update_beyond)

lemma grows_createNode: "createNode ver tcp cls cfg t m nd hp = Inr (nd', hp') \<Longrightarrow> grows hp hp'"
  by (auto simp: createNode_def Let_def bind_result_Inr_iff grows_append split: if_splits)

lemma grows_dispatch: "dispatch ver tcp req nd hp = Inr (nd', hp') \<Longrightarrow> grows hp hp'"
  by (auto simp: dispatch_def onNewRequest_def onOldRequest_def bind_result_Inr_iff sendMessage_def same_object_def sig_def
      intro!: grows_update split: if_splits option.splits dest: grows_createNode)

lemma thread_step_same: "thread_step ob ls ob' ls' out commits \<Longrightarrow> same_object ob ob'"
  by (auto elim!: thread_stepE simp: same_object_def sig_def)

lemma cornus_step_grows:
  assumes "cornus_step ver s s'"
  shows "grows (heap s) (heap s')"
  using assms
proof (cases rule: cornus_step.cases)
  case (client_request h nd cfg nd' heap')
  then show ?thesis by (auto simp: onClientRequest_def getUniqueTransactionId_def dest: grows_createNode)
next
  case (arrival h nd req rest tcp nd' heap')
  then show ?thesis by (simp add: grows_dispatch)
next
  case (thread i ob' ls' out commits)
  then show ?thesis by (simp add: grows_update thread_step_same)
next
  case (unregister i nd)
  then show ?thesis by (simp add: grows_update same_object_def sig_def)
qed simp_all

section \<open>The connections only take steps of the system\<close>

lemma client_request_object:
  assumes "onClientRequest PAPER_VERSION cfg nd hp = Inr (nd', hp')"
  obtains ob where "hp' = hp @ [ob]" and "ob_class ob = CoordinatorNode" and "ob_map ob = Handlers"
    and "ob_host ob = hc_id (nd_hostConfig nd)" and "ob_txid ob = fst (getUniqueTransactionId nd)"
  using assms unfolding onClientRequest_def getUniqueTransactionId_def
  by (auto elim!: createNode_InrE)

text \<open>What a waiting connection knows of its coordinator, and a reply of the handler that made it.\<close>

definition waits_for :: "handler_object list \<Rightarrow> client_conn \<Rightarrow> bool" where
  "waits_for hp c \<longleftrightarrow>
     (\<forall>t q b cl. fr_phase (cc_front c) = Coordinating t q b cl \<longrightarrow>
        cc_object c < length hp \<and> sr_method q = ''POST'' \<and>
        (case hp ! cc_object c of ob \<Rightarrow> ob_host ob = cc_host c \<and> ob_map ob = Handlers \<and> ob_txid ob = t))"

definition explained :: "(cxx_error \<Rightarrow> string) \<Rightarrow> handler_object list \<Rightarrow> transaction_id \<times> string \<Rightarrow> bool" where
  "explained std_what hp x \<longleftrightarrow>
     (case x of (t, reply) \<Rightarrow>
        (\<exists>ob\<in>set hp. \<exists>d closing. ob_txid ob = t \<and> ob_returned ob = Some d \<and> length d < 2 ^ 64 \<and>
           reply = reply_bytes closing True \<lparr>status = 200, body = d\<rparr>) \<or>
        (\<exists>b q err. reply = answer b q (respond std_what (Inl err) new_response)))"

lemma same_objectE:
  assumes "grows hp hp'" and "k < length hp"
  obtains "k < length hp'" and "ob_host (hp' ! k) = ob_host (hp ! k)" and "ob_map (hp' ! k) = ob_map (hp ! k)"
    and "ob_txid (hp' ! k) = ob_txid (hp ! k)" and "\<And>d. ob_returned (hp ! k) = Some d \<Longrightarrow> ob_returned (hp' ! k) = Some d"
proof -
  have "k < length hp'" "same_object (hp ! k) (hp' ! k)" using assms by (simp_all add: grows_def)
  then show thesis by (intro that) (simp_all add: same_object_def sig_def)
qed

lemma explained_exception: "explained std_what hp (t, answer b q (respond std_what (Inl err) new_response))"
  unfolding explained_def prod.case by blast

lemma waits_for_grows: "waits_for hp c \<Longrightarrow> grows hp hp' \<Longrightarrow> waits_for hp' c"
  unfolding waits_for_def by (auto elim!: same_objectE)

lemma explained_grows:
  assumes "explained std_what hp x" and grows: "grows hp hp'"
  shows "explained std_what hp' x"
proof -
  have "\<exists>ob'\<in>set hp'. ob_txid ob' = ob_txid ob \<and> ob_returned ob' = Some d"
    if "ob \<in> set hp" "ob_returned ob = Some d" for ob d
  proof -
    obtain k where k: "k < length hp" "ob = hp ! k" using \<open>ob \<in> set hp\<close> by (auto simp: in_set_conv_nth)
    from grows k(1) show ?thesis
      by (rule same_objectE) (use k(2) that(2) in \<open>auto intro: bexI [of _ "hp' ! k"]\<close>)
  qed
  with assms(1) show ?thesis unfolding explained_def by (cases x) fastforce
qed

definition clients_ok :: "(cxx_error \<Rightarrow> string) \<Rightarrow> (host \<rightharpoonup> host_config) \<Rightarrow> client_system \<Rightarrow> bool" where
  "clients_ok std_what hosts cs \<longleftrightarrow>
     reach PAPER_VERSION hosts (cs_sys cs) \<and> (\<forall>c\<in>set (cs_conns cs). waits_for (heap (cs_sys cs)) c) \<and>
     (\<forall>x\<in>set (cs_replies cs). explained std_what (heap (cs_sys cs)) x)"

lemma clients_okI:
  assumes "clients_ok std_what hosts cs" and "reach PAPER_VERSION hosts (cs_sys cs')"
    and grows: "grows (heap (cs_sys cs)) (heap (cs_sys cs'))"
    and "\<And>c. c \<in> set (cs_conns cs') \<Longrightarrow> c \<in> set (cs_conns cs) \<or> waits_for (heap (cs_sys cs')) c"
    and "\<And>x. x \<in> set (cs_replies cs') \<Longrightarrow> x \<in> set (cs_replies cs) \<or> explained std_what (heap (cs_sys cs')) x"
  shows "clients_ok std_what hosts cs'"
  using assms waits_for_grows [OF _ grows] explained_grows [OF _ grows] unfolding clients_ok_def by blast

lemma waits_for_idle: "fr_phase (cc_front c) \<in> {Reading, Finished} \<Longrightarrow> waits_for hp c"
  by (auto simp: waits_for_def)

lemma conn_updated: "c' \<in> set (conns[i := c]) \<Longrightarrow> c' \<in> set conns \<or> c' = c"
  using set_update_subset_insert by fastforce

lemma conns_updated:
  "waits_for hp c' \<Longrightarrow> c \<in> set (conns[i := c']) \<Longrightarrow> c \<in> set conns \<or> waits_for hp c"
  using conn_updated by fastforce

lemma request_read_ok:
  assumes ok: "clients_ok std_what hosts cs" and good: "good_hosts hosts"
    and nd: "nodes (cs_sys cs) h = Some nd"
    and front: "front_read PAPER_VERSION std_what socket ep ahead fr nd (heap (cs_sys cs)) = Some (fr', nd', hp')"
    and s': "s' = (cs_sys cs)\<lparr>nodes := (nodes (cs_sys cs))(h \<mapsto> nd'), heap := hp'\<rparr>"
  shows "reach PAPER_VERSION hosts s' \<and> grows (heap (cs_sys cs)) (heap s') \<and>
    waits_for (heap s') \<lparr>cc_host = h, cc_front = fr', cc_object = length (heap (cs_sys cs))\<rparr>"
  using front_read_cases [OF front]
proof (elim disjE exE conjE)
  assume "nd' = nd" "hp' = heap (cs_sys cs)" "fr_phase fr' \<in> {Reading, Finished}"
  moreover from this have "s' = cs_sys cs" using nd by (simp add: s' fun_upd_idem)
  ultimately show ?thesis using ok by (simp add: clients_ok_def waits_for_idle)
next
  fix cfg q c cl
  assume req: "onClientRequest PAPER_VERSION cfg nd (heap (cs_sys cs)) = Inr (nd', hp')"
    and phase: "fr_phase fr' = Coordinating (fst (getUniqueTransactionId nd)) q c cl" "sr_method q = ''POST''"
  have reach: "reach PAPER_VERSION hosts (cs_sys cs)" using ok by (simp add: clients_ok_def)
  then have "hc_id (nd_hostConfig nd) = h"
    using reach_safe [OF reach good] good nd by (auto simp: counted_def good_hosts_def)
  moreover obtain ob where "hp' = heap (cs_sys cs) @ [ob]" "ob_map ob = Handlers"
      "ob_host ob = hc_id (nd_hostConfig nd)" "ob_txid ob = fst (getUniqueTransactionId nd)"
    using req by (rule client_request_object)
  moreover have "reach PAPER_VERSION hosts s'"
    using reach_step [OF reach client_request [OF nd req]] by (simp add: s')
  ultimately show ?thesis using phase by (simp add: s' grows_append waits_for_def)
qed

lemma decision_answered_ok:
  assumes ok: "clients_ok std_what hosts cs" and c: "c \<in> set (cs_conns cs)"
    and phase: "fr_phase (cc_front c) = Coordinating t q b cl" and nd: "nodes (cs_sys cs) (cc_host c) = Some nd"
    and ob: "heap (cs_sys cs) ! cc_object c = ob" "ob_returned ob = Some d" "\<not> ob_removed ob" "length d < 2 ^ 64"
    and front: "front_decided std_what ahead (Inr d) (cc_front c) nd = (fr', nd')" "fr_out fr' = fr_out (cc_front c) @ reply"
    and s': "s' = (cs_sys cs)\<lparr>nodes := (nodes (cs_sys cs))(cc_host c \<mapsto> nd'),
      heap := (heap (cs_sys cs))[cc_object c := ob\<lparr>ob_removed := True\<rparr>]\<rparr>"
  shows "reach PAPER_VERSION hosts s' \<and> grows (heap (cs_sys cs)) (heap s') \<and>
    fr_phase fr' \<in> {Reading, Finished} \<and> explained std_what (heap s') (t, reply)"
proof -
  let ?hp = "heap (cs_sys cs)" and ?k = "cc_object c" and ?ob = "ob\<lparr>ob_removed := True\<rparr>"
  have "waits_for ?hp c" using ok c by (simp add: clients_ok_def)
  then have w: "?k < length ?hp" "sr_method q = ''POST''" "ob_host ob = cc_host c" "ob_map ob = Handlers" "ob_txid ob = t"
    using phase ob(1) by (simp_all add: waits_for_def)
  have "nd' = removeFromMap t Handlers nd" "fr_phase fr' \<in> {Reading, Finished}"
    "reply = answer b q (respond std_what (Inr d) new_response)"
    using front phase by (auto simp: front_decided_def front_answer_def)
  moreover have "cornus_step PAPER_VERSION (cs_sys cs) s'"
    using unregister [OF w(1), of nd] nd ob w(3-5) calculation(1) by (simp add: s')
  moreover have "reach PAPER_VERSION hosts (cs_sys cs)" using ok by (simp add: clients_ok_def)
  moreover obtain closing where
    "answer b q (respond std_what (Inr d) new_response) = reply_bytes closing True \<lparr>status = 200, body = d\<rparr>"
    using answer_decision [OF w(2)] by blast
  moreover have "?ob \<in> set (heap s')" using w(1) by (simp add: s' set_update_memI)
  moreover have "\<exists>d closing. ob_txid ?ob = t \<and> ob_returned ?ob = Some d \<and> length d < 2 ^ 64 \<and>
      reply = reply_bytes closing True \<lparr>status = 200, body = d\<rparr>"
    using calculation(3,6) ob(2,4) w(5) by (intro exI [of _ d] exI [of _ closing]) simp
  ultimately have "explained std_what (heap s') (t, reply)" unfolding explained_def by blast
  with \<open>fr_phase fr' \<in> _\<close> \<open>cornus_step _ _ _\<close> \<open>reach _ _ _\<close> show ?thesis
    by (blast intro: reach_step cornus_step_grows)
qed

lemma client_step_ok:
  assumes "client_step PAPER_VERSION std_what cs cs'" and ok: "clients_ok std_what hosts cs" and good: "good_hosts hosts"
  shows "clients_ok std_what hosts cs'"
  using assms(1)
proof (cases rule: client_step.cases)
  case (system_step s')
  have "reach PAPER_VERSION hosts s'" using ok reach_step [OF _ system_step(2)] by (simp add: clients_ok_def)
  then show ?thesis
    using cornus_step_grows [OF system_step(2)] by (intro clients_okI [OF ok]) (simp_all add: system_step(1))
next
  case (opened h strm)
  then show ?thesis using ok
    by (auto simp: clients_ok_def open_front_def intro: waits_for_idle)
next
  case (request_read i c nd socket ep ahead fr' nd' hp')
  note step = request_read_ok [OF ok good request_read(5,6) refl]
  have conn: "c\<lparr>cc_front := fr', cc_object := length (heap (cs_sys cs))\<rparr> =
      \<lparr>cc_host = cc_host c, cc_front = fr', cc_object = length (heap (cs_sys cs))\<rparr>" by (cases c) simp
  have "waits_for hp' (c\<lparr>cc_front := fr', cc_object := length (heap (cs_sys cs))\<rparr>)" unfolding conn using step by simp
  then show ?thesis
    using step unfolding request_read(1)
    by (intro clients_okI [OF ok]) (simp_all add: conns_updated)
next
  case (decision_answered i c t q b cl nd ob d ahead fr' nd' reply)
  have "c \<in> set (cs_conns cs)" using decision_answered(2,3) by auto
  note step = decision_answered_ok [OF ok this decision_answered(4-11) refl]
  show ?thesis
    using step waits_for_idle unfolding decision_answered(1)
    by (intro clients_okI [OF ok]) (auto dest!: conn_updated)
next
  case (exception_answered i c t q b cl nd err ahead fr' reply)
  have "fr_phase fr' \<in> {Reading, Finished}" "reply = answer b q (respond std_what (Inl err) new_response)"
    using exception_answered(4,7,8) by (auto simp: front_decided_def front_answer_def)
  then show ?thesis
    using ok waits_for_idle explained_exception unfolding exception_answered(1)
    by (intro clients_okI [OF ok]) (auto simp: clients_ok_def dest!: conn_updated)
qed

lemma client_reach_ok:
  assumes "client_reach PAPER_VERSION std_what hosts cs" and good: "good_hosts hosts"
  shows "clients_ok std_what hosts cs"
  using assms(1)
proof induction
  case clients_start
  show ?case by (simp add: clients_ok_def start_clients_def reach_start)
next
  case (clients_step cs cs')
  then show ?case using client_step_ok [OF _ _ good] by blast
qed

section \<open>What a client reads\<close>

lemma receive_response_status:
  assumes "read_response_line strm = (Some (v, st, reason), strm')" and "receive_response strm = Some resp"
  shows "status resp = st"
  using assms by (auto simp: receive_response_def split: prod.splits if_splits bool.splits option.splits)

lemma exception_status:
  assumes "receive_response (answer b q (respond std_what (Inl err) new_response), Closed) = Some resp"
  shows "status resp = 500"
proof -
  obtain s where "answer b q (respond std_what (Inl err) new_response) =
      ''HTTP/1.1 '' @ to_string_nat 500 @ '' '' @ status_message 500 @ crlf @ s"
    by (simp add: respond_def answer_def write_response_core_def Let_def)
  then show ?thesis
    using read_response_line_written [of 500 s Closed] receive_response_status assms by (auto simp del: append_assoc)
qed

lemma explained_answer:
  assumes "explained std_what hp (t, reply)" and "receive_response (reply, Closed) = Some \<lparr>status = 200, body = d\<rparr>"
  shows "\<exists>ob\<in>set hp. ob_txid ob = t \<and> ob_returned ob = Some d"
proof -
  consider (decision) ob d' closing where "ob \<in> set hp" "ob_txid ob = t" "ob_returned ob = Some d'" "length d' < 2 ^ 64"
      "reply = reply_bytes closing True \<lparr>status = 200, body = d'\<rparr>"
    | (exception) b q err where "reply = answer b q (respond std_what (Inl err) new_response)"
    using assms(1) unfolding explained_def prod.case by (elim disjE bexE exE conjE)
  then show ?thesis
  proof cases
    case decision
    then have "d' = d" using assms(2) by (simp add: receive_reply)
    with decision show ?thesis by blast
  next
    case exception
    with assms(2) exception_status [of b q std_what err] show ?thesis by auto
  qed
qed

text \<open>
  C3: what clients are told agrees with the outcome. Whatever connections bring forms, other requests or
  broken ones, and whatever happens to the nodes: when an HTTP client can read a reply to a transaction
  as status 200 with a decision, the coordinator of the transaction has returned that decision, and no
  handler, log or other client can ever have the opposite one. The assumptions are those of the agreement
  between the nodes.
\<close>

theorem client_answers_agree:
  assumes "client_reach PAPER_VERSION std_what hosts cs" and "good_hosts hosts" and "orderly (cs_sys cs)"
    and "(t, reply) \<in> set (cs_replies cs)" and "receive_response (reply, Closed) = Some \<lparr>status = 200, body = d\<rparr>"
  shows "decided (cs_sys cs) t d \<and> (d = ''COMMIT'' \<longrightarrow> \<not> decided (cs_sys cs) t ''ABORT'') \<and>
    (d = ''ABORT'' \<longrightarrow> \<not> decided (cs_sys cs) t ''COMMIT'')"
proof -
  have ok: "clients_ok std_what hosts cs" by (rule client_reach_ok [OF assms(1,2)])
  then have "explained std_what (heap (cs_sys cs)) (t, reply)" using assms(4) by (auto simp: clients_ok_def)
  from explained_answer [OF this assms(5)] have "decided (cs_sys cs) t d" by (auto simp: decided_def)
  moreover have "\<not> (decided (cs_sys cs) t ''COMMIT'' \<and> decided (cs_sys cs) t ''ABORT'')"
    using ok by (intro decisions_agree [OF _ assms(2,3)]) (simp add: clients_ok_def)
  ultimately show ?thesis by blast
qed

section \<open>A client that commits a transaction\<close>

lemma system_acts:
  "acts ver as (cs_sys cs) = Some s \<Longrightarrow> client_reach ver std_what hosts cs \<Longrightarrow>
   client_reach ver std_what hosts (cs\<lparr>cs_sys := s\<rparr>)"
proof (induction as arbitrary: cs)
  case Nil
  then have s: "s = cs_sys cs" by simp
  have e: "cs\<lparr>cs_sys := s\<rparr> = cs" unfolding s by (cases cs) simp
  show ?case unfolding e by (rule Nil.prems(2))
next
  case (Cons a as)
  then obtain s' where s': "act ver a (cs_sys cs) = Some s'" "acts ver as s' = Some s" by (auto split: option.splits)
  have "client_reach ver std_what hosts (cs\<lparr>cs_sys := s'\<rparr>)"
    using clients_step [OF Cons.prems(2) system_step [OF act_step [OF s'(1)]]] .
  with Cons.IH [of "cs\<lparr>cs_sys := s'\<rparr>"] s'(2) show ?case by simp
qed

abbreviation sample_stream :: stream where
  "sample_stream \<equiv> (client_post sample_client_headers sample_form @ [], Silent)"

text \<open>The client of the tests sends its form and the node reads it.\<close>

lemma sample_client_reads:
  assumes req: "onClientRequest PAPER_VERSION ''a:1 b:2 '' (start_node (run_host ''a:1'' 1)) [] = Inr (nd', hp')"
  obtains cs fr q b cl where "client_reach PAPER_VERSION (\<lambda>e. []) run_hosts cs"
    and "cs_sys cs = (start run_hosts)\<lparr>nodes := (nodes (start run_hosts))(''a:1'' \<mapsto> nd'), heap := hp'\<rparr>"
    and "cs_conns cs = [\<lparr>cc_host = ''a:1'', cc_front = fr, cc_object = 0\<rparr>]"
    and "fr_phase fr = Coordinating 1 q b cl" and "sr_method q = ''POST''" and "cs_replies cs = []"
proof -
  let ?nd = "start_node (run_host ''a:1'' 1)" and ?fr = "open_front sample_stream"
  let ?c = "\<lparr>cc_host = ''a:1'', cc_front = ?fr, cc_object = 0\<rparr>"
  let ?cs = "(start_clients run_hosts)\<lparr>cs_conns := cs_conns (start_clients run_hosts) @ [?c]\<rparr>"
  have bounds: "length sample_form \<le> FORM_URL_ENCODED_PAYLOAD_MAX_LENGTH" "5 < FD_SETSIZE" "0 < fr_left ?fr"
    "fr_stream ?fr = sample_stream"
    by (simp_all add: sample_form_def FORM_URL_ENCODED_PAYLOAD_MAX_LENGTH_def FD_SETSIZE_def open_front_def KEEPALIVE_MAX_COUNT_def)
  have "sample_form = ''config='' @ ''a%3A1+b%3A2+''" by (simp add: sample_form_def)
  from form_transaction [OF sample_client_headers_ok bounds(2-4) this sample_form_text bounds(1) req, of "\<lambda>e. []" sample_endpoints 0]
  obtain q b cl where q: "sr_method q = ''POST''" "front_read PAPER_VERSION (\<lambda>e. []) 5 sample_endpoints 0 ?fr ?nd [] =
      Some (?fr\<lparr>fr_phase := Coordinating (fst (getUniqueTransactionId ?nd)) q b cl, fr_stream := ([], Silent)\<rparr>, nd', hp')"
    (is "_ = Some (?fr', _, _)") by blast
  have reach: "client_reach PAPER_VERSION (\<lambda>e. []) run_hosts ?cs" by (rule clients_step [OF clients_start opened])
  have start: "nodes (start run_hosts) ''a:1'' = Some ?nd" "heap (start run_hosts) = []" by (simp_all add: run_start)
  have "client_step PAPER_VERSION (\<lambda>e. []) ?cs
      (?cs\<lparr>cs_sys := (cs_sys ?cs)\<lparr>nodes := (nodes (cs_sys ?cs))(cc_host ?c \<mapsto> nd'), heap := hp'\<rparr>,
           cs_conns := (cs_conns ?cs)[0 := ?c\<lparr>cc_front := ?fr', cc_object := length (heap (cs_sys ?cs))\<rparr>]\<rparr>)"
    by (rule request_read [where nd = ?nd and socket = 5 and ep = sample_endpoints and ahead = 0])
      (simp_all add: start_clients_def start q(2) [unfolded append_Nil2], simp add: open_front_def)
  note step = clients_step [OF reach this]
  show thesis
    by (rule that [OF step, of ?fr' q b cl])
      (simp_all add: start_clients_def start q(1) getUniqueTransactionId_def run_start_node run_txid)
qed

theorem client_answers_agree_witness:
  "\<exists>cs reply. client_reach PAPER_VERSION (\<lambda>e. []) run_hosts cs \<and> (1, reply) \<in> set (cs_replies cs) \<and>
    receive_response (reply, Closed) = Some \<lparr>status = 200, body = ''COMMIT''\<rparr> \<and> \<not> decided (cs_sys cs) 1 ''ABORT''"
proof -
  obtain s where s: "acts PAPER_VERSION commit_run (start run_hosts) = Some s"
      "map ob_class (heap s) = [CoordinatorNode, ParticipantNode]" "map ob_config (heap s) = [run_config, run_config]"
      "map ob_returned (heap s) = [Some ''COMMIT'', Some ''COMMIT'']"
      "map ob_removed (heap s) = [False, False]" "nodes s ''a:1'' \<noteq> None"
    using commit_run_works by (elim exE conjE)
  obtain ob1 ob2 where hp: "heap s = [ob1, ob2]" using s(2) by (auto simp: map_eq_Cons_conv)
  obtain run where run: "commit_run = Client_request ''a:1'' ''a:1 b:2 '' # run" by (simp add: commit_run_def)
  obtain nd' hp' where req: "onClientRequest PAPER_VERSION ''a:1 b:2 '' (start_node (run_host ''a:1'' 1)) [] = Inr (nd', hp')"
    using onClientRequest_total by blast
  obtain cs fr q b cl where cs: "client_reach PAPER_VERSION (\<lambda>e. []) run_hosts cs"
    "cs_sys cs = (start run_hosts)\<lparr>nodes := (nodes (start run_hosts))(''a:1'' \<mapsto> nd'), heap := hp'\<rparr>"
    "cs_conns cs = [\<lparr>cc_host = ''a:1'', cc_front = fr, cc_object = 0\<rparr>]"
    "fr_phase fr = Coordinating 1 q b cl" "sr_method q = ''POST''" "cs_replies cs = []"
    using req by (rule sample_client_reads)
  have "acts PAPER_VERSION run (cs_sys cs) = Some s"
    using s(1) req by (simp add: run run_start cs(2))
  then have reach: "client_reach PAPER_VERSION (\<lambda>e. []) run_hosts (cs\<lparr>cs_sys := s\<rparr>)" using cs(1) by (rule system_acts)
  obtain nd where nd: "nodes s ''a:1'' = Some nd" using s(6) by blast
  obtain fr' nd2 where front: "front_decided (\<lambda>e. []) 0 (Inr ''COMMIT'') fr nd = (fr', nd2)" by fastforce
  have len: "length ''COMMIT'' < 2 ^ 64" by simp
  from front_decided_reply [OF cs(4,5) len, of "\<lambda>e. []" 0 nd] front
  obtain reply where reply: "fr_out fr' = fr_out fr @ reply"
      "receive_response (reply, Closed) = Some \<lparr>status = 200, body = ''COMMIT''\<rparr>" by auto
  have ob1: "ob_returned ob1 = Some ''COMMIT''" "\<not> ob_removed ob1" using s(4,5) hp by simp_all
  let ?c = "\<lparr>cc_host = ''a:1'', cc_front = fr, cc_object = 0\<rparr>"
  have "client_step PAPER_VERSION (\<lambda>e. []) (cs\<lparr>cs_sys := s\<rparr>)
      (cs\<lparr>cs_sys := s\<lparr>nodes := (nodes s)(''a:1'' \<mapsto> nd2), heap := [ob1\<lparr>ob_removed := True\<rparr>, ob2]\<rparr>,
          cs_conns := [?c\<lparr>cc_front := fr'\<rparr>], cs_replies := [(1, reply)]\<rparr>)"
    using decision_answered [of 0 "cs\<lparr>cs_sys := s\<rparr>" ?c 1 q b cl nd ob1 "''COMMIT''" "\<lambda>e. []" 0 fr' nd2 reply PAPER_VERSION]
      cs(3,4,6) nd hp ob1 front reply(1) len by simp
  from clients_step [OF reach this] have reached: "client_reach PAPER_VERSION (\<lambda>e. []) run_hosts
      (cs\<lparr>cs_sys := s\<lparr>nodes := (nodes s)(''a:1'' \<mapsto> nd2), heap := [ob1\<lparr>ob_removed := True\<rparr>, ob2]\<rparr>,
          cs_conns := [?c\<lparr>cc_front := fr'\<rparr>], cs_replies := [(1, reply)]\<rparr>)" (is "client_reach _ _ _ ?cs") .
  have "orderly (cs_sys ?cs)"
    using s(2,3) hp run_orderly_config by (simp add: orderly_def coordinator_ids_def sig_def)
  from client_answers_agree [OF reached run_good_hosts this _ reply(2), of 1] reached reply(2)
  show ?thesis by (intro exI [of _ ?cs] exI [of _ reply]) simp
qed

end
