(* ===== verification/Spec2Isabelle.thy ===== *)
theory Spec2Isabelle
  imports
    Tcp_Server
    Event_Timer
    Dbms_Client
    New_Disagreement
    Paper_Progress
    Json_Equivalence
    Client_System
    New_Handlers
begin

text \<open>
  Cornus2 is an implementation of atomic commitment on top of a shared log service. A client asks a
  node over HTTP to run a transaction; the node becomes its coordinator, asks the participants over
  TCP for their votes, and the nodes write votes and decisions into logs that a (simulated) DBMS keeps
  and serves over HTTP. A node that waits too long reads the outcome from the logs, or forces it there
  with \<open>LOG_ONCE\<close>, a write that only takes effect when nothing has been written yet. The version of
  the paper is compiled by default; a second version, with replicators and committers, is compiled with
  \<open>NEW_VERSION\<close>. This development models both, the DBMS, and everything between them down to the
  bytes on the connections. Paths below are relative to \<open>src/\<close>.

  \<^bold>\<open>Theories and sources.\<close> Definitions bear the names of the functions they model.

  \<^item> \<open>Cornus_Prelude\<close>: errors and results, the C++ library functions on strings, list lemmas.
  \<^item> \<open>Json_Value\<close>, \<open>Json_Lexer\<close>, \<open>Json_Parser\<close>: the part of the bundled JSON library that reads a
    configuration (\<open>Cornus/include/lib/json.hpp\<close>: lexer, parser, the tree builder with its stack of
    references, the conversions and lookups), with the C library's \<open>strtod\<close> as a correctly rounded
    conversion. The builder's pointers are paths.
  \<^item> \<open>Json_Number\<close>, \<open>Json_String\<close>, \<open>Json_Document\<close>: what that library promises. The number scanner
    is equivalent to the grammar of RFC 8259, string tokens are UTF-8, a returned document is well
    formed, and parsing fails only with the library's own exceptions. \<open>Json_Text\<close>, \<open>Json_Token\<close>,
    \<open>Json_Grammar\<close>, \<open>Json_Equivalence\<close>: the grammar of strings, tokens and documents, and that the parser
    accepts exactly the texts of the grammar and returns their documents.
  \<^item> \<open>Node_Config\<close>: \<open>Cornus/include/config/TransactionConfig.h\<close> and \<open>HostConfig.hpp\<close>.
  \<^item> \<open>Tcp_Codec\<close>, \<open>Tcp_Conn\<close>, \<open>Tcp_Server\<close>: \<open>Cornus/include/messaging/tcp.hpp\<close>, messages and
    parameters, the receive loop of a server connection and the client, the accept loop with its threads.
  \<^item> \<open>Event_Timer\<close>: \<open>Cornus/include/lib/timer.hpp\<close>.
  \<^item> \<open>Message_Queue\<close>: \<open>Cornus/include/messaging/messageQueue.hpp\<close>.
  \<^item> \<open>Dbms_Log\<close>: \<open>DBMS/include/log.hpp\<close>, \<open>logManager.hpp\<close>, \<open>types.hpp\<close> and the handlers of
    \<open>DBMS/main.cpp\<close>.
  \<^item> \<open>Dbms_Client\<close>: \<open>Cornus/include/messaging/dbms.hpp\<close> and the path matcher of the HTTP library.
  \<^item> \<open>Http_Text\<close>, \<open>Http_Server\<close>, \<open>Http_Exchange\<close>: the bundled HTTP library (\<open>httplib.hpp\<close>, the same
    file under \<open>DBMS/include\<close> and \<open>Cornus/include/lib\<close>) as the DBMS and its client use it.
  \<^item> \<open>Handler_Effects\<close>: the interactions of a handler thread and \<open>transactionHandlers/Sender.hpp\<close>;
    \<open>Handler_Run\<close>: running one thread against a surrounding.
  \<^item> \<open>Paper_Handlers\<close>: \<open>TransactionHandler.hpp\<close>, \<open>Coordinator.h\<close>, \<open>Participant.h\<close>.
  \<^item> \<open>New_Handlers\<close>: \<open>TransactionHandler2.hpp\<close>, \<open>Coordinator2.h\<close>, \<open>Participant2.h\<close>,
    \<open>Replicator.h\<close>, \<open>Committer.h\<close>.
  \<^item> \<open>Global_Handler\<close>: \<open>messaging/GlobalMessageHandler.hpp\<close>, a node with its handlers and callbacks.
  \<^item> \<open>Client_Front\<close>: the HTTP server of a node with its route \<open>/TRANSACTION\<close>, on the library's server path
    for forms, and the answer to the client; \<open>Client_System\<close>: the system together with these connections.
  \<^item> \<open>Cornus_System\<close>: several nodes, the requests between them and the DBMS as a step relation;
    \<open>Cornus_Runs\<close>: concrete runs.
  \<^item> \<open>Paper_Discipline\<close>, \<open>Paper_Safety\<close>, \<open>Paper_Agreement\<close>: the safety of the paper version, from
    single threads over the inductive invariant to reachable states; \<open>Paper_Progress\<close>: that it does not block;
    \<open>New_Disagreement\<close>: a run of the second version without agreement.

  \<^bold>\<open>State and operations.\<close> Exceptions, failed assertions and undefined behaviour are the values of
  \<open>cxx_error\<close>; a fallible operation returns \<open>cxx_error + 'a\<close>. Operations on shared objects that hold a
  mutex (queue, logs, handler maps) are atomic functions from state to state. A handler is a value of
  the codatatype \<open>proc\<close>: the tree of its interactions (waiting for a message, sending, logging, asking
  its worker) in the order of the source, with loops that need not end as corecursion. Its meaning is
  given twice: \<open>Handler_Run\<close> runs it alone with a clock, and \<open>Cornus_System.step\<close> performs one
  interaction of any thread of any node at a time, so that every interleaving, delay, reordering and
  loss of requests, time-out and crash is a run. Handler objects live on a heap because a map of a node
  may forget an object that still runs. Machine integers have their width: 64-bit transaction ids of a
  16-bit node number and a 32-bit counter, 16-bit ports in socket addresses, 64-bit JSON integers.

  \<^bold>\<open>What is shown.\<close>

  \<^item> The paper version: over all reachable states no transaction is both committed and aborted, a
    commit anywhere means that every participant has voted yes, and workers commit only then. Every handler
    on a live node decides by its own steps if the hosts it connects to answer (a request has no time-out,
    so one that hangs blocks its sender), and a participant that waits for the decision decides whatever
    has become of all others. Alone, a
    coordinator or participant returns on every path, with the decision, messages and log entries of
    its specification; the termination protocol is stable. The side conditions are named in
    \<open>Paper_Agreement\<close>: clients send orderly configurations, host configurations number the nodes
    differently, and no node uses up its ids; \<open>transaction_ids_collide\<close> tells when it would. That no coordinator
    takes part in its own transaction is needed as well: \<open>self_participant_fails\<close>.
  \<^item> The clients: a form posted to a node starts a transaction for exactly the text that was encoded in it,
    a form that is too long starts none, and every decision that a client can read from a reply is the one that
    the coordinator returned, so that it agrees with all logs, nodes and other clients.
  \<^item> The second version: the coordinator and the replicator do what they are specified to do, but a
    participant that times out decides from its own log alone, and two nodes can disagree.
  \<^item> The DBMS: its nested maps refine a flat map with write-once consensus, its logs keep to
    the values of their life cycle and only move forward without overwrites.
  \<^item> The connections: messages are decoded as they were encoded in any segmentation, the server stays
    within its buffer up to one overlapping \<open>memcpy\<close>, an exchange calls exactly the registered callback, and a server with any number
    of clients that wait for their replies serves them all. The HTTP path over bytes
    refines the atomic transport that the handlers are verified against, and a call reaches exactly the
    log it names. The faults are theorems as well: pipelined requests are merged, end the whole
    server process with an exception, or lead to an overlapping copy; a body that is cut off is logged.
  \<^item> The queue waits no longer than its deadline and keeps the order of the messages; configurations
    are read back from their text; replicators are the next nodes of the ring.

  \<^bold>\<open>Interfaces.\<close> \<open>once_store\<close> (a store whose first valid write wins) is interpreted by the logs of the
  DBMS as \<open>tx_log\<close>; \<open>fifo_queue\<close> by the message queue as \<open>message_fifo\<close>; \<open>framing\<close> (a decoder that finds
  a frame exactly when all of it has arrived) by requests and responses as \<open>request_framing\<close> and
  \<open>response_framing\<close>; \<open>faithful_transport\<close> (calls over bytes behave as the server function) by
  the HTTP library as \<open>http\<close>. The handler theories rest on the facts of these interpretations.

  \<^bold>\<open>Termination and fuel.\<close> The loops of the codecs, the lexer, the JSON parser, the HTTP library and the
  connections are total functions: their termination proofs count the bytes or events that are left. The request loop of an HTTP connection is bounded by the
  library's own limit of requests per connection. The accept loop, which does not end by itself, is a
  sequence of steps. A handler thread has one unit of fuel per interaction; \<open>outcome\<close> states that all
  large enough amounts give the same result, so a theorem with \<open>outcome\<close> includes that the thread
  returns. What a handler waits for is bounded by the arrivals of its inbox and by its deadline.

  \<^bold>\<open>Parameters.\<close> What is not under \<open>src/\<close> is an argument or an explicit input: the results of the
  socket calls, name resolution, how far the HTTP library has read ahead on a connection (which depends on
  how its bytes arrived and is lost to the next request) and the texts of exceptions (\<open>what()\<close> of the
  standard library). Which hosts answer is a hypothesis of the liveness theorem alone; safety holds for
  all behaviour of the network.

  \<^bold>\<open>Not modelled.\<close> The artificial latency of the DBMS, the printing of latencies and log lines, the
  name demangling of \<open>utils.hpp\<close> and the two \<open>main\<close> functions beyond their routes: output only. Of the
  bundled libraries, what the program does not reach: of JSON the serialiser, binary formats,
  callbacks and the container interface beyond lookups; of HTTP ranges, multipart forms, files,
  compression, TLS, redirects, authentication, proxies and the thread pool. Timing other than
  deadlines, the move of a vector's elements under a pointer to them, the restart of a crashed node (the program has none), and data races outside the
  critical sections.
\<close>

end
